(* ===== verification/Chain_Prelude.thy ===== *)
theory Chain_Prelude
  imports Main "HOL-Library.Word"
begin

text \<open>
  Shared vocabulary of the development: the exceptions of the node
  (\<^verbatim>\<open>libraries/chain/include/dcd/chain/exceptions.hpp\<close>) as a datatype, the result type of
  code that may throw, loops that stop at the first throw, and the generic facts on
  results, lists and association lists that the component theories use.
\<close>

named_theorems result_simps \<open>unfolding of throwing computations\<close>

section \<open>Exceptions and results\<close>

text \<open>
  The exception classes thrown by the modelled code, one constructor per class; the
  message is diagnostic text and is not kept. \<open>Logic_error\<close>, \<open>Out_of_range\<close> and \<open>Runtime_error\<close> are the
  standard library's, \<open>Assert_failure\<close> is a failed assertion, \<open>Unpack_error\<close> the failure to decode bytes, \<open>Undefined_behaviour\<close> stands for
  executions to which C++ gives no meaning, \<open>Contract_check\<close> is the abort of a contract's \<open>check\<close> with its text.
\<close>

datatype chain_exc =
    Name_type_exception
  | Symbol_type_exception
  | Asset_type_exception
  | Overflow_exception
  | Block_validate_exception
  | Unlinkable_block_exception
  | Producer_double_confirm
  | Wrong_producer
  | Wrong_signing_key
  | No_block_signatures
  | Producer_schedule_exception
  | Fork_database_exception
  | Fork_db_block_not_found
  | Permission_query_exception
  | Irrelevant_auth_exception
  | Unsatisfied_authorization
  | Action_validate_exception
  | Transaction_exception
  | Unlinkable_min_permission_action
  | Unactivated_key_type
  | Chain_exception
  | Tx_not_found
  | Tx_resource_exhaustion
  | Tx_duplicate
  | Expired_tx_exception
  | Protocol_feature_exception
  | Protocol_feature_validation_exception
  | Protocol_feature_iterator_exception
  | Ill_formed_protocol_feature_activation
  | Invalid_block_header_extension
  | Invalid_block_extension
  | Ill_formed_additional_block_signatures_extension
  | Invalid_permission
  | Missing_auth_exception
  | Account_query_exception
  | Account_name_exists_exception
  | Set_exact_code
  | Invalid_contract_vm_type
  | Invalid_contract_vm_version
  | Key_blacklist_exception
  | Unpack_error
  | Bad_composite_key_exception
  | Db_rocksdb_invalid_operation
  | Database_exception
  | Bad_optional_access
  | Logic_error
  | Out_of_range
  | Runtime_error
  | Assert_failure
  | Undefined_behaviour
  | Contract_check string

type_synonym 'a result = "chain_exc + 'a"

definition bind_res :: "'a result \<Rightarrow> ('a \<Rightarrow> 'b result) \<Rightarrow> 'b result" where
  "bind_res m f = (case m of Inl e \<Rightarrow> Inl e | Inr x \<Rightarrow> f x)"

definition assert_res :: "bool \<Rightarrow> chain_exc \<Rightarrow> unit result" where
  "assert_res c e = (if c then Inr () else Inl e)"

fun fold_res :: "('a \<Rightarrow> 's \<Rightarrow> 's result) \<Rightarrow> 'a list \<Rightarrow> 's \<Rightarrow> 's result" where
  "fold_res f [] s = Inr s"
| "fold_res f (x # xs) s = bind_res (f x s) (fold_res f xs)"

definition returns :: "'a result \<Rightarrow> bool" where
  "returns m = (case m of Inl _ \<Rightarrow> False | Inr _ \<Rightarrow> True)"

lemma bind_res_Inr [simp]: "bind_res (Inr x) f = f x"
  by (simp add: bind_res_def)

lemma bind_res_Inl [simp]: "bind_res (Inl e) f = Inl e"
  by (simp add: bind_res_def)

lemma bind_res_eq_Inr [result_simps]:
  "bind_res m f = Inr y \<longleftrightarrow> (\<exists>x. m = Inr x \<and> f x = Inr y)"
  by (cases m) auto

lemma bind_res_eq_Inl [result_simps]:
  "bind_res m f = Inl e \<longleftrightarrow> m = Inl e \<or> (\<exists>x. m = Inr x \<and> f x = Inl e)"
  by (cases m) auto

lemma assert_res_eq_Inr [result_simps]: "assert_res c e = Inr u \<longleftrightarrow> c"
  by (simp add: assert_res_def)

lemma assert_res_eq_Inl [result_simps]: "assert_res c e = Inl x \<longleftrightarrow> \<not> c \<and> x = e"
  by (auto simp: assert_res_def)

lemma assert_res_True [simp]: "assert_res True e = Inr ()"
  by (simp add: assert_res_def)

lemma assert_res_False [simp]: "assert_res False e = Inl e"
  by (simp add: assert_res_def)

lemma returns_iff: "returns m \<longleftrightarrow> (\<exists>x. m = Inr x)"
  by (cases m) (auto simp: returns_def)

lemma returns_simps [simp]: "returns (Inr x)" "\<not> returns (Inl e)"
  by (simp_all add: returns_def)

lemma fold_res_append:
  "fold_res f (xs @ ys) s = bind_res (fold_res f xs s) (fold_res f ys)"
proof (induction xs arbitrary: s)
  case Nil
  then show ?case by simp
next
  case (Cons x xs)
  then show ?case by (cases "f x s") simp_all
qed

text \<open>An invariant of every step of a throwing loop is an invariant of the loop.\<close>

lemma fold_res_invariant:
  assumes "fold_res f xs s = Inr t" and "P s"
    and "\<And>x s t. x \<in> set xs \<Longrightarrow> P s \<Longrightarrow> f x s = Inr t \<Longrightarrow> P t"
  shows "P t"
  using assms
proof (induction xs arbitrary: s)
  case Nil
  then show ?case by simp
next
  case (Cons x xs)
  from Cons.prems(1) obtain u where u: "f x s = Inr u" "fold_res f xs u = Inr t"
    by (auto simp: bind_res_eq_Inr)
  have "P u"
    using Cons.prems(2,3) u(1) by (meson list.set_intros(1))
  moreover have "\<And>y s t. y \<in> set xs \<Longrightarrow> P s \<Longrightarrow> f y s = Inr t \<Longrightarrow> P t"
    using Cons.prems(3) by (meson list.set_intros(2))
  ultimately show ?case
    using Cons.IH u(2) by blast
qed

section \<open>Lists and association lists\<close>

lemma takeWhile_neq_append:
  "a \<notin> set (map f xs) \<Longrightarrow> takeWhile (\<lambda>x. f x \<noteq> a) (xs @ ys) = xs @ takeWhile (\<lambda>x. f x \<noteq> a) ys"
  by (induction xs) auto

lemma dropWhile_neq_append:
  "a \<notin> set (map f xs) \<Longrightarrow> dropWhile (\<lambda>x. f x \<noteq> a) (xs @ ys) = dropWhile (\<lambda>x. f x \<noteq> a) ys"
  by (induction xs) auto

lemma map_of_filter_fst: "map_of (filter (\<lambda>p. P (fst p)) xs) k = (if P k then map_of xs k else None)"
  by (induction xs) auto

lemma map_of_filter_less: "map_of (filter (\<lambda>p. fst p < b) xs) k = (if k < b then map_of xs k else None)"
  by (rule map_of_filter_fst)

lemma map_of_Some_key: "map_of xs k = Some v \<Longrightarrow> k \<in> set (map fst xs)"
  by (induction xs) (auto split: if_splits)

lemma map_of_map_snd: "map_of (map (\<lambda>p. (fst p, f (fst p) (snd p))) xs) k = map_option (f k) (map_of xs k)"
  by (induction xs) auto

text \<open>A sorted association list without repeated keys is determined by its lookups.\<close>

lemma sorted_alist_unique:
  fixes xs ys :: "('k::linorder \<times> 'v) list"
  assumes "sorted (map fst xs)" "distinct (map fst xs)"
    and "sorted (map fst ys)" "distinct (map fst ys)"
    and "map_of xs = map_of ys"
  shows "xs = ys"
proof -
  have "set xs = set ys"
    using assms(2,4,5) by (metis map_of_inject_set)
  then show ?thesis
    using assms(1-4) by (intro map_sorted_distinct_set_unique[where f = fst])
      (auto simp: distinct_map intro: inj_on_subset)
qed

lemma map_of_insort_key:
  assumes "fst p \<notin> set (map fst xs)"
  shows "map_of (insort_key fst p xs) = (map_of xs)(fst p \<mapsto> snd p)"
  using assms by (induction xs) (auto simp: fun_eq_iff split: if_splits)

lemma set_map_fst_insort_key [simp]:
  "set (map fst (insort_key fst p xs)) = insert (fst p) (set (map fst xs))"
  by (simp add: set_insort_key)

lemma distinct_map_fst_insort_key [simp]:
  "distinct (map fst (insort_key fst p xs)) \<longleftrightarrow> fst p \<notin> set (map fst xs) \<and> distinct (map fst xs)"
  by (induction xs) (auto simp: set_insort_key)

lemma distinct_shrink_middle:
  assumes "distinct (as @ xs @ us)" "distinct ms" "set ms \<subseteq> set xs"
  shows "distinct (as @ ms @ us)"
  using assms by auto

lemma not_isl_Inr: "\<not> isl x \<Longrightarrow> x = Inr (projr x)"
  by (cases x) auto

lemma snoc_nth: "length xs = Suc n \<Longrightarrow> xs = butlast xs @ [xs ! n]"
  by (metis append_butlast_last_id diff_Suc_1 last_conv_nth list.size(3) nat.distinct(1))

section \<open>Words\<close>

lemma bit_word_unat: "bit (v :: 64 word) j \<longleftrightarrow> odd (unat v div 2 ^ j)"
  by (simp add: bit_iff_odd[symmetric] bit_unsigned_iff)

lemma word_bits_bound:
  fixes d :: "64 word"
  shows "(\<forall>k. bit d k \<longrightarrow> k < n) \<longleftrightarrow> unat d < 2 ^ n"
proof
  assume "\<forall>k. bit d k \<longrightarrow> k < n"
  then have "d = take_bit n d"
    by (intro bit_word_eqI) (auto simp: bit_take_bit_iff)
  then have "unat d = take_bit n (unat d)"
    by (metis unsigned_take_bit_eq)
  then show "unat d < 2 ^ n"
    by (metis take_bit_nat_less_exp)
next
  assume d: "unat d < 2 ^ n"
  show "\<forall>k. bit d k \<longrightarrow> k < n"
  proof (intro allI impI, rule ccontr)
    fix k
    assume "bit d k" "\<not> k < n"
    then have "unat d div 2 ^ k = 0"
      using d by (meson div_less less_le_trans not_le one_le_numeral power_increasing)
    with \<open>bit d k\<close> show False
      by (simp add: bit_word_unat)
  qed
qed

lemma unat_low_byte: "unat (Bit_Operations.and (v :: 64 word) 0xFF) = unat v mod 256"
proof -
  have "(0xFF :: 64 word) = mask 8"
    by (simp add: mask_eq_exp_minus_1)
  then have "Bit_Operations.and v 0xFF = take_bit 8 v"
    by (simp only: take_bit_eq_mask)
  then show ?thesis
    by (simp add: take_bit_eq_mod unat_mod)
qed

lemma unat_drop_byte: "unat (drop_bit 8 (v :: 64 word)) = unat v div 256"
  by (simp add: unat_drop_bit_eq drop_bit_eq_div unat_div)

text \<open>Writing a block of bits above the bits in use adds it.\<close>

lemma unat_or_push_bit:
  fixes a b :: "64 word"
  assumes "unat a < 2 ^ n" "2 ^ n * unat b < 2 ^ 64"
  shows "unat (Bit_Operations.or a (push_bit n b)) = unat a + 2 ^ n * unat b"
proof -
  have "\<forall>k. bit a k \<longrightarrow> k < n"
    using assms(1) by (simp only: word_bits_bound)
  then have "\<not> bit (unat a) k \<or> \<not> bit (push_bit n (unat b)) k" for k
    by (auto simp: bit_unsigned_iff bit_push_bit_iff)
  then have "Bit_Operations.or (unat a) (push_bit n (unat b)) = unat a + push_bit n (unat b)"
    by (rule disjunctive_add[symmetric])
  moreover have "unat (push_bit n b) = 2 ^ n * unat b mod 2 ^ 64"
    by (simp only: unsigned_push_bit_eq take_bit_eq_mod) (simp add: push_bit_eq_mult mult.commute)
  ultimately show ?thesis
    using assms(2) by (simp add: unsigned_or_eq push_bit_eq_mult mult.commute)
qed

end
