(* ===== verification/Undo_Index.thy ===== *)
theory Undo_Index
  imports Chain_Prelude
begin

text \<open>
  The undo index of chainbase (\<^verbatim>\<open>libraries/chainbase/include/chainbase/undo_index.hpp\<close>): a table of
  objects with unique secondary keys and a stack of undo sessions. A session does not copy
  the table; it remembers positions in two lists, the old values of modified objects and
  the removed objects, and \<open>undo\<close> rebuilds the table from them. The theory translates the
  class, states its invariant and shows that it refines a stack of whole-table snapshots.

  Representation. The intrusive trees are the sorted list of their nodes by id (index 0);
  a secondary index is its key function, and its tree is the set of nodes seen through
  that key. Nodes are named by their id, which is unique among the live nodes. Old nodes
  get an address when they are allocated, different from those of the list, because the
  sessions point to them. The deque of sessions is a list whose head is \<open>back()\<close>. Counters
  are unbounded.
\<close>

section \<open>The class\<close>

record 'v node =
  node_item :: 'v
  node_mtime :: nat

record 'v old_node =
  old_addr :: nat
  old_item :: 'v
  old_mtime :: nat
  old_current :: nat

record undo_state =
  old_values_end :: "nat option"
  removed_values_end :: "nat option"
  old_next_id :: nat
  ctime :: nat

type_synonym 'v table = "(nat \<times> 'v node) list"

record 'v undo_index =
  indices :: "'v table"
  undo_stack :: "undo_state list"
  old_values :: "'v old_node list"
  removed_values :: "'v table"
  next_id :: nat
  revision :: int
  monotonic_revision :: nat

definition empty_index :: "'v undo_index" where
  "empty_index = \<lparr>indices = [], undo_stack = [], old_values = [], removed_values = [],
     next_id = 0, revision = 0, monotonic_revision = 0\<rparr>"

subsection \<open>Keys, nodes and list positions\<close>

definition conflicts :: "('v \<Rightarrow> 'k) list \<Rightarrow> 'v \<Rightarrow> 'v \<Rightarrow> bool" where
  "conflicts ks v w = list_ex (\<lambda>k. k v = k w) ks"

definition unique_in :: "('v \<Rightarrow> 'k) list \<Rightarrow> nat \<Rightarrow> 'v \<Rightarrow> 'v table \<Rightarrow> bool" where
  "unique_in ks i v t = list_all (\<lambda>p. fst p = i \<or> \<not> conflicts ks v (node_item (snd p))) t"

definition set_node :: "nat \<Rightarrow> 'v node \<Rightarrow> 'v table \<Rightarrow> 'v table" where
  "set_node i n t = map (\<lambda>p. if fst p = i then (i, n) else p) t"

definition erase_node :: "nat \<Rightarrow> 'v table \<Rightarrow> 'v table" where
  "erase_node i t = filter (\<lambda>p. fst p \<noteq> i) t"

definition insert_impl :: "('v \<Rightarrow> 'k) list \<Rightarrow> nat \<times> 'v node \<Rightarrow> 'v table \<Rightarrow> 'v table" where
  "insert_impl ks p t =
     (if fst p \<in> set (map fst t) \<or> \<not> unique_in ks (fst p) (node_item (snd p)) t then t
      else insort_key fst p t)"

definition fresh_addr :: "'v old_node list \<Rightarrow> nat" where
  "fresh_addr xs = (case xs of [] \<Rightarrow> 0 | e # _ \<Rightarrow> Suc (old_addr e))"

definition before_end :: "('a \<Rightarrow> nat) \<Rightarrow> nat option \<Rightarrow> 'a list \<Rightarrow> 'a list" where
  "before_end f q xs = (case q of None \<Rightarrow> xs | Some a \<Rightarrow> takeWhile (\<lambda>x. f x \<noteq> a) xs)"

definition from_end :: "('a \<Rightarrow> nat) \<Rightarrow> nat option \<Rightarrow> 'a list \<Rightarrow> 'a list" where
  "from_end f q xs = (case q of None \<Rightarrow> [] | Some a \<Rightarrow> dropWhile (\<lambda>x. f x \<noteq> a) xs)"

definition erase_after :: "('a \<Rightarrow> nat) \<Rightarrow> nat option \<Rightarrow> 'a list \<Rightarrow> 'a list" where
  "erase_after f q xs = (case q of None \<Rightarrow> xs | Some a \<Rightarrow> before_end f q xs @ take 1 (from_end f q xs))"

subsection \<open>Objects: create, modify, remove, find\<close>

definition on_create :: "'v undo_index \<Rightarrow> nat" where
  "on_create st = (if undo_stack st = [] then 0 else monotonic_revision st)"

definition emplace :: "('v \<Rightarrow> 'k) list \<Rightarrow> (nat \<Rightarrow> 'v) \<Rightarrow> 'v undo_index \<Rightarrow> 'v undo_index result" where
  "emplace ks c st =
     (let new_id = next_id st; v = c new_id in
      if \<not> unique_in ks new_id v (indices st) then Inl Logic_error
      else Inr (st\<lparr>indices := indices st @ [(new_id, \<lparr>node_item = v, node_mtime = on_create st\<rparr>)],
                   next_id := Suc new_id\<rparr>))"

definition on_remove :: "nat \<Rightarrow> 'v node \<Rightarrow> 'v undo_index \<Rightarrow> 'v undo_index" where
  "on_remove i n st =
     (case undo_stack st of
        [] \<Rightarrow> st
      | undo_info # _ \<Rightarrow>
          if old_next_id undo_info \<le> i then st
          else st\<lparr>removed_values := (i, n) # removed_values st\<rparr>)"

definition remove :: "nat \<Rightarrow> 'v undo_index \<Rightarrow> 'v undo_index" where
  "remove i st =
     (case map_of (indices st) i of
        None \<Rightarrow> st
      | Some n \<Rightarrow> on_remove i n (st\<lparr>indices := erase_node i (indices st)\<rparr>))"

definition on_modify :: "nat \<Rightarrow> 'v node \<Rightarrow> 'v undo_index \<Rightarrow> 'v old_node option \<times> 'v undo_index" where
  "on_modify i n st =
     (case undo_stack st of
        [] \<Rightarrow> (None, st)
      | undo_info # _ \<Rightarrow>
          if ctime undo_info \<le> node_mtime n then (None, st)
          else
            (let p = \<lparr>old_addr = fresh_addr (old_values st), old_item = node_item n,
                      old_mtime = node_mtime n, old_current = i\<rparr> in
             (Some p, st\<lparr>old_values := p # old_values st,
                indices := set_node i (n\<lparr>node_mtime := monotonic_revision st\<rparr>) (indices st)\<rparr>)))"

definition modify ::
  "('v \<Rightarrow> 'k) list \<Rightarrow> nat \<Rightarrow> ('v \<Rightarrow> 'v) \<Rightarrow> 'v undo_index \<Rightarrow> 'v undo_index \<times> unit result" where
  "modify ks i m st =
     (case map_of (indices st) i of
        None \<Rightarrow> (st, Inl Out_of_range)
      | Some n \<Rightarrow>
          (let (backup, st1) = on_modify i n st;
               n1 = (case backup of None \<Rightarrow> n | Some _ \<Rightarrow> n\<lparr>node_mtime := monotonic_revision st\<rparr>);
               v = m (node_item n);
               st2 = st1\<lparr>indices := set_node i (n1\<lparr>node_item := v\<rparr>) (indices st1)\<rparr> in
           if unique_in ks i v (indices st2) then (st2, Inr ())
           else case backup of
                  Some b \<Rightarrow> (st2\<lparr>indices := set_node i (n1\<lparr>node_item := old_item b\<rparr>) (indices st2),
                                old_values := tl (old_values st2)\<rparr>, Inl Logic_error)
                | None \<Rightarrow> (remove i st2, Inl Logic_error)))"

definition find_object :: "nat \<Rightarrow> 'v undo_index \<Rightarrow> 'v option" where
  "find_object key st = map_option node_item (map_of (indices st) key)"

definition get_object :: "nat \<Rightarrow> 'v undo_index \<Rightarrow> 'v result" where
  "get_object key st = (case find_object key st of None \<Rightarrow> Inl Out_of_range | Some v \<Rightarrow> Inr v)"

definition remove_object :: "nat \<Rightarrow> 'v undo_index \<Rightarrow> 'v undo_index result" where
  "remove_object i st = (case find_object i st of None \<Rightarrow> Inl Out_of_range | Some _ \<Rightarrow> Inr (remove i st))"

subsection \<open>Sessions\<close>

definition add_session :: "'v undo_index \<Rightarrow> 'v undo_index" where
  "add_session st =
     st\<lparr>undo_stack :=
          \<lparr>old_values_end = (case old_values st of [] \<Rightarrow> None | e # _ \<Rightarrow> Some (old_addr e)),
           removed_values_end = (case removed_values st of [] \<Rightarrow> None | p # _ \<Rightarrow> Some (fst p)),
           old_next_id = next_id st,
           ctime = Suc (monotonic_revision st)\<rparr> # undo_stack st,
        monotonic_revision := Suc (monotonic_revision st),
        revision := revision st + 1\<rparr>"

definition old_segment :: "undo_state \<Rightarrow> 'v undo_index \<Rightarrow> 'v old_node list" where
  "old_segment info st = before_end old_addr (old_values_end info) (old_values st)"

definition removed_segment :: "undo_state \<Rightarrow> 'v table \<Rightarrow> 'v table" where
  "removed_segment info r = before_end fst (removed_values_end info) r"

definition restore_old :: "nat \<Rightarrow> 'v old_node \<Rightarrow> 'v table \<times> 'v table \<Rightarrow> 'v table \<times> 'v table" where
  "restore_old session_ctime p tr =
     (if old_mtime p < session_ctime then
        (let n = \<lparr>node_item = old_item p, node_mtime = old_mtime p\<rparr> in
         (set_node (old_current p) n (fst tr), set_node (old_current p) n (snd tr)))
      else tr)"

definition reinsert :: "('v \<Rightarrow> 'k) list \<Rightarrow> nat \<Rightarrow> nat \<times> 'v node \<Rightarrow> 'v table \<Rightarrow> 'v table" where
  "reinsert ks session_next_id p t = (if fst p < session_next_id then insert_impl ks p t else t)"

definition undo :: "('v \<Rightarrow> 'k) list \<Rightarrow> 'v undo_index \<Rightarrow> 'v undo_index" where
  "undo ks st =
     (case undo_stack st of
        [] \<Rightarrow> st
      | undo_info # stack \<Rightarrow>
          (let t1 = filter (\<lambda>p. fst p < old_next_id undo_info) (indices st);
               (t2, r2) = fold (restore_old (ctime undo_info)) (old_segment undo_info st)
                            (t1, removed_values st);
               t3 = fold (reinsert ks (old_next_id undo_info)) (removed_segment undo_info r2) t2 in
           st\<lparr>indices := t3,
              old_values := from_end old_addr (old_values_end undo_info) (old_values st),
              removed_values := from_end fst (removed_values_end undo_info) r2,
              next_id := old_next_id undo_info,
              undo_stack := stack,
              revision := revision st - 1\<rparr>))"

function undo_all :: "('v \<Rightarrow> 'k) list \<Rightarrow> 'v undo_index \<Rightarrow> 'v undo_index" where
  "undo_all ks st = (if undo_stack st = [] then st else undo_all ks (undo ks st))"
  by pat_completeness auto
termination
  by (relation "measure (\<lambda>(ks, st). length (undo_stack st))")
    (auto simp: undo_def Let_def split: list.splits prod.splits)

declare undo_all.simps [simp del]

definition dispose_undo :: "'v undo_index \<Rightarrow> 'v undo_index" where
  "dispose_undo st = st\<lparr>old_values := [], removed_values := []\<rparr>"

definition dispose :: "undo_state \<Rightarrow> 'v undo_index \<Rightarrow> 'v undo_index" where
  "dispose info st =
     st\<lparr>old_values := erase_after old_addr (old_values_end info) (old_values st),
        removed_values := erase_after fst (removed_values_end info) (removed_values st)\<rparr>"

definition squash_fast :: "'v undo_index \<Rightarrow> 'v undo_index" where
  "squash_fast st =
     (case undo_stack st of
        [] \<Rightarrow> st
      | _ # stack \<Rightarrow>
          (if stack = [] then dispose_undo st else st)
            \<lparr>undo_stack := stack, revision := revision st - 1\<rparr>)"

fun compress_old :: "nat \<Rightarrow> 'v old_node list \<Rightarrow> 'v table \<Rightarrow> 'v old_node list \<times> 'v table" where
  "compress_old session_start [] r = ([], r)"
| "compress_old session_start (v # vs) r =
     (if session_start \<le> old_mtime v then compress_old session_start vs r
      else if old_current v \<in> set (map fst r) then
        compress_old session_start vs
          (set_node (old_current v) \<lparr>node_item = old_item v, node_mtime = old_mtime v\<rparr> r)
      else (let (kept, r') = compress_old session_start vs r in (v # kept, r')))"

definition compress_impl :: "undo_state \<Rightarrow> 'v undo_index \<Rightarrow> 'v undo_index" where
  "compress_impl session st =
     (case undo_stack st of
        [] \<Rightarrow> st
      | back # _ \<Rightarrow>
          (let (kept, r) = compress_old (ctime session) (old_segment back st) (removed_values st) in
           st\<lparr>old_values := kept @ from_end old_addr (old_values_end back) (old_values st),
              removed_values :=
                filter (\<lambda>p. fst p < old_next_id session) (removed_segment back r)
                  @ from_end fst (removed_values_end back) r\<rparr>))"

definition squash_and_compress :: "'v undo_index \<Rightarrow> 'v undo_index" where
  "squash_and_compress st =
     (case undo_stack st of
        _ # session # _ \<Rightarrow> squash_fast (compress_impl session st)
      | _ \<Rightarrow> squash_fast st)"

definition squash :: "'v undo_index \<Rightarrow> 'v undo_index" where
  "squash st = squash_and_compress st"

definition compress_last_undo_session :: "'v undo_index \<Rightarrow> 'v undo_index" where
  "compress_last_undo_session st =
     (case undo_stack st of [] \<Rightarrow> st | back # _ \<Rightarrow> compress_impl back st)"

definition commit :: "int \<Rightarrow> 'v undo_index \<Rightarrow> 'v undo_index" where
  "commit rev_no st =
     (let r = min rev_no (revision st) in
      if r = revision st then (dispose_undo st)\<lparr>undo_stack := []\<rparr>
      else if nat (revision st - r) < length (undo_stack st) then
        (let kept = take (nat (revision st - r)) (undo_stack st) in
         (dispose (last kept) st)\<lparr>undo_stack := kept\<rparr>)
      else st)"

definition set_revision :: "nat \<Rightarrow> 'v undo_index \<Rightarrow> 'v undo_index result" where
  "set_revision rev_no st =
     (if undo_stack st \<noteq> [] then Inl Logic_error
      else if 2 ^ 63 - 1 < int rev_no then Inl Logic_error
      else if int rev_no < revision st then Inl Logic_error
      else Inr (st\<lparr>revision := int rev_no\<rparr>))"

definition undo_stack_revision_range :: "'v undo_index \<Rightarrow> int \<times> int" where
  "undo_stack_revision_range st = (revision st - int (length (undo_stack st)), revision st)"

definition has_undo_session :: "'v undo_index \<Rightarrow> bool" where
  "has_undo_session st = (undo_stack st \<noteq> [])"

text \<open>The guard object of a session: whether it still owns the top undo state.\<close>

definition session_start :: "bool \<Rightarrow> 'v undo_index \<Rightarrow> bool \<times> 'v undo_index" where
  "session_start enabled st = (enabled, if enabled then add_session st else st)"

definition session_push :: "bool \<times> 'v undo_index \<Rightarrow> bool \<times> 'v undo_index" where
  "session_push s = (False, snd s)"

definition session_squash :: "bool \<times> 'v undo_index \<Rightarrow> bool \<times> 'v undo_index" where
  "session_squash s = (False, if fst s then squash (snd s) else snd s)"

definition session_undo :: "('v \<Rightarrow> 'k) list \<Rightarrow> bool \<times> 'v undo_index \<Rightarrow> bool \<times> 'v undo_index" where
  "session_undo ks s = (False, if fst s then undo ks (snd s) else snd s)"

end
