(* ===== verification/Undo_Invariant.thy ===== *)
theory Undo_Invariant
  imports Undo_Index
begin

section \<open>Lists cut at a position\<close>

definition position_ok :: "('a \<Rightarrow> nat) \<Rightarrow> nat option \<Rightarrow> 'a list \<Rightarrow> bool" where
  "position_ok f q xs = (case q of None \<Rightarrow> True | Some a \<Rightarrow> a \<in> f ` set xs)"

lemma before_from_end: "before_end f q xs @ from_end f q xs = xs"
  by (simp add: before_end_def from_end_def split: option.split)

lemma set_before_end: "x \<in> set (before_end f q xs) \<Longrightarrow> x \<in> set xs"
  by (metis Un_iff before_from_end set_append)

lemma set_from_end: "x \<in> set (from_end f q xs) \<Longrightarrow> x \<in> set xs"
  by (metis Un_iff before_from_end set_append)

lemma before_end_notin: "q = Some a \<Longrightarrow> a \<notin> f ` set (before_end f q xs)"
  by (auto simp: before_end_def dest: set_takeWhileD)

lemma before_end_append:
  assumes "\<And>a. q = Some a \<Longrightarrow> a \<notin> f ` set ys"
  shows "before_end f q (ys @ xs) = ys @ before_end f q xs"
    and "from_end f q (ys @ xs) = from_end f q xs"
  using assms by (auto simp: before_end_def from_end_def takeWhile_neq_append dropWhile_neq_append
      split: option.split)

lemma before_end_Cons:
  assumes "q \<noteq> Some (f y)"
  shows "before_end f q (y # xs) = y # before_end f q xs" and "from_end f q (y # xs) = from_end f q xs"
  using before_end_append[of q f "[y]" xs] assms by auto

lemma before_end_map:
  assumes "\<And>x. f (g x) = f x"
  shows "before_end f q (map g xs) = map g (before_end f q xs)"
    and "from_end f q (map g xs) = map g (from_end f q xs)"
  using assms by (auto simp: before_end_def from_end_def takeWhile_map dropWhile_map comp_def
      split: option.split)

lemma position_ok_hd: "position_ok f (case xs of [] \<Rightarrow> None | x # _ \<Rightarrow> Some (f x)) xs"
  by (cases xs) (auto simp: position_ok_def)

lemma before_end_hd: "before_end f (case xs of [] \<Rightarrow> None | x # _ \<Rightarrow> Some (f x)) xs = []"
  by (cases xs) (auto simp: before_end_def)

lemma from_end_hd: "from_end f (case xs of [] \<Rightarrow> None | x # _ \<Rightarrow> Some (f x)) xs = xs"
  by (cases xs) (auto simp: from_end_def)

section \<open>Tables\<close>

lemma map_fst_set_node [simp]: "map fst (set_node i n t) = map fst t"
  by (induction t) (auto simp: set_node_def)

lemma map_of_set_node: "map_of (set_node i n t) j = (if j = i \<and> map_of t i \<noteq> None then Some n else map_of t j)"
  by (induction t) (auto simp: set_node_def)

lemma map_of_erase_node: "map_of (erase_node i t) = (map_of t)(i := None)"
  by (induction t) (auto simp: erase_node_def fun_eq_iff)

lemma set_node_absent: "i \<notin> set (map fst t) \<Longrightarrow> set_node i n t = t"
  by (induction t) (auto simp: set_node_def)

lemma conflicts_sym: "conflicts ks v w = conflicts ks w v"
  by (simp add: conflicts_def eq_commute)

definition uniq_map :: "('v \<Rightarrow> 'k) list \<Rightarrow> (nat \<rightharpoonup> 'v node) \<Rightarrow> bool" where
  "uniq_map ks M = (\<forall>i j n n'. M i = Some n \<longrightarrow> M j = Some n' \<longrightarrow> i \<noteq> j \<longrightarrow>
     \<not> conflicts ks (node_item n) (node_item n'))"

lemma unique_in_map_of:
  "distinct (map fst t) \<Longrightarrow> unique_in ks i v t \<longleftrightarrow>
     (\<forall>j n. map_of t j = Some n \<longrightarrow> j \<noteq> i \<longrightarrow> \<not> conflicts ks v (node_item n))"
  by (auto simp: unique_in_def list_all_iff)

lemma uniq_map_subset: "uniq_map ks M \<Longrightarrow> M' \<subseteq>\<^sub>m M \<Longrightarrow> uniq_map ks M'"
  unfolding uniq_map_def map_le_def dom_def by (metis (mono_tags, lifting) mem_Collect_eq option.distinct(1))

lemma uniq_map_update:
  assumes "uniq_map ks M"
    and "\<And>j n'. M j = Some n' \<Longrightarrow> j \<noteq> i \<Longrightarrow> \<not> conflicts ks (node_item n) (node_item n')"
  shows "uniq_map ks (M(i \<mapsto> n))"
  using assms unfolding uniq_map_def by (auto simp: conflicts_sym)

section \<open>What a session restores\<close>

definition old_as_node :: "'v old_node \<Rightarrow> 'v node" where
  "old_as_node e = \<lparr>node_item = old_item e, node_mtime = old_mtime e\<rparr>"

definition fix_node :: "'v old_node list \<Rightarrow> nat \<Rightarrow> 'v node \<Rightarrow> 'v node" where
  "fix_node seg i n =
     (case map_of (map (\<lambda>e. (old_current e, old_as_node e)) seg) i of None \<Rightarrow> n | Some n' \<Rightarrow> n')"

abbreviation fix_table :: "'v old_node list \<Rightarrow> 'v table \<Rightarrow> 'v table" where
  "fix_table seg t \<equiv> map (\<lambda>p. (fst p, fix_node seg (fst p) (snd p))) t"

definition live :: "undo_state \<Rightarrow> 'v undo_index \<Rightarrow> nat \<rightharpoonup> 'v node" where
  "live info st = map_of (removed_segment info (removed_values st)) ++ map_of (indices st)"

definition restored :: "undo_state \<Rightarrow> 'v undo_index \<Rightarrow> nat \<rightharpoonup> 'v node" where
  "restored info st i =
     (if i < old_next_id info then map_option (fix_node (old_segment info st) i) (live info st i) else None)"

lemma fix_node_Nil [simp]: "fix_node [] i n = n"
  by (simp add: fix_node_def)

lemma fix_node_Cons: "fix_node (e # seg) i n = (if old_current e = i then old_as_node e else fix_node seg i n)"
  by (simp add: fix_node_def)

lemma fix_node_absent: "i \<notin> old_current ` set seg \<Longrightarrow> fix_node seg i n = n"
  by (induction seg) (auto simp: fix_node_Cons)

lemma fix_node_present:
  "distinct (map old_current seg) \<Longrightarrow> e \<in> set seg \<Longrightarrow> fix_node seg (old_current e) n = old_as_node e"
  by (induction seg) (auto simp: fix_node_Cons image_iff dest: fix_node_absent)

lemma fix_node_append:
  "fix_node (xs @ ys) i n = (if i \<in> old_current ` set xs then fix_node xs i n else fix_node ys i n)"
  by (induction xs) (auto simp: fix_node_Cons)

lemma fix_table_absent:
  "(\<And>p. p \<in> set t \<Longrightarrow> fst p \<notin> old_current ` set seg) \<Longrightarrow> fix_table seg t = t"
  by (induction t) (auto simp: fix_node_absent)

lemma fix_table_set_node:
  "old_current e \<notin> old_current ` set seg \<Longrightarrow>
     fix_table seg (set_node (old_current e) (old_as_node e) t) = fix_table (e # seg) t"
  by (induction t) (auto simp: set_node_def fix_node_Cons fix_node_absent)

lemma fold_restore_old:
  assumes "distinct (map old_current seg)" and "\<forall>e \<in> set seg. old_mtime e < c"
  shows "fold (restore_old c) seg (t, r) = (fix_table seg t, fix_table seg r)"
  using assms
proof (induction seg arbitrary: t r)
  case Nil
  then show ?case by simp
next
  case (Cons e seg)
  have "restore_old c e (t, r)
      = (set_node (old_current e) (old_as_node e) t, set_node (old_current e) (old_as_node e) r)"
    using Cons.prems(2) by (simp add: restore_old_def old_as_node_def Let_def)
  with Cons show ?case
    by (simp add: fix_table_set_node)
qed

lemma fold_reinsert:
  assumes "sorted (map fst t)" "distinct (map fst (t @ rs))"
    and "\<forall>p \<in> set rs. fst p < b" and "uniq_map ks (map_of (t @ rs))"
  shows "sorted (map fst (fold (reinsert ks b) rs t)) \<and> distinct (map fst (fold (reinsert ks b) rs t))
     \<and> map_of (fold (reinsert ks b) rs t) = map_of (t @ rs)"
  using assms
proof (induction rs arbitrary: t)
  case Nil
  then show ?case by simp
next
  case (Cons p rs)
  have fresh: "fst p \<notin> set (map fst t)" and dt: "distinct (map fst t)"
    using Cons.prems(2) by auto
  then have none: "map_of t (fst p) = None"
    by (simp add: map_of_eq_None_iff)
  have "unique_in ks (fst p) (node_item (snd p)) t"
  proof (subst unique_in_map_of[OF dt], intro allI impI)
    fix j n
    assume j: "map_of t j = Some n" "j \<noteq> fst p"
    have "map_of (t @ p # rs) (fst p) = Some (snd p)"
      using none by (cases p) (simp add: map_add_def)
    moreover have "map_of (t @ p # rs) j = Some n"
      using j by simp
    ultimately show "\<not> conflicts ks (node_item (snd p)) (node_item n)"
      using Cons.prems(4) j(2) unfolding uniq_map_def by metis
  qed
  then have step: "reinsert ks b p t = insort_key fst p t"
    using Cons.prems(3) fresh by (simp add: reinsert_def insert_impl_def)
  have same: "map_of (insort_key fst p t @ rs) = map_of (t @ p # rs)"
    using fresh none by (cases p) (auto simp: map_of_insort_key map_add_def fun_eq_iff split: option.splits)
  have "sorted (map fst (insort_key fst p t))"
    using Cons.prems(1) by (simp add: sorted_insort_key)
  moreover have "distinct (map fst (insort_key fst p t @ rs))"
    using Cons.prems(2) by (auto simp: set_insort_key)
  ultimately show ?case
    using Cons.IH[of "insort_key fst p t"] Cons.prems(3,4) same by (simp add: step)
qed

section \<open>The invariant\<close>

text \<open>
  \<open>wf_index\<close> is about the table and the lists alone; \<open>top_inv\<close> relates them to the session on
  top of the stack; \<open>inv\<close> asks both of the index and of what each \<open>undo\<close> in turn leaves.
\<close>

definition wf_index :: "('v \<Rightarrow> 'k) list \<Rightarrow> 'v undo_index \<Rightarrow> bool" where
  "wf_index ks st \<longleftrightarrow>
     sorted (map fst (indices st)) \<and>
     distinct (map fst (indices st @ removed_values st)) \<and>
     sorted_wrt (\<lambda>a b. b < a) (map old_addr (old_values st)) \<and>
     (\<forall>p \<in> set (indices st @ removed_values st).
        fst p < next_id st \<and> node_mtime (snd p) \<le> monotonic_revision st) \<and>
     uniq_map ks (map_of (indices st))"

definition top_inv :: "('v \<Rightarrow> 'k) list \<Rightarrow> undo_state \<Rightarrow> undo_state list \<Rightarrow> 'v undo_index \<Rightarrow> bool" where
  "top_inv ks info stack st \<longleftrightarrow>
     position_ok old_addr (old_values_end info) (old_values st) \<and>
     position_ok fst (removed_values_end info) (removed_values st) \<and>
     old_next_id info \<le> next_id st \<and> ctime info \<le> monotonic_revision st \<and>
     (\<forall>s \<in> set stack. ctime s \<le> ctime info \<and> old_next_id s \<le> old_next_id info) \<and>
     distinct (map old_current (old_segment info st)) \<and>
     (\<forall>e \<in> set (old_segment info st).
        old_mtime e < ctime info \<and> old_current e < old_next_id info \<and>
        (\<exists>n. live info st (old_current e) = Some n \<and> ctime info \<le> node_mtime n)) \<and>
     (\<forall>i n. live info st i = Some n \<longrightarrow> i < old_next_id info \<longrightarrow> ctime info \<le> node_mtime n \<longrightarrow>
        i \<in> old_current ` set (old_segment info st)) \<and>
     (\<forall>i n. map_of (indices st) i = Some n \<longrightarrow> old_next_id info \<le> i \<longrightarrow> ctime info \<le> node_mtime n) \<and>
     (\<forall>p \<in> set (removed_segment info (removed_values st)). fst p < old_next_id info) \<and>
     uniq_map ks (restored info st)"

lemma top_position:
  assumes "top_inv ks info stack st"
  shows "position_ok old_addr (old_values_end info) (old_values st)"
    and "position_ok fst (removed_values_end info) (removed_values st)"
  using assms by (simp_all add: top_inv_def)

lemma top_bounds:
  assumes "top_inv ks info stack st"
  shows "old_next_id info \<le> next_id st" "ctime info \<le> monotonic_revision st"
  using assms by (simp_all add: top_inv_def)

lemma top_below:
  assumes "top_inv ks info stack st" "s \<in> set stack"
  shows "ctime s \<le> ctime info" "old_next_id s \<le> old_next_id info"
  using assms by (simp_all add: top_inv_def)

lemma top_distinct: "top_inv ks info stack st \<Longrightarrow> distinct (map old_current (old_segment info st))"
  by (simp add: top_inv_def)

lemma top_old:
  assumes "top_inv ks info stack st" "e \<in> set (old_segment info st)"
  shows "old_mtime e < ctime info" "old_current e < old_next_id info"
    and "\<exists>n. live info st (old_current e) = Some n \<and> ctime info \<le> node_mtime n"
  using assms by (simp_all add: top_inv_def)

lemma top_touched:
  assumes "top_inv ks info stack st" "live info st i = Some n" "i < old_next_id info"
    "ctime info \<le> node_mtime n"
  shows "\<exists>e \<in> set (old_segment info st). old_current e = i"
  using assms unfolding top_inv_def by blast

lemma top_created:
  assumes "top_inv ks info stack st" "map_of (indices st) i = Some n" "old_next_id info \<le> i"
  shows "ctime info \<le> node_mtime n"
  using assms unfolding top_inv_def by blast

lemma top_removed:
  assumes "top_inv ks info stack st" "p \<in> set (removed_segment info (removed_values st))"
  shows "fst p < old_next_id info"
  using assms by (simp add: top_inv_def)

lemma top_uniq: "top_inv ks info stack st \<Longrightarrow> uniq_map ks (restored info st)"
  by (simp add: top_inv_def)

lemma length_undo_stack_undo [simp]: "length (undo_stack (undo ks st)) = length (undo_stack st) - 1"
  by (simp add: undo_def Let_def split: list.split prod.split)

function inv_index :: "('v \<Rightarrow> 'k) list \<Rightarrow> 'v undo_index \<Rightarrow> bool" where
  "inv_index ks st \<longleftrightarrow> wf_index ks st \<and>
     (undo_stack st \<noteq> [] \<longrightarrow>
        top_inv ks (hd (undo_stack st)) (tl (undo_stack st)) st \<and> inv_index ks (undo ks st))"
  by pat_completeness auto
termination
  by (relation "measure (\<lambda>(ks, st). length (undo_stack st))") simp_all

declare inv_index.simps [simp del]

lemma inv_Nil: "undo_stack st = [] \<Longrightarrow> inv_index ks st \<longleftrightarrow> wf_index ks st"
  by (subst inv_index.simps) simp

lemma inv_Cons:
  "undo_stack st = info # stack \<Longrightarrow>
     inv_index ks st \<longleftrightarrow> wf_index ks st \<and> top_inv ks info stack st \<and> inv_index ks (undo ks st)"
  by (subst inv_index.simps) simp

lemma map_of_live:
  "map_of (indices st) i = Some n \<Longrightarrow> live info st i = Some n"
  "map_of (indices st) i = None \<Longrightarrow> live info st i = map_of (removed_segment info (removed_values st)) i"
  by (simp_all add: live_def map_add_def)

lemma live_SomeE:
  assumes "live info st i = Some n"
  obtains "map_of (indices st) i = Some n"
    | "map_of (indices st) i = None" "map_of (removed_segment info (removed_values st)) i = Some n"
  using assms by (auto simp: live_def)

lemma wf_disjoint:
  assumes "wf_index ks st" "map_of (indices st) i = Some n" "p \<in> set (removed_values st)"
  shows "fst p \<noteq> i"
proof
  assume "fst p = i"
  then have "i \<in> set (map fst (indices st)) \<inter> set (map fst (removed_values st))"
    using assms(3) map_of_Some_key[OF assms(2)] by auto
  then show False
    using assms(1) by (auto simp: wf_index_def)
qed

lemma distinct_removed_parts:
  assumes "wf_index ks st"
  shows "distinct (map fst (removed_segment info (removed_values st)
           @ from_end fst (removed_values_end info) (removed_values st)))"
proof -
  have "distinct (map fst (removed_values st))"
    using assms by (simp add: wf_index_def)
  then show ?thesis
    by (simp only: removed_segment_def before_from_end)
qed

lemma segment_not_below:
  assumes wf: "wf_index ks st" and top: "top_inv ks info stack st"
    and p: "p \<in> set (from_end fst (removed_values_end info) (removed_values st))"
  shows "fst p \<notin> old_current ` set (old_segment info st)"
proof
  assume "fst p \<in> old_current ` set (old_segment info st)"
  then obtain n where "live info st (fst p) = Some n"
    using top by (force simp: top_inv_def)
  then show False
  proof (cases rule: live_SomeE)
    case 1
    then show ?thesis using wf_disjoint[OF wf 1 set_from_end[OF p]] by simp
  next
    case 2
    from map_of_Some_key[OF 2(2)] show ?thesis
      using p distinct_removed_parts[OF wf, of info] by auto
  qed
qed

text \<open>The table that \<open>undo\<close> builds, in closed form.\<close>

lemma undo_table:
  assumes wf: "wf_index ks st" and stk: "undo_stack st = info # stack" and top: "top_inv ks info stack st"
  shows "sorted (map fst (indices (undo ks st)))" "distinct (map fst (indices (undo ks st)))"
    "map_of (indices (undo ks st)) = restored info st"
    "removed_values (undo ks st) = from_end fst (removed_values_end info) (removed_values st)"
proof -
  let ?seg = "old_segment info st" and ?b = "old_next_id info"
  let ?t = "fix_table ?seg (filter (\<lambda>p. fst p < ?b) (indices st))"
  let ?rs = "fix_table ?seg (removed_segment info (removed_values st))"
  have fold: "fold (restore_old (ctime info)) ?seg (filter (\<lambda>p. fst p < ?b) (indices st), removed_values st)
      = (?t, fix_table ?seg (removed_values st))"
    using top by (intro fold_restore_old) (auto simp: top_inv_def)
  have rs: "removed_segment info (fix_table ?seg (removed_values st)) = ?rs"
    by (simp add: removed_segment_def before_end_map)
  have rest: "from_end fst (removed_values_end info) (fix_table ?seg (removed_values st))
      = from_end fst (removed_values_end info) (removed_values st)"
    using segment_not_below[OF wf top] by (subst before_end_map) (simp_all add: fix_table_absent)
  have map: "map_of (?t @ ?rs) = restored info st"
  proof
    fix i
    have "map_of (removed_segment info (removed_values st)) i = None" if "\<not> i < ?b"
      using that top by (auto simp: top_inv_def map_of_eq_None_iff)
    then show "map_of (?t @ ?rs) i = restored info st i"
      by (simp add: restored_def live_def map_add_def map_of_map_snd map_of_filter_less split: option.split)
  qed
  have "sorted (map fst ?t)"
    using wf by (simp add: wf_index_def comp_def sorted_filter)
  moreover have "distinct (map fst (?t @ ?rs))"
  proof -
    have "distinct (map fst (removed_segment info (removed_values st)))"
      using distinct_removed_parts[OF wf, of info] by simp
    moreover have "set (map fst (removed_segment info (removed_values st))) \<subseteq> set (map fst (removed_values st))"
      by (auto simp: removed_segment_def dest: set_before_end)
    ultimately show ?thesis
      using wf by (auto simp: wf_index_def comp_def distinct_map_filter)
  qed
  moreover have "\<forall>p \<in> set ?rs. fst p < ?b"
    using top by (auto simp: top_inv_def)
  ultimately have "sorted (map fst (fold (reinsert ks ?b) ?rs ?t))
      \<and> distinct (map fst (fold (reinsert ks ?b) ?rs ?t)) \<and> map_of (fold (reinsert ks ?b) ?rs ?t) = map_of (?t @ ?rs)"
    using top by (intro fold_reinsert) (simp_all only: map, simp add: top_inv_def)
  note facts = this[unfolded map]
  show "sorted (map fst (indices (undo ks st)))" "distinct (map fst (indices (undo ks st)))"
    "map_of (indices (undo ks st)) = restored info st"
    "removed_values (undo ks st) = from_end fst (removed_values_end info) (removed_values st)"
    using facts by (simp_all add: undo_def stk fold rs rest Let_def)
qed

lemma undo_fields:
  assumes "undo_stack st = info # stack"
  shows "old_values (undo ks st) = from_end old_addr (old_values_end info) (old_values st)"
    "next_id (undo ks st) = old_next_id info" "undo_stack (undo ks st) = stack"
    "revision (undo ks st) = revision st - 1" "monotonic_revision (undo ks st) = monotonic_revision st"
  using assms by (simp_all add: undo_def Let_def case_prod_beta)

lemma undo_eqI:
  assumes "wf_index ks st" "undo_stack st = info # stack" "top_inv ks info stack st"
    and "wf_index ks st'" "undo_stack st' = info' # stack'" "top_inv ks info' stack' st'"
    and "restored info st = restored info' st'"
    and "from_end old_addr (old_values_end info) (old_values st)
       = from_end old_addr (old_values_end info') (old_values st')"
    and "from_end fst (removed_values_end info) (removed_values st)
       = from_end fst (removed_values_end info') (removed_values st')"
    and "old_next_id info = old_next_id info'" "stack = stack'" "revision st = revision st'"
    and "monotonic_revision st = monotonic_revision st'"
  shows "undo ks st = undo ks st'"
proof -
  note u = undo_table[OF assms(1-3)] and u' = undo_table[OF assms(4-6)]
  have "indices (undo ks st) = indices (undo ks st')"
    using u(1-3) u'(1-3) by (intro sorted_alist_unique) (simp_all add: assms(7))
  then show ?thesis
    by (rule undo_index.equality) (simp_all only: undo_fields[OF assms(2)] undo_fields[OF assms(5)] u(4) u'(4) assms(8-13), simp)
qed

end
