(* ===== verification/Undo_Operations.thy ===== *)
theory Undo_Operations
  imports Undo_Invariant
begin

text \<open>
  Every operation of the undo index keeps the invariant, and what the operation does to the
  state that the next \<open>undo\<close> brings back: creating, modifying and removing objects leave it
  alone, \<open>add_session\<close> makes it the present state, \<open>squash\<close> makes it the one below.
\<close>

section \<open>Operations inside a session\<close>

lemma inv_wf: "inv_index ks st \<Longrightarrow> wf_index ks st"
  by (subst (asm) inv_index.simps) simp

lemma inv_top: "inv_index ks st \<Longrightarrow> undo_stack st = info # stack \<Longrightarrow> top_inv ks info stack st"
  by (simp add: inv_Cons)

lemma inv_undo: "inv_index ks st \<Longrightarrow> inv_index ks (undo ks st)"
  by (cases "undo_stack st") (simp_all add: inv_Cons, simp add: undo_def)

definition same_base :: "('v \<Rightarrow> 'k) list \<Rightarrow> 'v undo_index \<Rightarrow> 'v undo_index \<Rightarrow> bool" where
  "same_base ks st st' \<longleftrightarrow>
     wf_index ks st' \<and> undo_stack st' = undo_stack st \<and> revision st' = revision st \<and>
     monotonic_revision st' = monotonic_revision st \<and>
     (\<forall>info stack. undo_stack st = info # stack \<longrightarrow>
        top_inv ks info stack st' \<and> restored info st' = restored info st \<and>
        from_end old_addr (old_values_end info) (old_values st')
          = from_end old_addr (old_values_end info) (old_values st) \<and>
        from_end fst (removed_values_end info) (removed_values st')
          = from_end fst (removed_values_end info) (removed_values st))"

lemma same_base_undo:
  assumes "inv_index ks st" "same_base ks st st'" "undo_stack st \<noteq> []"
  shows "undo ks st' = undo ks st"
proof -
  obtain info stack where stk: "undo_stack st = info # stack"
    using assms(3) by (cases "undo_stack st") auto
  then show ?thesis
    using assms(1,2) by (intro undo_eqI[of ks st' info stack st info stack])
      (simp_all add: same_base_def inv_Cons)
qed

lemma same_base_inv:
  assumes "inv_index ks st" "same_base ks st st'"
  shows "inv_index ks st'"
proof (cases "undo_stack st")
  case Nil
  then show ?thesis using assms(2) by (simp add: inv_Nil same_base_def)
next
  case (Cons info stack)
  then have "inv_index ks (undo ks st')"
    using same_base_undo[OF assms] inv_undo[OF assms(1)] by simp
  then show ?thesis
    using assms(2) Cons by (subst inv_Cons[of _ info stack]) (simp_all add: same_base_def)
qed

subsection \<open>emplace\<close>

definition append_node :: "'v node \<Rightarrow> 'v undo_index \<Rightarrow> 'v undo_index" where
  "append_node n st = st\<lparr>indices := indices st @ [(next_id st, n)], next_id := Suc (next_id st)\<rparr>"

lemma wf_ids:
  assumes "wf_index ks st" "p \<in> set (indices st @ removed_values st)"
  shows "fst p < next_id st" "node_mtime (snd p) \<le> monotonic_revision st"
  using assms by (simp_all add: wf_index_def)

lemma wf_next_id_notin:
  assumes "wf_index ks st"
  shows "next_id st \<notin> fst ` set (indices st)" "next_id st \<notin> fst ` set (removed_values st)"
  using wf_ids(1)[OF assms] by (metis (no_types, lifting) Un_iff imageE less_irrefl set_append)+

lemma map_of_next_id: "wf_index ks st \<Longrightarrow> map_of (indices st) (next_id st) = None"
  using wf_next_id_notin(1) by (fastforce simp: map_of_eq_None_iff)

lemma map_of_append_node:
  "wf_index ks st \<Longrightarrow> map_of (indices (append_node n st)) = (map_of (indices st))(next_id st \<mapsto> n)"
  by (auto simp: append_node_def map_add_def fun_eq_iff map_of_next_id split: option.splits)

lemma live_append_node:
  "wf_index ks st \<Longrightarrow> live info (append_node n st) = (live info st)(next_id st \<mapsto> n)"
  by (simp add: live_def map_of_append_node del: map_of_append) (simp add: append_node_def)

lemma wf_append_node:
  assumes "wf_index ks st" "unique_in ks (next_id st) (node_item n) (indices st)"
    "node_mtime n \<le> monotonic_revision st"
  shows "wf_index ks (append_node n st)"
proof -
  have "uniq_map ks (map_of (indices (append_node n st)))"
    using assms(1,2) unfolding map_of_append_node[OF assms(1)]
    by (intro uniq_map_update) (auto simp: wf_index_def unique_in_map_of)
  moreover have "sorted (map fst (indices st @ [(next_id st, n)]))"
    using assms(1) wf_ids(1)[OF assms(1)] by (auto simp: sorted_append wf_index_def intro: less_imp_le)
  moreover have "distinct (map fst ((indices st @ [(next_id st, n)]) @ removed_values st))"
    using assms(1) wf_next_id_notin[OF assms(1)] by (auto simp: wf_index_def)
  ultimately show ?thesis
    using assms(1,3) by (auto simp: wf_index_def append_node_def intro: less_SucI)
qed

lemma top_append_node:
  assumes wf: "wf_index ks st" and top: "top_inv ks info stack st" and "ctime info \<le> node_mtime n"
  shows "top_inv ks info stack (append_node n st) \<and> restored info (append_node n st) = restored info st"
proof -
  have le: "old_next_id info \<le> next_id st"
    using top by (simp add: top_inv_def)
  have seg: "old_segment info (append_node n st) = old_segment info st"
    "removed_values (append_node n st) = removed_values st"
    "old_values (append_node n st) = old_values st" "next_id (append_node n st) = Suc (next_id st)"
    "monotonic_revision (append_node n st) = monotonic_revision st"
    by (simp_all add: append_node_def old_segment_def)
  have r: "restored info (append_node n st) = restored info st"
    using le by (auto simp: restored_def live_append_node[OF wf] seg fun_eq_iff)
  have "top_inv ks info stack (append_node n st)"
    using top le assms(3) unfolding top_inv_def seg r live_append_node[OF wf] map_of_append_node[OF wf]
    by (auto split: if_splits)
  with r show ?thesis by simp
qed

lemma emplace_same_base:
  assumes "inv_index ks st" "emplace ks c st = Inr st'"
  shows "same_base ks st st'"
proof -
  let ?n = "\<lparr>node_item = c (next_id st), node_mtime = on_create st\<rparr>"
  have st': "st' = append_node ?n st" and u: "unique_in ks (next_id st) (node_item ?n) (indices st)"
    using assms(2) by (auto simp: emplace_def append_node_def Let_def split: if_splits)
  have "wf_index ks st'"
    using wf_append_node[OF inv_wf[OF assms(1)] u] by (simp add: st' on_create_def)
  moreover have "top_inv ks info stack st' \<and> restored info st' = restored info st"
    if "undo_stack st = info # stack" for info stack
    using that top_append_node[OF inv_wf inv_top, OF assms(1) assms(1), of info stack ?n]
      inv_top[OF assms(1) that] by (simp add: st' on_create_def top_inv_def)
  ultimately show ?thesis
    by (simp add: same_base_def st' append_node_def)
qed

subsection \<open>remove\<close>

definition take_out :: "nat \<Rightarrow> 'v node \<Rightarrow> 'v undo_index \<Rightarrow> 'v undo_index" where
  "take_out i n st = on_remove i n (st\<lparr>indices := erase_node i (indices st)\<rparr>)"

lemma take_out_fields [simp]:
  "indices (take_out i n st) = erase_node i (indices st)" "old_values (take_out i n st) = old_values st"
  "undo_stack (take_out i n st) = undo_stack st" "next_id (take_out i n st) = next_id st"
  "revision (take_out i n st) = revision st" "monotonic_revision (take_out i n st) = monotonic_revision st"
  "old_segment info (take_out i n st) = old_segment info st"
  by (simp_all add: take_out_def on_remove_def old_segment_def split: list.split)

lemma take_out_removed:
  "undo_stack st = info # stack \<Longrightarrow> removed_values (take_out i n st)
     = (if old_next_id info \<le> i then removed_values st else (i, n) # removed_values st)"
  "undo_stack st = [] \<Longrightarrow> removed_values (take_out i n st) = removed_values st"
  by (simp_all add: take_out_def on_remove_def)

lemma set_erase_node: "p \<in> set (erase_node i t) \<longleftrightarrow> p \<in> set t \<and> fst p \<noteq> i"
  by (simp add: erase_node_def)

lemma map_fst_erase_node: "map fst (erase_node i t) = filter (\<lambda>j. j \<noteq> i) (map fst t)"
  by (simp add: erase_node_def filter_map comp_def)

lemma wf_take_out:
  assumes wf: "wf_index ks st" and n: "map_of (indices st) i = Some n" and "node_mtime n' = node_mtime n"
  shows "wf_index ks (take_out i n' st)"
proof -
  have i: "(i, n) \<in> set (indices st)"
    using n by (rule map_of_SomeD)
  then have bounds: "i < next_id st" "node_mtime n' \<le> monotonic_revision st"
    using wf_ids[OF wf, of "(i, n)"] assms(3) by simp_all
  have "i \<notin> fst ` set (removed_values st)"
    using wf_disjoint[OF wf n] by auto
  moreover have "uniq_map ks (map_of (erase_node i (indices st)))"
    using wf by (auto simp: wf_index_def map_of_erase_node map_le_def elim!: uniq_map_subset)
  ultimately show ?thesis
    using wf bounds by (cases "undo_stack st")
      (auto simp: wf_index_def take_out_removed map_fst_erase_node set_erase_node sorted_filter[where f=id, simplified])
qed

lemma live_take_out:
  assumes wf: "wf_index ks st" and stk: "undo_stack st = info # stack" and top: "top_inv ks info stack st"
    and n: "map_of (indices st) i = Some n"
  shows "live info (take_out i n' st) = (live info st)(i := if i < old_next_id info then Some n' else None)"
    and "removed_segment info (removed_values (take_out i n' st))
       = (if old_next_id info \<le> i then [] else [(i, n')]) @ removed_segment info (removed_values st)"
    and "from_end fst (removed_values_end info) (removed_values (take_out i n' st))
       = from_end fst (removed_values_end info) (removed_values st)"
proof -
  have fresh: "i \<notin> fst ` set (removed_values st)"
    using wf_disjoint[OF wf n] by auto
  have pos: "removed_values_end info \<noteq> Some i"
    using top fresh by (auto simp: top_inv_def position_ok_def)
  then show seg: "removed_segment info (removed_values (take_out i n' st))
       = (if old_next_id info \<le> i then [] else [(i, n')]) @ removed_segment info (removed_values st)"
    and "from_end fst (removed_values_end info) (removed_values (take_out i n' st))
       = from_end fst (removed_values_end info) (removed_values st)"
    by (auto simp: take_out_removed(1)[OF stk] removed_segment_def before_end_Cons)
  have "i \<notin> fst ` set (removed_segment info (removed_values st))"
    using fresh by (auto simp: removed_segment_def dest: set_before_end)
  then have "map_of (removed_segment info (removed_values st)) i = None"
    by (simp add: map_of_eq_None_iff)
  then show "live info (take_out i n' st) = (live info st)(i := if i < old_next_id info then Some n' else None)"
    unfolding live_def seg by (auto simp: map_of_erase_node map_add_def fun_eq_iff split: option.split)
qed

lemma top_take_out:
  assumes wf: "wf_index ks st" and stk: "undo_stack st = info # stack" and top: "top_inv ks info stack st"
    and n: "map_of (indices st) i = Some n" and m: "node_mtime n' = node_mtime n"
    and same: "n' = n \<or> ctime info \<le> node_mtime n"
  shows "top_inv ks info stack (take_out i n' st) \<and> restored info (take_out i n' st) = restored info st"
proof -
  have l: "live info st i = Some n"
    using n by (rule map_of_live)
  have "fix_node (old_segment info st) i n' = fix_node (old_segment info st) i n" if below: "i < old_next_id info"
  proof (cases "n' = n")
    case False
    then obtain e where "e \<in> set (old_segment info st)" "old_current e = i"
      using top_touched[OF top l below] same by auto
    then show ?thesis
      using fix_node_present[OF top_distinct[OF top]] by auto
  qed simp
  then have r: "restored info (take_out i n' st) = restored info st"
    using l by (auto simp: restored_def live_take_out[OF wf stk top n] fun_eq_iff)
  have pos: "position_ok fst (removed_values_end info) (removed_values (take_out i n' st))"
    using top by (auto simp: top_inv_def position_ok_def take_out_removed(1)[OF stk] split: option.splits)
  have "top_inv ks info stack (take_out i n' st)"
    using top l m pos unfolding top_inv_def r live_take_out[OF wf stk top n]
    by (auto simp: map_of_erase_node split: if_splits)
  with r show ?thesis by simp
qed

lemma take_out_same_base:
  assumes "inv_index ks st" "map_of (indices st) i = Some n" "node_mtime n' = node_mtime n"
    and "\<And>info stack. undo_stack st = info # stack \<Longrightarrow> n' = n \<or> ctime info \<le> node_mtime n"
  shows "same_base ks st (take_out i n' st)"
  using wf_take_out[OF inv_wf[OF assms(1)] assms(2,3)]
    top_take_out[OF inv_wf[OF assms(1)] _ inv_top[OF assms(1)] assms(2,3) assms(4)]
    live_take_out(3)[OF inv_wf[OF assms(1)] _ inv_top[OF assms(1)] assms(2)]
  by (simp add: same_base_def)

lemma remove_same_base:
  assumes "inv_index ks st"
  shows "same_base ks st (remove i st)"
proof (cases "map_of (indices st) i")
  case None
  then show ?thesis
    using assms by (simp add: same_base_def remove_def inv_wf inv_top)
next
  case (Some n)
  then show ?thesis
    using take_out_same_base[OF assms Some, of n] by (simp add: remove_def take_out_def)
qed

subsection \<open>modify\<close>

definition overwrite :: "nat \<Rightarrow> 'v node \<Rightarrow> 'v old_node list \<Rightarrow> 'v undo_index \<Rightarrow> 'v undo_index" where
  "overwrite i n ps st = st\<lparr>indices := set_node i n (indices st), old_values := ps @ old_values st\<rparr>"

lemma overwrite_fields [simp]:
  "indices (overwrite i n ps st) = set_node i n (indices st)" "old_values (overwrite i n ps st) = ps @ old_values st"
  "removed_values (overwrite i n ps st) = removed_values st"
  "undo_stack (overwrite i n ps st) = undo_stack st" "next_id (overwrite i n ps st) = next_id st"
  "revision (overwrite i n ps st) = revision st" "monotonic_revision (overwrite i n ps st) = monotonic_revision st"
  by (simp_all add: overwrite_def)

lemma set_set_node: "p \<in> set (set_node i n t) \<Longrightarrow> p = (i, n) \<or> p \<in> set t"
  by (auto simp: set_node_def)

lemma set_node_set_node [simp]: "set_node i n (set_node i n' t) = set_node i n t"
  by (induction t) (auto simp: set_node_def)

lemma erase_set_node [simp]: "erase_node i (set_node i n t) = erase_node i t"
  by (induction t) (auto simp: set_node_def erase_node_def)

lemma live_overwrite:
  "map_of (indices st) i = Some n \<Longrightarrow> live info (overwrite i n' ps st) = (live info st)(i \<mapsto> n')"
  by (auto simp: live_def map_of_set_node map_add_def fun_eq_iff)

definition backup_of :: "nat \<Rightarrow> 'v node \<Rightarrow> 'v undo_index \<Rightarrow> 'v old_node" where
  "backup_of i n st = \<lparr>old_addr = fresh_addr (old_values st), old_item = node_item n,
     old_mtime = node_mtime n, old_current = i\<rparr>"

lemma backup_of_fields [simp]:
  "old_current (backup_of i n st) = i" "old_as_node (backup_of i n st) = n"
  "old_mtime (backup_of i n st) = node_mtime n" "old_addr (backup_of i n st) = fresh_addr (old_values st)"
  by (simp_all add: backup_of_def old_as_node_def)

lemma fresh_addr_above:
  "wf_index ks st \<Longrightarrow> e \<in> set (old_values st) \<Longrightarrow> old_addr e < fresh_addr (old_values st)"
  by (cases "old_values st") (auto simp: wf_index_def fresh_addr_def intro: less_SucI)

lemma wf_overwrite:
  assumes wf: "wf_index ks st" and n: "map_of (indices st) i = Some n"
    and u: "unique_in ks i (node_item n') (set_node i n' (indices st))"
    and m: "node_mtime n' \<le> monotonic_revision st" and ps: "ps = [] \<or> ps = [backup_of i n st]"
  shows "wf_index ks (overwrite i n' ps st)"
proof -
  have "(i, n) \<in> set (indices st)"
    using n by (rule map_of_SomeD)
  then have "i < next_id st"
    using wf_ids(1)[OF wf, of "(i, n)"] by simp
  moreover have map: "map_of (set_node i n' (indices st)) = (map_of (indices st))(i \<mapsto> n')"
    using n by (simp add: map_of_set_node fun_eq_iff)
  have "distinct (map fst (set_node i n' (indices st)))"
    using wf by (simp add: wf_index_def)
  then have "\<not> conflicts ks (node_item n') (node_item w)" if "map_of (indices st) j = Some w" "j \<noteq> i" for j w
    using that u unfolding unique_in_map_of[OF \<open>distinct _\<close>] map by (metis fun_upd_other)
  then have "uniq_map ks (map_of (set_node i n' (indices st)))"
    using wf unfolding map by (intro uniq_map_update) (simp_all add: wf_index_def)
  moreover have "fst ` set (set_node i n' (indices st)) = fst ` set (indices st)"
    by (metis list.set_map map_fst_set_node)
  ultimately show ?thesis
    using wf m ps fresh_addr_above[OF wf] by (auto simp: wf_index_def dest!: set_set_node)
qed

text \<open>A value written over one that the session already backed up, or over a new one.\<close>

lemma top_overwrite_again:
  assumes top: "top_inv ks info stack st" and n: "map_of (indices st) i = Some n"
    and m: "ctime info \<le> node_mtime n" "node_mtime n' = node_mtime n"
  shows "top_inv ks info stack (overwrite i n' [] st) \<and> restored info (overwrite i n' [] st) = restored info st"
proof -
  have l: "live info st i = Some n"
    using n by (rule map_of_live)
  have seg: "old_segment info (overwrite i n' [] st) = old_segment info st"
    by (simp add: old_segment_def)
  have "fix_node (old_segment info st) i n' = fix_node (old_segment info st) i n" if "i < old_next_id info"
    using top_touched[OF top l that m(1)] fix_node_present[OF top_distinct[OF top]] by auto
  then have r: "restored info (overwrite i n' [] st) = restored info st"
    using l by (auto simp: restored_def live_overwrite[OF n] seg fun_eq_iff)
  have "top_inv ks info stack (overwrite i n' [] st)"
    using top l m n unfolding top_inv_def r live_overwrite[OF n] seg
    by (auto simp: map_of_set_node split: if_splits)
  with r show ?thesis by simp
qed

lemma top_overwrite_first:
  assumes wf: "wf_index ks st" and top: "top_inv ks info stack st" and n: "map_of (indices st) i = Some n"
    and m: "node_mtime n < ctime info" "node_mtime n' = monotonic_revision st"
  shows "top_inv ks info stack (overwrite i n' [backup_of i n st] st)
     \<and> restored info (overwrite i n' [backup_of i n st] st) = restored info st
     \<and> from_end old_addr (old_values_end info) (backup_of i n st # old_values st)
         = from_end old_addr (old_values_end info) (old_values st)"
proof -
  let ?st = "overwrite i n' [backup_of i n st] st"
  have l: "live info st i = Some n"
    using n by (rule map_of_live)
  have i: "i < old_next_id info"
    using top_created[OF top n] m(1) by (meson leD not_le)
  have absent: "i \<notin> old_current ` set (old_segment info st)"
    using top_old(3)[OF top] l m(1) by fastforce
  have "old_values_end info \<noteq> Some (old_addr (backup_of i n st))"
    using top_position(1)[OF top] fresh_addr_above[OF wf] by (fastforce simp: position_ok_def)
  note cut = before_end_Cons[where f = old_addr, OF this]
  then have seg: "old_segment info ?st = backup_of i n st # old_segment info st"
    by (simp add: old_segment_def)
  have r: "restored info ?st = restored info st"
    using l i absent by (auto simp: restored_def live_overwrite[OF n] seg fun_eq_iff fix_node_Cons fix_node_absent
        intro!: option.map_cong0)
  have "position_ok old_addr (old_values_end info) (old_values ?st)"
    using top_position(1)[OF top] by (auto simp: position_ok_def split: option.splits)
  then have "top_inv ks info stack ?st"
    using top l m n i absent unfolding top_inv_def r live_overwrite[OF n] seg
    by (auto simp: map_of_set_node split: if_splits)
  with r cut show ?thesis by simp
qed

lemma modify_cases:
  assumes "map_of (indices st) i = Some n"
  obtains (plain) "undo_stack st = [] \<or> ctime (hd (undo_stack st)) \<le> node_mtime n"
      "modify ks i m st =
         (let n' = n\<lparr>node_item := m (node_item n)\<rparr> in
          if unique_in ks i (node_item n') (set_node i n' (indices st)) then (overwrite i n' [] st, Inr ())
          else (take_out i n' st, Inl Logic_error))"
    | (backed) "undo_stack st \<noteq> []" "node_mtime n < ctime (hd (undo_stack st))"
      "modify ks i m st =
         (let n' = n\<lparr>node_mtime := monotonic_revision st, node_item := m (node_item n)\<rparr> in
          if unique_in ks i (node_item n') (set_node i n' (indices st))
          then (overwrite i n' [backup_of i n st] st, Inr ())
          else (overwrite i (n\<lparr>node_mtime := monotonic_revision st\<rparr>) [] st, Inl Logic_error))"
proof (cases "undo_stack st = [] \<or> ctime (hd (undo_stack st)) \<le> node_mtime n")
  case True
  have "on_modify i n st = (None, st)"
    using True by (auto simp: on_modify_def split: list.split)
  moreover have "remove i (overwrite i n' [] st) = take_out i n' st" for n'
    using assms by (simp add: remove_def map_of_set_node)
      (simp add: overwrite_def take_out_def)
  ultimately show ?thesis
    using True assms by (intro plain) (simp_all add: modify_def Let_def overwrite_def)
next
  case False
  then have "on_modify i n st = (Some (backup_of i n st),
      overwrite i (n\<lparr>node_mtime := monotonic_revision st\<rparr>) [backup_of i n st] st)"
    by (auto simp: on_modify_def backup_of_def overwrite_def Let_def split: list.split)
  then show ?thesis
    using False assms by (intro backed) (simp_all add: modify_def Let_def overwrite_def backup_of_def)
qed

lemma modify_same_base:
  assumes inv: "inv_index ks st" and ok: "modify ks i m st = (st', Inr ())"
  shows "same_base ks st st'"
proof -
  obtain n where n: "map_of (indices st) i = Some n"
    using ok by (cases "map_of (indices st) i") (auto simp: modify_def)
  then show ?thesis
  proof (cases rule: modify_cases[where ks = ks and m = m])
    case plain
    let ?n = "n\<lparr>node_item := m (node_item n)\<rparr>"
    have st': "st' = overwrite i ?n [] st" "unique_in ks i (node_item ?n) (set_node i ?n (indices st))"
      using ok plain(2) by (auto simp: Let_def split: if_splits)
    have "node_mtime n \<le> monotonic_revision st"
      using wf_ids(2)[OF inv_wf[OF inv], of "(i, n)"] map_of_SomeD[OF n] by simp
    then have "wf_index ks st'"
      using wf_overwrite[OF inv_wf[OF inv] n st'(2), of "[]"] by (simp add: st')
    moreover have "top_inv ks info stack st' \<and> restored info st' = restored info st"
      if "undo_stack st = info # stack" for info stack
      using top_overwrite_again[OF inv_top[OF inv that] n, of ?n] plain(1) that by (simp add: st')
    ultimately show ?thesis
      by (simp add: same_base_def st')
  next
    case backed
    let ?n = "n\<lparr>node_mtime := monotonic_revision st, node_item := m (node_item n)\<rparr>"
    have st': "st' = overwrite i ?n [backup_of i n st] st" "unique_in ks i (node_item ?n) (set_node i ?n (indices st))"
      using ok backed(3) by (auto simp: Let_def split: if_splits)
    have "wf_index ks st'"
      using wf_overwrite[OF inv_wf[OF inv] n st'(2), of "[backup_of i n st]"] by (simp add: st')
    moreover have "top_inv ks info stack st' \<and> restored info st' = restored info st
        \<and> from_end old_addr (old_values_end info) (old_values st') = from_end old_addr (old_values_end info) (old_values st)"
      if "undo_stack st = info # stack" for info stack
      using top_overwrite_first[OF inv_wf[OF inv] inv_top[OF inv that] n, of ?n] backed(2) that by (simp add: st')
    ultimately show ?thesis
      by (simp add: same_base_def st')
  qed
qed

text \<open>A failed \<open>modify\<close> without a backup takes the object out of the table.\<close>

lemma modify_failed_plain:
  assumes inv: "inv_index ks st" and n: "map_of (indices st) i = Some n"
    and nb: "undo_stack st = [] \<or> ctime (hd (undo_stack st)) \<le> node_mtime n"
    and fail: "modify ks i m st = (st', Inl e)"
  shows "e = Logic_error" "indices st' = erase_node i (indices st)"
    and "undo_stack st \<noteq> [] \<Longrightarrow> same_base ks st st'"
proof -
  let ?n = "n\<lparr>node_item := m (node_item n)\<rparr>"
  have *: "e = Logic_error \<and> st' = take_out i ?n st"
    by (rule modify_cases[OF n, of ks m]) (use fail nb in \<open>auto simp: Let_def split: if_splits\<close>)
  then show "e = Logic_error" "indices st' = erase_node i (indices st)"
    by simp_all
  assume "undo_stack st \<noteq> []"
  then show "same_base ks st st'"
    using * nb by (auto intro!: take_out_same_base[OF inv n])
qed

section \<open>Sessions\<close>

subsection \<open>add\_session\<close>

lemma wf_monotonic:
  "wf_index ks st \<Longrightarrow> monotonic_revision st \<le> k \<Longrightarrow> wf_index ks (st\<lparr>monotonic_revision := k\<rparr>)"
  by (auto simp: wf_index_def intro: order_trans)

lemma top_monotonic:
  assumes "top_inv ks info stack st" "monotonic_revision st \<le> k"
  shows "top_inv ks info stack (st\<lparr>monotonic_revision := k\<rparr>)"
proof -
  have "ctime info \<le> k"
    using top_bounds(2)[OF assms(1)] assms(2) by simp
  moreover have "live info (st\<lparr>monotonic_revision := k\<rparr>) = live info st"
    "old_segment info (st\<lparr>monotonic_revision := k\<rparr>) = old_segment info st"
    "restored info (st\<lparr>monotonic_revision := k\<rparr>) = restored info st"
    by (simp_all add: restored_def live_def old_segment_def fun_eq_iff)
  ultimately show ?thesis
    using assms(1) by (simp add: top_inv_def)
qed

lemma undo_monotonic: "undo ks (st\<lparr>monotonic_revision := k\<rparr>) = (undo ks st)\<lparr>monotonic_revision := k\<rparr>"
  by (simp add: undo_def old_segment_def Let_def split: list.split prod.split)

lemma monotonic_revision_undo [simp]: "monotonic_revision (undo ks st) = monotonic_revision st"
  by (simp add: undo_def Let_def split: list.split prod.split)

lemma inv_monotonic:
  "inv_index ks st \<Longrightarrow> monotonic_revision st \<le> k \<Longrightarrow> inv_index ks (st\<lparr>monotonic_revision := k\<rparr>)"
proof (induction ks st rule: inv_index.induct)
  case (1 ks st)
  show ?case
  proof (cases "undo_stack st")
    case Nil
    then show ?thesis using 1 by (simp add: inv_Nil wf_monotonic)
  next
    case (Cons info stack)
    then have "inv_index ks ((undo ks st)\<lparr>monotonic_revision := k\<rparr>)"
      using 1 by (simp add: inv_Cons)
    then show ?thesis
      using Cons 1(2,3) by (simp add: inv_Cons[of _ info stack] wf_monotonic top_monotonic undo_monotonic)
  qed
qed

end
