(* ===== verification/Undo_Sessions.thy ===== *)
theory Undo_Sessions
  imports Undo_Operations
begin

text \<open>
  Opening, merging and committing sessions: \<open>undo\<close> takes back an \<open>add_session\<close>, after \<open>squash\<close> it
  takes back both of the merged sessions, and \<open>commit\<close> keeps what it needs for the sessions
  that stay.
\<close>

section \<open>add\_session\<close>

lemma add_session_fields [simp]:
  "indices (add_session st) = indices st" "old_values (add_session st) = old_values st"
  "removed_values (add_session st) = removed_values st" "next_id (add_session st) = next_id st"
  "revision (add_session st) = revision st + 1" "monotonic_revision (add_session st) = Suc (monotonic_revision st)"
  by (simp_all add: add_session_def)

definition new_session :: "'v undo_index \<Rightarrow> undo_state" where
  "new_session st = hd (undo_stack (add_session st))"

lemma undo_stack_add_session: "undo_stack (add_session st) = new_session st # undo_stack st"
  by (simp add: new_session_def add_session_def)

lemma new_session_fields [simp]:
  "old_next_id (new_session st) = next_id st" "ctime (new_session st) = Suc (monotonic_revision st)"
  by (simp_all add: new_session_def add_session_def)

lemma new_session_cuts [simp]:
  "old_segment (new_session st) (add_session st) = []"
  "removed_segment (new_session st) (removed_values st) = []"
  "from_end old_addr (old_values_end (new_session st)) (old_values st) = old_values st"
  "from_end fst (removed_values_end (new_session st)) (removed_values st) = removed_values st"
  "position_ok old_addr (old_values_end (new_session st)) (old_values st)"
  "position_ok fst (removed_values_end (new_session st)) (removed_values st)"
  by (simp_all add: new_session_def add_session_def old_segment_def removed_segment_def
      before_end_hd from_end_hd position_ok_hd)

lemma live_new_session [simp]: "live (new_session st) (add_session st) = map_of (indices st)"
  by (simp add: live_def)

lemma restored_new_session: "wf_index ks st \<Longrightarrow> restored (new_session st) (add_session st) = map_of (indices st)"
proof
  fix i
  assume wf: "wf_index ks st"
  have "i < next_id st" if "map_of (indices st) i = Some n" for n
    using wf_ids(1)[OF wf, of "(i, n)"] map_of_SomeD[OF that] by simp
  then show "restored (new_session st) (add_session st) i = map_of (indices st) i"
    by (cases "map_of (indices st) i") (auto simp: restored_def)
qed

lemma stack_bounds:
  assumes "inv_index ks st" "s \<in> set (undo_stack st)"
  shows "ctime s \<le> monotonic_revision st \<and> old_next_id s \<le> next_id st"
proof (cases "undo_stack st")
  case (Cons info stack)
  then have top: "top_inv ks info stack st"
    using assms(1) by (simp add: inv_Cons)
  then show ?thesis
    using assms(2) Cons top_bounds[OF top] top_below[OF top, of s] by auto
qed (use assms in simp)

lemma top_add_session:
  assumes inv: "inv_index ks st"
  shows "top_inv ks (new_session st) (undo_stack st) (add_session st)"
proof -
  note wf = inv_wf[OF inv]
  have "node_mtime n \<le> monotonic_revision st \<and> i < next_id st" if "map_of (indices st) i = Some n" for i n
    using wf_ids[OF wf, of "(i, n)"] map_of_SomeD[OF that] by simp
  moreover have "uniq_map ks (map_of (indices st))"
    using wf by (simp add: wf_index_def)
  ultimately show ?thesis
    using stack_bounds[OF inv] unfolding top_inv_def restored_new_session[OF wf]
    by (fastforce simp: le_Suc_eq)
qed

lemma undo_add_session:
  assumes inv: "inv_index ks st"
  shows "undo ks (add_session st) = st\<lparr>monotonic_revision := Suc (monotonic_revision st)\<rparr>"
proof -
  note wf = inv_wf[OF inv]
  have wf': "wf_index ks (add_session st)"
    using wf_monotonic[OF wf, of "Suc (monotonic_revision st)"] by (simp add: wf_index_def)
  note u = undo_table[OF wf' undo_stack_add_session top_add_session[OF inv]]
  have "indices (undo ks (add_session st)) = indices st"
    using u(1-3) wf restored_new_session[OF wf] by (intro sorted_alist_unique) (simp_all add: wf_index_def)
  then show ?thesis
    using u(4) by (intro undo_index.equality) (simp_all add: undo_fields[OF undo_stack_add_session])
qed

lemma inv_add_session:
  assumes inv: "inv_index ks st"
  shows "inv_index ks (add_session st)"
proof -
  have "wf_index ks (add_session st)"
    using wf_monotonic[OF inv_wf[OF inv], of "Suc (monotonic_revision st)"] by (simp add: wf_index_def)
  then show ?thesis
    using top_add_session[OF inv] inv_monotonic[OF inv]
    by (simp add: inv_Cons[OF undo_stack_add_session] undo_add_session[OF inv])
qed

section \<open>squash\<close>

lemma compress_old_closed:
  assumes "distinct (map old_current seg)"
  shows "compress_old c seg r =
     (filter (\<lambda>e. old_mtime e < c \<and> old_current e \<notin> fst ` set r) seg,
      fix_table (filter (\<lambda>e. old_mtime e < c) seg) r)"
  using assms
proof (induction c seg r rule: compress_old.induct)
  case (2 c v vs r)
  let ?n = "\<lparr>node_item = old_item v, node_mtime = old_mtime v\<rparr>"
  have same: "fst ` set (set_node i n r) = fst ` set r" for i n
    by (metis list.set_map map_fst_set_node)
  have absent: "old_current v \<notin> old_current ` set (filter (\<lambda>e. old_mtime e < c) vs)"
    using "2.prems" by auto
  consider "c \<le> old_mtime v" | "old_mtime v < c" "old_current v \<in> fst ` set r"
    | "old_mtime v < c" "old_current v \<notin> fst ` set r"
    by (meson not_le)
  then show ?case
  proof cases
    case 1
    then show ?thesis using 2 by simp
  next
    case 2
    then show ?thesis
      using "2.IH"(2) "2.prems" fix_table_set_node[OF absent, of r] same
      by (simp add: old_as_node_def not_le)
  next
    case 3
    then have "fix_table (v # filter (\<lambda>e. old_mtime e < c) vs) r
        = fix_table (filter (\<lambda>e. old_mtime e < c) vs) r"
      by (auto simp: fix_node_Cons image_iff)
    with 3 show ?thesis using "2.IH"(3) "2.prems" by (simp add: not_le)
  qed
qed simp

end
