(* ===== verification/Undo_Squash.thy ===== *)
theory Undo_Squash
  imports Undo_Sessions
begin

text \<open>Merging the two top sessions: \<open>undo (squash st) = undo (undo st)\<close>.\<close>

definition kept :: "undo_state \<Rightarrow> undo_state \<Rightarrow> 'v undo_index \<Rightarrow> 'v old_node list" where
  "kept s1 s2 st =
     filter (\<lambda>e. old_mtime e < ctime s2 \<and> old_current e \<notin> fst ` set (removed_values st)) (old_segment s1 st)"

definition below :: "undo_state \<Rightarrow> undo_state \<Rightarrow> 'v undo_index \<Rightarrow> 'v old_node list" where
  "below s1 s2 st = filter (\<lambda>e. old_mtime e < ctime s2) (old_segment s1 st)"

definition merged :: "undo_state \<Rightarrow> undo_state \<Rightarrow> 'v undo_index \<Rightarrow> 'v table" where
  "merged s1 s2 st = filter (\<lambda>p. fst p < old_next_id s2)
     (fix_table (below s1 s2 st) (removed_segment s1 (removed_values st)))"

definition two_sessions ::
  "('v \<Rightarrow> 'k) list \<Rightarrow> 'v undo_index \<Rightarrow> undo_state \<Rightarrow> undo_state \<Rightarrow> undo_state list \<Rightarrow> bool" where
  "two_sessions ks st s1 s2 rest \<longleftrightarrow> inv_index ks st \<and> undo_stack st = s1 # s2 # rest"

lemma two_sessionsD:
  assumes "two_sessions ks st s1 s2 rest"
  shows "inv_index ks st" "undo_stack st = s1 # s2 # rest" "wf_index ks st" "top_inv ks s1 (s2 # rest) st"
    "inv_index ks (undo ks st)" "undo_stack (undo ks st) = s2 # rest" "wf_index ks (undo ks st)"
    "top_inv ks s2 rest (undo ks st)"
    "map_of (indices (undo ks st)) = restored s1 st"
    "removed_values (undo ks st) = from_end fst (removed_values_end s1) (removed_values st)"
    "old_values (undo ks st) = from_end old_addr (old_values_end s1) (old_values st)"
    "ctime s2 \<le> ctime s1" "old_next_id s2 \<le> old_next_id s1"
proof -
  show inv: "inv_index ks st" and stk: "undo_stack st = s1 # s2 # rest"
    using assms by (simp_all add: two_sessions_def)
  show wf: "wf_index ks st" and top: "top_inv ks s1 (s2 # rest) st" and inv1: "inv_index ks (undo ks st)"
    using inv stk by (simp_all add: inv_Cons)
  show stk1: "undo_stack (undo ks st) = s2 # rest"
    "old_values (undo ks st) = from_end old_addr (old_values_end s1) (old_values st)"
    by (simp_all add: undo_fields[OF stk])
  show "wf_index ks (undo ks st)" "top_inv ks s2 rest (undo ks st)"
    using inv1 stk1 by (simp_all add: inv_Cons)
  show "map_of (indices (undo ks st)) = restored s1 st"
    "removed_values (undo ks st) = from_end fst (removed_values_end s1) (removed_values st)"
    by (rule undo_table[OF wf stk top])+
  show "ctime s2 \<le> ctime s1" "old_next_id s2 \<le> old_next_id s1"
    using top_below[OF top] by simp_all
qed

lemma squash_two:
  assumes two: "two_sessions ks st s1 s2 rest"
  shows "squash st = st\<lparr>old_values := kept s1 s2 st @ old_values (undo ks st),
     removed_values := merged s1 s2 st @ removed_values (undo ks st),
     undo_stack := s2 # rest, revision := revision st - 1\<rparr>"
proof -
  note D = two_sessionsD[OF two]
  let ?r = "fix_table (below s1 s2 st) (removed_values st)"
  have "fst p \<notin> old_current ` set (below s1 s2 st)"
    if "p \<in> set (from_end fst (removed_values_end s1) (removed_values st))" for p
    using segment_not_below[OF D(3,4) that] by (auto simp: below_def)
  then have rest: "from_end fst (removed_values_end s1) ?r = from_end fst (removed_values_end s1) (removed_values st)"
    by (subst before_end_map) (simp_all add: fix_table_absent)
  have seg: "removed_segment s1 ?r = fix_table (below s1 s2 st) (removed_segment s1 (removed_values st))"
    by (simp add: removed_segment_def before_end_map)
  have "compress_old (ctime s2) (old_segment s1 st) (removed_values st) = (kept s1 s2 st, ?r)"
    by (simp add: compress_old_closed[OF top_distinct[OF D(4)]] kept_def below_def)
  then show ?thesis
    using D(2,10,11) seg rest
    by (simp add: squash_def squash_and_compress_def compress_impl_def squash_fast_def merged_def Let_def)
qed

lemma old_addr_parts:
  assumes "wf_index ks st" "e \<in> set (old_segment info st)"
    "e' \<in> set (from_end old_addr (old_values_end info) (old_values st))"
  shows "old_addr e \<noteq> old_addr e'"
proof -
  have "sorted_wrt (\<lambda>a b. b < a) (map old_addr (old_segment info st
          @ from_end old_addr (old_values_end info) (old_values st)))"
    using assms(1) by (simp only: old_segment_def before_from_end) (simp add: wf_index_def)
  then show ?thesis
    using assms(2,3) by (fastforce simp: sorted_wrt_append)
qed

lemma set_kept: "e \<in> set (kept s1 s2 st) \<Longrightarrow> e \<in> set (old_segment s1 st)"
  by (simp add: kept_def)

lemma set_merged: "p \<in> set (merged s1 s2 st) \<Longrightarrow> fst p \<in> fst ` set (removed_segment s1 (removed_values st))"
  by (force simp: merged_def)

lemma squash_segments:
  assumes two: "two_sessions ks st s1 s2 rest"
  shows "old_segment s2 (squash st) = kept s1 s2 st @ old_segment s2 (undo ks st)"
    and "removed_segment s2 (removed_values (squash st)) = merged s1 s2 st @ removed_segment s2 (removed_values (undo ks st))"
    and "from_end old_addr (old_values_end s2) (old_values (squash st))
       = from_end old_addr (old_values_end s2) (old_values (undo ks st))"
    and "from_end fst (removed_values_end s2) (removed_values (squash st))
       = from_end fst (removed_values_end s2) (removed_values (undo ks st))"
proof -
  note D = two_sessionsD[OF two]
  note pos = top_position[OF D(8)]
  have old: "a \<notin> old_addr ` set (kept s1 s2 st)" if "old_values_end s2 = Some a" for a
    using that pos(1) old_addr_parts[OF D(3)] unfolding D(11)
    by (fastforce simp: position_ok_def dest: set_kept)
  show "old_segment s2 (squash st) = kept s1 s2 st @ old_segment s2 (undo ks st)"
    "from_end old_addr (old_values_end s2) (old_values (squash st))
       = from_end old_addr (old_values_end s2) (old_values (undo ks st))"
    using before_end_append[where f = old_addr, OF old] by (simp_all add: squash_two[OF two] old_segment_def)
  have rem: "a \<notin> fst ` set (merged s1 s2 st)" if "removed_values_end s2 = Some a" for a
  proof
    assume "a \<in> fst ` set (merged s1 s2 st)"
    then have "a \<in> fst ` set (removed_segment s1 (removed_values st))"
      using set_merged by blast
    moreover have "a \<in> fst ` set (from_end fst (removed_values_end s1) (removed_values st))"
      using that pos(2) unfolding D(10) by (simp add: position_ok_def)
    ultimately show False
      using distinct_removed_parts[OF D(3), of s1] by auto
  qed
  show "removed_segment s2 (removed_values (squash st)) = merged s1 s2 st @ removed_segment s2 (removed_values (undo ks st))"
    "from_end fst (removed_values_end s2) (removed_values (squash st))
       = from_end fst (removed_values_end s2) (removed_values (undo ks st))"
    using before_end_append[where f = fst, OF rem] by (simp_all add: squash_two[OF two] removed_segment_def)
qed

lemma squash_live:
  assumes two: "two_sessions ks st s1 s2 rest" and i: "i < old_next_id s2"
  shows "live s2 (squash st) i = (case map_of (indices st) i of Some n \<Rightarrow> Some n
       | None \<Rightarrow> (case map_of (removed_segment s1 (removed_values st)) i of
           Some n \<Rightarrow> Some (fix_node (below s1 s2 st) i n)
         | None \<Rightarrow> map_of (removed_segment s2 (removed_values (undo ks st))) i))"
    and "live s2 (undo ks st) i = (case live s1 st i of Some n \<Rightarrow> Some (fix_node (old_segment s1 st) i n)
       | None \<Rightarrow> map_of (removed_segment s2 (removed_values (undo ks st))) i)"
proof -
  note D = two_sessionsD[OF two]
  have "map_of (merged s1 s2 st) i
      = map_option (fix_node (below s1 s2 st) i) (map_of (removed_segment s1 (removed_values st)) i)"
    using i by (simp add: merged_def map_of_filter_less map_of_map_snd)
  moreover have "indices (squash st) = indices st"
    by (simp add: squash_two[OF two])
  ultimately show "live s2 (squash st) i = (case map_of (indices st) i of Some n \<Rightarrow> Some n
       | None \<Rightarrow> (case map_of (removed_segment s1 (removed_values st)) i of
           Some n \<Rightarrow> Some (fix_node (below s1 s2 st) i n)
         | None \<Rightarrow> map_of (removed_segment s2 (removed_values (undo ks st))) i))"
    unfolding live_def squash_segments[OF two] by (simp add: map_add_def split: option.split)
  show "live s2 (undo ks st) i = (case live s1 st i of Some n \<Rightarrow> Some (fix_node (old_segment s1 st) i n)
       | None \<Rightarrow> map_of (removed_segment s2 (removed_values (undo ks st))) i)"
    using i D(13) unfolding live_def[of s2] D(9) by (simp add: restored_def map_add_def split: option.split)
qed

lemma below_present:
  assumes "two_sessions ks st s1 s2 rest" "e \<in> set (old_segment s1 st)" "old_mtime e < ctime s2"
  shows "fix_node (below s1 s2 st) (old_current e) n = old_as_node e"
  using assms(2,3) top_distinct[OF two_sessionsD(4)[OF assms(1)]]
  by (intro fix_node_present) (auto simp: below_def distinct_map_filter)

lemma below_absent:
  assumes "two_sessions ks st s1 s2 rest" "e \<in> set (old_segment s1 st)" "ctime s2 \<le> old_mtime e"
  shows "old_current e \<notin> old_current ` set (below s1 s2 st)" "old_current e \<notin> old_current ` set (kept s1 s2 st)"
proof -
  have "e' = e" if "e' \<in> set (old_segment s1 st)" "old_current e' = old_current e" for e'
    using that assms(2) top_distinct[OF two_sessionsD(4)[OF assms(1)]] by (auto simp: distinct_map inj_on_def)
  then show "old_current e \<notin> old_current ` set (below s1 s2 st)" "old_current e \<notin> old_current ` set (kept s1 s2 st)"
    using assms(3) by (auto simp: below_def kept_def)
qed

text \<open>
  An object below the bound of the lower session is backed up above with a value older than
  the lower session, with a value of the lower session, or not at all.
\<close>

lemma squash_view:
  assumes two: "two_sessions ks st s1 s2 rest" and i: "i < old_next_id s2"
  obtains (old_kept) e n where "e \<in> set (kept s1 s2 st)" "old_current e = i"
      "live s2 (undo ks st) i = Some (old_as_node e)" "i \<notin> old_current ` set (old_segment s2 (undo ks st))"
      "live s2 (squash st) i = Some n" "ctime s2 \<le> node_mtime n"
    | (old_gone) e where "old_mtime e < ctime s2" "i \<notin> old_current ` set (kept s1 s2 st)"
      "live s2 (undo ks st) i = Some (old_as_node e)" "i \<notin> old_current ` set (old_segment s2 (undo ks st))"
      "live s2 (squash st) i = Some (old_as_node e)"
    | (young) e n where "ctime s2 \<le> old_mtime e" "i \<notin> old_current ` set (kept s1 s2 st)"
      "live s2 (undo ks st) i = Some (old_as_node e)" "i \<in> old_current ` set (old_segment s2 (undo ks st))"
      "live s2 (squash st) i = Some n" "ctime s2 \<le> node_mtime n"
    | (untouched) "i \<notin> old_current ` set (kept s1 s2 st)" "live s2 (squash st) i = live s2 (undo ks st) i"
proof (cases "i \<in> old_current ` set (old_segment s1 st)")
  case False
  then have "i \<notin> old_current ` set (below s1 s2 st)" "i \<notin> old_current ` set (kept s1 s2 st)"
    by (auto simp: below_def kept_def)
  then show ?thesis
    using False
    by (intro untouched) (auto simp: squash_live[OF two i] live_def[of s1 st] map_add_def fix_node_absent split: option.split)
next
  case True
  note D = two_sessionsD[OF two]
  then obtain e where e: "e \<in> set (old_segment s1 st)" "old_current e = i"
    using True by auto
  obtain n where n: "live s1 st i = Some n" "ctime s1 \<le> node_mtime n"
    using top_old(3)[OF D(4) e(1)] e(2) by auto
  have l1: "live s2 (undo ks st) i = Some (old_as_node e)"
    using n(1) e fix_node_present[OF top_distinct[OF D(4)] e(1)] by (simp add: squash_live(2)[OF two i])
  have young2: "i \<in> old_current ` set (old_segment s2 (undo ks st)) \<longleftrightarrow> ctime s2 \<le> old_mtime e"
    using top_old(3)[OF D(8)] top_touched[OF D(8) l1 i] l1 by (force simp: old_as_node_def)
  show ?thesis
  proof (cases "ctime s2 \<le> old_mtime e")
    case True
    have "live s2 (squash st) i = Some n"
      using n(1) below_absent(1)[OF two e(1) True] e(2)
      by (auto simp: squash_live(1)[OF two i] live_def[of s1 st] map_add_def fix_node_absent split: option.splits)
    then show ?thesis
      using True young2 below_absent(2)[OF two e(1) True] e(2) l1 n(2) D(12) by (intro young) auto
  next
    case False
    then have c: "old_mtime e < ctime s2" and not2: "i \<notin> old_current ` set (old_segment s2 (undo ks st))"
      using young2 by auto
    show ?thesis
    proof (cases "map_of (indices st) i")
      case None
      then have "map_of (removed_segment s1 (removed_values st)) i = Some n"
        using n(1) by (simp add: live_def map_add_def)
      then have "live s2 (squash st) i = Some (old_as_node e)" "(i, n) \<in> set (removed_values st)"
        using None below_present[OF two e(1) c] e(2)
        by (auto simp: squash_live(1)[OF two i] removed_segment_def dest!: map_of_SomeD dest: set_before_end)
      then show ?thesis
        using c l1 not2 by (intro old_gone) (force simp: kept_def)+
    next
      case (Some n')
      then have "e \<in> set (kept s1 s2 st)"
        using e c wf_disjoint[OF D(3) Some] by (force simp: kept_def)
      then show ?thesis
        using e l1 not2 Some n D(12) map_of_live(1)[OF Some, of s1]
        by (intro old_kept) (auto simp: squash_live(1)[OF two i])
    qed
  qed
qed

lemma squash_restored:
  assumes two: "two_sessions ks st s1 s2 rest"
  shows "restored s2 (squash st) = restored s2 (undo ks st)"
proof
  fix i
  have d: "distinct (map old_current (kept s1 s2 st))"
    using top_distinct[OF two_sessionsD(4)[OF two]] by (simp add: kept_def distinct_map_filter)
  show "restored s2 (squash st) i = restored s2 (undo ks st) i"
  proof (cases "i < old_next_id s2")
    case True
    note seg = squash_segments(1)[OF two]
    from two True show ?thesis
    proof (cases rule: squash_view)
      case (old_kept e n)
      then show ?thesis
        using True fix_node_present[OF d old_kept(1)]
        by (auto simp: restored_def seg fix_node_append fix_node_absent)
    next
      case (young e n)
      then obtain e' where "e' \<in> set (old_segment s2 (undo ks st))" "old_current e' = i"
        by auto
      then show ?thesis
        using True young fix_node_present[OF top_distinct[OF two_sessionsD(8)[OF two]]]
        by (auto simp: restored_def seg fix_node_append)
    qed (auto simp: restored_def seg fix_node_append intro!: option.map_cong0)
  qed (simp add: restored_def)
qed

lemma kept_bound:
  assumes two: "two_sessions ks st s1 s2 rest" and e: "e \<in> set (kept s1 s2 st)"
  shows "old_current e < old_next_id s2"
proof (rule ccontr)
  assume ge: "\<not> old_current e < old_next_id s2"
  note D = two_sessionsD[OF two]
  have seg: "e \<in> set (old_segment s1 st)" and c: "old_mtime e < ctime s2"
    using e by (simp_all add: kept_def)
  obtain n where "live s1 st (old_current e) = Some n"
    using top_old(3)[OF D(4) seg] by auto
  then have "map_of (indices (undo ks st)) (old_current e) = Some (old_as_node e)"
    using top_old(2)[OF D(4) seg] fix_node_present[OF top_distinct[OF D(4)] seg] by (simp add: D(9) restored_def)
  then show False
    using top_created[OF D(8)] ge c by (fastforce simp: old_as_node_def)
qed

lemma squash_old:
  assumes two: "two_sessions ks st s1 s2 rest" and e: "e \<in> set (old_segment s2 (squash st))"
  shows "old_mtime e < ctime s2 \<and> old_current e < old_next_id s2 \<and>
     (\<exists>n. live s2 (squash st) (old_current e) = Some n \<and> ctime s2 \<le> node_mtime n)"
proof -
  note D = two_sessionsD[OF two]
  have mt: "old_mtime e < ctime s2" and b: "old_current e < old_next_id s2"
    using e top_old(1,2)[OF D(8)] kept_bound[OF two] by (auto simp: squash_segments(1)[OF two] kept_def)
  have "\<exists>n. live s2 (squash st) (old_current e) = Some n \<and> ctime s2 \<le> node_mtime n"
    using two b
  proof (cases rule: squash_view)
    case (old_gone e')
    then show ?thesis using e by (auto simp: squash_segments(1)[OF two])
  next
    case untouched
    then have "e \<in> set (old_segment s2 (undo ks st))"
      using e by (auto simp: squash_segments(1)[OF two])
    with untouched show ?thesis using top_old(3)[OF D(8)] by simp
  qed auto
  with mt b show ?thesis by simp
qed

lemma squash_touched:
  assumes two: "two_sessions ks st s1 s2 rest" and i: "i < old_next_id s2"
    and l: "live s2 (squash st) i = Some n" "ctime s2 \<le> node_mtime n"
  shows "i \<in> old_current ` set (old_segment s2 (squash st))"
  using two i
proof (cases rule: squash_view)
  case (old_gone e)
  then show ?thesis using l by (auto simp: old_as_node_def)
next
  case untouched
  then show ?thesis
    using top_touched[OF two_sessionsD(8)[OF two] _ i, of n] l by (force simp: squash_segments(1)[OF two])
qed (auto simp: squash_segments(1)[OF two])

lemma squash_created:
  assumes two: "two_sessions ks st s1 s2 rest" and n: "map_of (indices st) i = Some n" and ge: "old_next_id s2 \<le> i"
  shows "ctime s2 \<le> node_mtime n"
proof (cases "ctime s1 \<le> node_mtime n")
  case True
  then show ?thesis using two_sessionsD(12)[OF two] by simp
next
  case False
  note D = two_sessionsD[OF two]
  have i: "i < old_next_id s1"
    using False top_created[OF D(4) n] by (meson not_le)
  have "i \<notin> old_current ` set (old_segment s1 st)"
    using top_old(3)[OF D(4)] map_of_live(1)[OF n] False by fastforce
  then have "map_of (indices (undo ks st)) i = Some n"
    using i map_of_live(1)[OF n] by (simp add: D(9) restored_def fix_node_absent)
  then show ?thesis
    using top_created[OF D(8)] ge by simp
qed

lemma squash_distinct:
  assumes two: "two_sessions ks st s1 s2 rest"
  shows "distinct (map old_current (old_segment s2 (squash st)))"
proof -
  note D = two_sessionsD[OF two]
  have "old_current e \<notin> old_current ` set (old_segment s2 (undo ks st))" if e: "e \<in> set (kept s1 s2 st)" for e
    using two kept_bound[OF two e]
  proof (cases rule: squash_view)
    case (young e')
    then show ?thesis using e by auto
  qed (use e in auto)
  then show ?thesis
    using top_distinct[OF D(8)] top_distinct[OF D(4)]
    by (auto simp: squash_segments(1)[OF two] kept_def distinct_map_filter)
qed

lemma top_squash:
  assumes two: "two_sessions ks st s1 s2 rest"
  shows "top_inv ks s2 rest (squash st)"
proof -
  note D = two_sessionsD[OF two]
  have pos: "position_ok old_addr (old_values_end s2) (old_values (squash st))"
    "position_ok fst (removed_values_end s2) (removed_values (squash st))"
    using top_position[OF D(8)] by (auto simp: squash_two[OF two] position_ok_def split: option.splits)
  have bounds: "old_next_id s2 \<le> next_id (squash st)" "ctime s2 \<le> monotonic_revision (squash st)"
    using top_bounds[OF D(4)] D(12,13) by (simp_all add: squash_two[OF two])
  have removed: "fst p < old_next_id s2" if "p \<in> set (removed_segment s2 (removed_values (squash st)))" for p
    using that top_removed[OF D(8), of p] by (auto simp: squash_segments(2)[OF two] merged_def)
  have idx: "indices (squash st) = indices st"
    by (simp add: squash_two[OF two])
  show ?thesis
    unfolding top_inv_def idx squash_restored[OF two]
    using pos bounds removed top_below[OF D(8)] top_uniq[OF D(8)] squash_distinct[OF two]
      squash_old[OF two] squash_touched[OF two] squash_created[OF two] by blast
qed

lemma wf_squash:
  assumes two: "two_sessions ks st s1 s2 rest"
  shows "wf_index ks (squash st)"
proof -
  note D = two_sessionsD[OF two]
  have "sorted_wrt (\<lambda>a b. b < a) (map old_addr (old_segment s1 st @ old_values (undo ks st)))"
    using D(3) by (simp only: D(11) old_segment_def before_from_end) (simp add: wf_index_def)
  then have old: "sorted_wrt (\<lambda>a b. b < a) (map old_addr (kept s1 s2 st @ old_values (undo ks st)))"
    by (auto simp: sorted_wrt_append sorted_wrt_map kept_def intro: sorted_wrt_filter)
  have split: "set (removed_values st) = set (removed_segment s1 (removed_values st)) \<union> set (removed_values (undo ks st))"
    by (metis D(10) before_from_end removed_segment_def set_append)
  have whole: "distinct (map fst (indices st) @ map fst (removed_segment s1 (removed_values st))
      @ map fst (removed_values (undo ks st)))"
    using D(3) unfolding D(10) removed_segment_def map_append[symmetric] before_from_end
    by (simp only: wf_index_def map_append)
  then have "distinct (map fst (merged s1 s2 st))"
    by (simp add: merged_def distinct_map_filter comp_def)
  moreover have "set (map fst (merged s1 s2 st)) \<subseteq> set (map fst (removed_segment s1 (removed_values st)))"
    using set_merged by force
  ultimately have dist: "distinct (map fst (indices st @ merged s1 s2 st @ removed_values (undo ks st)))"
    unfolding map_append by (rule distinct_shrink_middle[OF whole])
  have "node_mtime (fix_node (below s1 s2 st) i n) \<le> monotonic_revision st"
    if "node_mtime n \<le> monotonic_revision st" for i n
    using that D(12) top_bounds(2)[OF D(4)]
    by (auto simp: fix_node_def below_def old_as_node_def split: option.split dest!: map_of_SomeD)
  moreover have removed: "fst p < next_id st \<and> node_mtime (snd p) \<le> monotonic_revision st"
    if "p \<in> set (removed_values st)" for p
    using wf_ids[OF D(3), of p] that by simp
  ultimately have "\<forall>p \<in> set (merged s1 s2 st). fst p < next_id st \<and> node_mtime (snd p) \<le> monotonic_revision st"
    by (fastforce simp: merged_def split)
  moreover have "\<forall>p \<in> set (removed_values (undo ks st)). fst p < next_id st \<and> node_mtime (snd p) \<le> monotonic_revision st"
    using removed by (simp add: split)
  ultimately show ?thesis
    using D(3) old dist by (simp add: wf_index_def squash_two[OF two] ball_Un)
qed

lemma undo_squash:
  assumes two: "two_sessions ks st s1 s2 rest"
  shows "undo ks (squash st) = undo ks (undo ks st)"
proof -
  note D = two_sessionsD[OF two]
  have stk: "undo_stack (squash st) = s2 # rest"
    by (simp add: squash_two[OF two])
  show ?thesis
    using wf_squash[OF two] stk top_squash[OF two] D(7,6,8)
    by (rule undo_eqI) (simp_all add: squash_restored[OF two] squash_segments[OF two],
        simp_all add: squash_two[OF two] undo_fields[OF D(2)])
qed

end
