(* ===== verification/Undo_Commit.thy ===== *)
theory Undo_Commit
  imports Undo_Squash
begin

text \<open>
  \<open>commit\<close> drops the oldest sessions and cuts the two lists behind the entries that the kept
  sessions point to; undoing the kept sessions gives what it gave before.
\<close>

section \<open>Cutting the lists\<close>

lemma erase_after_prefix: "\<exists>zs. xs = erase_after f q xs @ zs"
proof (cases q)
  case (Some a)
  then show ?thesis
    by (intro exI[of _ "drop 1 (from_end f q xs)"]) (simp add: erase_after_def before_from_end)
qed (simp add: erase_after_def)

lemma erase_after_append:
  "(\<And>a. q = Some a \<Longrightarrow> a \<notin> f ` set ys) \<Longrightarrow> erase_after f q (ys @ xs) = ys @ erase_after f q xs"
  by (auto simp: erase_after_def before_end_append split: option.split)

lemma from_end_shape:
  assumes "position_ok f q xs"
  obtains "q = None" "from_end f q xs = []" | x zs where "q = Some (f x)" "from_end f q xs = x # zs"
proof (cases q)
  case (Some a)
  then obtain x zs where "from_end f q xs = x # zs" "f x = a"
    using assms by (cases "dropWhile (\<lambda>x. f x \<noteq> a) xs")
      (auto simp: from_end_def position_ok_def dropWhile_eq_Nil_conv dropWhile_eq_Cons_conv)
  with Some that(2) show ?thesis by blast
qed (use that(1) in \<open>simp add: from_end_def\<close>)

lemma erase_after_cut:
  assumes p: "position_ok f p xs" and q: "position_ok f q (from_end f p xs)" and d: "distinct (map f xs)"
  shows "before_end f p (erase_after f q xs) = before_end f p xs"
    and "from_end f p (erase_after f q xs) = erase_after f q (from_end f p xs)"
    and "position_ok f p (erase_after f q xs)"
proof -
  let ?A = "before_end f p xs" and ?Y = "from_end f p xs"
  have "distinct (map f (?A @ ?Y))"
    using d by (simp only: before_from_end)
  then have "a \<notin> f ` set ?A" if "q = Some a" for a
    using q that by (auto simp: position_ok_def)
  then have "erase_after f q (?A @ ?Y) = ?A @ erase_after f q ?Y"
    by (rule erase_after_append)
  then have e: "erase_after f q xs = ?A @ erase_after f q ?Y"
    by (simp only: before_from_end)
  have A: "a \<notin> f ` set ?A" if "p = Some a" for a
    using that by (rule before_end_notin)
  from p have "before_end f p (erase_after f q ?Y) = [] \<and> from_end f p (erase_after f q ?Y) = erase_after f q ?Y
      \<and> position_ok f p (erase_after f q ?Y)"
  proof (cases rule: from_end_shape)
    case 1
    then show ?thesis
      using q by (auto simp: position_ok_def before_end_def from_end_def erase_after_def split: option.splits)
  next
    case (2 x zs)
    then have "\<exists>us. erase_after f q ?Y = x # us"
      by (auto simp: erase_after_def before_end_def from_end_def split: option.split)
    then show ?thesis
      using 2(1) by (auto simp: before_end_def from_end_def position_ok_def)
  qed
  then show "before_end f p (erase_after f q xs) = ?A" "from_end f p (erase_after f q xs) = erase_after f q ?Y"
    "position_ok f p (erase_after f q xs)"
    using before_end_append[where f = f and xs = "erase_after f q ?Y", OF A]
    by (auto simp: e position_ok_def split: option.splits)
qed

lemma strict_sorted_distinct: "sorted_wrt (\<lambda>a b. b < a) xs \<Longrightarrow> distinct (xs :: nat list)"
  by (induction xs) auto

lemma wf_distinct:
  assumes "wf_index ks st"
  shows "distinct (map old_addr (old_values st))" "distinct (map fst (removed_values st))"
  using assms strict_sorted_distinct by (auto simp: wf_index_def)

lemma position_ok_from_end: "position_ok f q xs \<Longrightarrow> position_ok f q (from_end f q xs)"
  by (erule from_end_shape) (auto simp: position_ok_def)

lemma position_ok_suffix: "position_ok f q (from_end f p xs) \<Longrightarrow> position_ok f q xs"
  by (auto simp: position_ok_def split: option.splits dest: set_from_end)

section \<open>Dropping sessions\<close>

definition cut_stack :: "undo_state \<Rightarrow> nat \<Rightarrow> 'v undo_index \<Rightarrow> 'v undo_index" where
  "cut_stack b k st = (dispose b st)\<lparr>undo_stack := take k (undo_stack st)\<rparr>"

lemma cut_stack_fields [simp]:
  "indices (cut_stack b k st) = indices st" "undo_stack (cut_stack b k st) = take k (undo_stack st)"
  "old_values (cut_stack b k st) = erase_after old_addr (old_values_end b) (old_values st)"
  "removed_values (cut_stack b k st) = erase_after fst (removed_values_end b) (removed_values st)"
  "next_id (cut_stack b k st) = next_id st" "revision (cut_stack b k st) = revision st"
  "monotonic_revision (cut_stack b k st) = monotonic_revision st"
  by (simp_all add: cut_stack_def dispose_def)

lemma wf_cut_stack:
  assumes "wf_index ks st"
  shows "wf_index ks (cut_stack b k st)"
proof -
  obtain os zs where os: "erase_after old_addr (old_values_end b) (old_values st) = os" "old_values st = os @ zs"
    using erase_after_prefix[of "old_values st" old_addr "old_values_end b"] by blast
  obtain rs ws where rs: "erase_after fst (removed_values_end b) (removed_values st) = rs" "removed_values st = rs @ ws"
    using erase_after_prefix[of "removed_values st" fst "removed_values_end b"] by blast
  from assms show ?thesis
    unfolding wf_index_def cut_stack_fields os(1) rs(1) unfolding os(2) rs(2)
    by (simp add: sorted_wrt_append image_Un Int_Un_distrib ball_Un)
qed

lemma stack_position:
  assumes "inv_index ks st" "undo_stack st = s # stack" "b \<in> set (s # stack)"
  shows "position_ok old_addr (old_values_end b) (from_end old_addr (old_values_end s) (old_values st)) \<and>
     position_ok fst (removed_values_end b) (from_end fst (removed_values_end s) (removed_values st))"
  using assms
proof (induction stack arbitrary: s st)
  case (Cons s' stack)
  have top: "top_inv ks s (s' # stack) st" and inv1: "inv_index ks (undo ks st)"
    using Cons.prems by (simp_all add: inv_Cons)
  have stk1: "undo_stack (undo ks st) = s' # stack"
    by (simp add: undo_fields[OF Cons.prems(2)])
  have lists: "old_values (undo ks st) = from_end old_addr (old_values_end s) (old_values st)"
    "removed_values (undo ks st) = from_end fst (removed_values_end s) (removed_values st)"
    using undo_fields[OF Cons.prems(2)] undo_table(4)[OF inv_wf[OF Cons.prems(1)] Cons.prems(2) top] by simp_all
  show ?case
  proof (cases "b = s")
    case False
    then have "position_ok old_addr (old_values_end b) (from_end old_addr (old_values_end s') (old_values (undo ks st)))
       \<and> position_ok fst (removed_values_end b) (from_end fst (removed_values_end s') (removed_values (undo ks st)))"
      using Cons.IH[OF inv1 stk1] Cons.prems(3) by simp
    then show ?thesis
      unfolding lists by (elim conjE) (intro conjI; erule position_ok_suffix)
  qed (use top_position[OF top] in \<open>simp add: position_ok_from_end\<close>)
next
  case Nil
  then show ?case
    using top_position[OF inv_top[OF Nil.prems(1,2)]] by (simp add: position_ok_from_end)
qed

lemma cut_stack_top:
  assumes inv: "inv_index ks st" and stk: "undo_stack st = s # stack" and b: "b \<in> set (s # stack)"
  shows "top_inv ks s (take k stack) (cut_stack b (Suc k) st)"
    and "restored s (cut_stack b (Suc k) st) = restored s st"
    and "from_end old_addr (old_values_end s) (old_values (cut_stack b (Suc k) st))
       = erase_after old_addr (old_values_end b) (from_end old_addr (old_values_end s) (old_values st))"
    and "from_end fst (removed_values_end s) (removed_values (cut_stack b (Suc k) st))
       = erase_after fst (removed_values_end b) (from_end fst (removed_values_end s) (removed_values st))"
proof -
  let ?st = "cut_stack b (Suc k) st"
  note top = inv_top[OF inv stk] and pos = stack_position[OF inv stk b]
  note d = wf_distinct[OF inv_wf[OF inv]]
  note old = erase_after_cut[OF top_position(1)[OF top] conjunct1[OF pos] d(1)]
  note rem = erase_after_cut[OF top_position(2)[OF top] conjunct2[OF pos] d(2)]
  have seg: "old_segment s ?st = old_segment s st" "removed_segment s (removed_values ?st) = removed_segment s (removed_values st)"
    using old(1) rem(1) by (simp_all add: old_segment_def removed_segment_def)
  then have live: "live s ?st = live s st"
    by (simp add: live_def)
  show r: "restored s ?st = restored s st"
    by (simp add: restored_def live seg fun_eq_iff)
  show "top_inv ks s (take k stack) ?st"
    using top old(3) rem(3) unfolding top_inv_def seg live r by (auto dest: in_set_takeD)
  show "from_end old_addr (old_values_end s) (old_values ?st)
       = erase_after old_addr (old_values_end b) (from_end old_addr (old_values_end s) (old_values st))"
    "from_end fst (removed_values_end s) (removed_values ?st)
       = erase_after fst (removed_values_end b) (from_end fst (removed_values_end s) (removed_values st))"
    using old(2) rem(2) by simp_all
qed

lemma undo_cut_stack:
  assumes inv: "inv_index ks st" and stk: "undo_stack st = s # stack" and b: "b \<in> set (s # stack)"
  shows "undo ks (cut_stack b (Suc k) st) = cut_stack b k (undo ks st)"
proof -
  let ?st = "cut_stack b (Suc k) st"
  note wf = inv_wf[OF inv] and top = inv_top[OF inv stk] and cut = cut_stack_top[OF inv stk b]
  have stk': "undo_stack ?st = s # take k stack"
    by (simp add: stk)
  note u = undo_table[OF wf stk top] and u' = undo_table[OF wf_cut_stack[OF wf] stk' cut(1)]
  have "indices (undo ks ?st) = indices (undo ks st)"
    using u(1-3) u'(1-3) by (intro sorted_alist_unique) (simp_all add: cut(2))
  then show ?thesis
    by (rule undo_index.equality[OF trans])
      (simp_all only: cut_stack_fields undo_fields[OF stk] undo_fields[OF stk'] u(4) u'(4)
        cut(3,4)[unfolded cut_stack_fields], simp)
qed

end
