(* ===== verification/Undo_Refinement.thy ===== *)
theory Undo_Refinement
  imports Undo_Commit
begin

text \<open>
  The specification of the undo index: the present contents and the stack of the contents to
  go back to. The index of \<^verbatim>\<open>undo_index.hpp\<close> refines it, operation by operation and for every
  sequence of operations.
\<close>

section \<open>The specification\<close>

record 'v snapshot_store =
  cur :: "nat \<rightharpoonup> 'v"
  nxt :: nat
  saved :: "((nat \<rightharpoonup> 'v) \<times> nat) list"
  rev_no :: int

definition spec_empty :: "'v snapshot_store" where
  "spec_empty = \<lparr>cur = Map.empty, nxt = 0, saved = [], rev_no = 0\<rparr>"

definition spec_emplace :: "('v \<Rightarrow> 'k) list \<Rightarrow> (nat \<Rightarrow> 'v) \<Rightarrow> 'v snapshot_store \<Rightarrow> 'v snapshot_store result" where
  "spec_emplace ks c sp =
     (if \<exists>w \<in> ran (cur sp). conflicts ks (c (nxt sp)) w then Inl Logic_error
      else Inr (sp\<lparr>cur := (cur sp)(nxt sp \<mapsto> c (nxt sp)), nxt := Suc (nxt sp)\<rparr>))"

definition spec_modify :: "('v \<Rightarrow> 'k) list \<Rightarrow> nat \<Rightarrow> ('v \<Rightarrow> 'v) \<Rightarrow> 'v snapshot_store \<Rightarrow> 'v snapshot_store result" where
  "spec_modify ks i m sp =
     (case cur sp i of
        None \<Rightarrow> Inl Out_of_range
      | Some v \<Rightarrow>
          if \<exists>j w. j \<noteq> i \<and> cur sp j = Some w \<and> conflicts ks (m v) w then Inl Logic_error
          else Inr (sp\<lparr>cur := (cur sp)(i \<mapsto> m v)\<rparr>))"

definition spec_remove :: "nat \<Rightarrow> 'v snapshot_store \<Rightarrow> 'v snapshot_store" where
  "spec_remove i sp = sp\<lparr>cur := (cur sp)(i := None)\<rparr>"

definition spec_add_session :: "'v snapshot_store \<Rightarrow> 'v snapshot_store" where
  "spec_add_session sp = sp\<lparr>saved := (cur sp, nxt sp) # saved sp, rev_no := rev_no sp + 1\<rparr>"

definition spec_undo :: "'v snapshot_store \<Rightarrow> 'v snapshot_store" where
  "spec_undo sp =
     (case saved sp of
        [] \<Rightarrow> sp
      | (c, n) # rest \<Rightarrow> \<lparr>cur = c, nxt = n, saved = rest, rev_no = rev_no sp - 1\<rparr>)"

definition spec_undo_all :: "'v snapshot_store \<Rightarrow> 'v snapshot_store" where
  "spec_undo_all sp =
     (if saved sp = [] then sp
      else \<lparr>cur = fst (last (saved sp)), nxt = snd (last (saved sp)), saved = [],
            rev_no = rev_no sp - int (length (saved sp))\<rparr>)"

definition spec_squash :: "'v snapshot_store \<Rightarrow> 'v snapshot_store" where
  "spec_squash sp =
     (case saved sp of [] \<Rightarrow> sp | _ # rest \<Rightarrow> sp\<lparr>saved := rest, rev_no := rev_no sp - 1\<rparr>)"

definition spec_commit :: "int \<Rightarrow> 'v snapshot_store \<Rightarrow> 'v snapshot_store" where
  "spec_commit r sp = sp\<lparr>saved := take (nat (rev_no sp - r)) (saved sp)\<rparr>"

section \<open>The abstraction\<close>

definition contents :: "'v undo_index \<Rightarrow> nat \<rightharpoonup> 'v" where
  "contents st = map_option node_item \<circ> map_of (indices st)"

function snapshots :: "('v \<Rightarrow> 'k) list \<Rightarrow> 'v undo_index \<Rightarrow> ((nat \<rightharpoonup> 'v) \<times> nat) list" where
  "snapshots ks st =
     (if undo_stack st = [] then []
      else (contents (undo ks st), next_id (undo ks st)) # snapshots ks (undo ks st))"
  by pat_completeness auto
termination
  by (relation "measure (\<lambda>(ks, st). length (undo_stack st))") simp_all

declare snapshots.simps [simp del]

definition abs_index :: "('v \<Rightarrow> 'k) list \<Rightarrow> 'v undo_index \<Rightarrow> 'v snapshot_store" where
  "abs_index ks st = \<lparr>cur = contents st, nxt = next_id st, saved = snapshots ks st, rev_no = revision st\<rparr>"

lemma snapshots_Nil [simp]: "undo_stack st = [] \<Longrightarrow> snapshots ks st = []"
  by (subst snapshots.simps) simp

lemma snapshots_Cons:
  "undo_stack st = s # stack \<Longrightarrow>
     snapshots ks st = (contents (undo ks st), next_id (undo ks st)) # snapshots ks (undo ks st)"
  by (subst snapshots.simps) simp

lemma length_snapshots [simp]: "length (snapshots ks st) = length (undo_stack st)"
proof (induction ks st rule: snapshots.induct)
  case (1 ks st)
  then show ?case
    by (cases "undo_stack st") (simp_all add: snapshots_Cons)
qed

lemma undo_Nil: "undo_stack st = [] \<Longrightarrow> undo ks st = st"
  by (simp add: undo_def)

lemma snapshots_same_base:
  assumes "inv_index ks st" "same_base ks st st'"
  shows "snapshots ks st' = snapshots ks st"
proof (cases "undo_stack st")
  case Nil
  then show ?thesis using assms(2) by (simp add: same_base_def)
next
  case (Cons s stack)
  then have "undo_stack st' = s # stack"
    using assms(2) by (simp add: same_base_def)
  then show ?thesis
    using same_base_undo[OF assms] by (simp add: snapshots_Cons Cons)
qed

lemma contents_eq_Some: "contents st i = Some v \<longleftrightarrow> (\<exists>n. map_of (indices st) i = Some n \<and> node_item n = v)"
  by (auto simp: contents_def)

lemma unique_in_contents:
  "distinct (map fst (indices st)) \<Longrightarrow>
     unique_in ks i v (indices st) \<longleftrightarrow> \<not> (\<exists>j w. j \<noteq> i \<and> contents st j = Some w \<and> conflicts ks v w)"
  unfolding unique_in_map_of contents_eq_Some by blast

section \<open>Refinement of each operation\<close>

lemma refine_empty: "inv_index ks empty_index" "abs_index ks empty_index = spec_empty"
  by (auto simp: inv_Nil empty_index_def wf_index_def uniq_map_def abs_index_def spec_empty_def contents_def fun_eq_iff)

lemma refine_emplace:
  assumes inv: "inv_index ks st"
  shows "map_sum id (abs_index ks) (emplace ks c st) = spec_emplace ks c (abs_index ks st)"
    and "emplace ks c st = Inr st' \<Longrightarrow> inv_index ks st'"
proof -
  note wf = inv_wf[OF inv]
  have d: "distinct (map fst (indices st))"
    using wf by (simp add: wf_index_def)
  have none: "contents st (next_id st) = None"
    by (simp add: contents_def map_of_next_id[OF wf])
  have u: "unique_in ks (next_id st) v (indices st) \<longleftrightarrow> \<not> (\<exists>w \<in> ran (contents st). conflicts ks v w)" for v
    unfolding unique_in_contents[OF d] ran_def using none by (auto, metis option.distinct(1))
  show "map_sum id (abs_index ks) (emplace ks c st) = spec_emplace ks c (abs_index ks st)"
  proof (cases "emplace ks c st")
    case (Inl e)
    then show ?thesis
      using u[of "c (next_id st)"] by (auto simp: emplace_def Let_def spec_emplace_def abs_index_def split: if_splits)
  next
    case (Inr st')
    then have "contents st' = (contents st)(next_id st \<mapsto> c (next_id st))"
      using map_of_append_node[OF wf] unfolding append_node_def
      by (auto simp: emplace_def Let_def contents_def fun_eq_iff split: if_splits)
    with Inr show ?thesis
      using u[of "c (next_id st)"] snapshots_same_base[OF inv emplace_same_base[OF inv Inr]]
      by (auto simp: emplace_def Let_def spec_emplace_def abs_index_def split: if_splits)
  qed
  show "emplace ks c st = Inr st' \<Longrightarrow> inv_index ks st'"
    using same_base_inv[OF inv emplace_same_base[OF inv]] by simp
qed

lemma refine_remove:
  assumes inv: "inv_index ks st"
  shows "abs_index ks (remove i st) = spec_remove i (abs_index ks st)" and "inv_index ks (remove i st)"
proof -
  note same = remove_same_base[OF inv, of i]
  then show "inv_index ks (remove i st)"
    by (rule same_base_inv[OF inv])
  have "contents (remove i st) = (contents st)(i := None) \<and> next_id (remove i st) = next_id st"
    by (auto simp: remove_def contents_def on_remove_def map_of_erase_node fun_eq_iff
        split: option.split list.split)
  then show "abs_index ks (remove i st) = spec_remove i (abs_index ks st)"
    using snapshots_same_base[OF inv same] same by (simp add: abs_index_def spec_remove_def same_base_def)
qed

lemma contents_overwrite:
  "map_of (indices st) i = Some n \<Longrightarrow> contents (overwrite i n' ps st) = (contents st)(i \<mapsto> node_item n')"
  by (auto simp: contents_def map_of_set_node fun_eq_iff)

lemma unique_in_set_node:
  assumes "distinct (map fst t)"
  shows "unique_in ks i v (set_node i n t) \<longleftrightarrow> unique_in ks i v t"
proof -
  have "distinct (map fst (set_node i n t))"
    using assms by simp
  then show ?thesis
    unfolding unique_in_map_of[OF assms] unique_in_map_of[OF \<open>distinct (map fst (set_node i n t))\<close>]
    by (metis map_of_set_node)
qed

lemma modify_result:
  assumes wf: "wf_index ks st" and n: "map_of (indices st) i = Some n"
  shows "snd (modify ks i m st) = (if unique_in ks i (m (node_item n)) (indices st) then Inr () else Inl Logic_error)"
    and "snd (modify ks i m st) = Inr () \<Longrightarrow>
       contents (fst (modify ks i m st)) = (contents st)(i \<mapsto> m (node_item n)) \<and>
       next_id (fst (modify ks i m st)) = next_id st"
proof -
  have d: "distinct (map fst (indices st))"
    using wf by (simp add: wf_index_def)
  show "snd (modify ks i m st) = (if unique_in ks i (m (node_item n)) (indices st) then Inr () else Inl Logic_error)"
    by (rule modify_cases[OF n, of ks m]) (simp_all add: Let_def unique_in_set_node[OF d])
  show "contents (fst (modify ks i m st)) = (contents st)(i \<mapsto> m (node_item n)) \<and>
       next_id (fst (modify ks i m st)) = next_id st" if "snd (modify ks i m st) = Inr ()"
    by (rule modify_cases[OF n, of ks m])
      (use that in \<open>auto simp: Let_def contents_overwrite[OF n] split: if_splits\<close>)
qed

text \<open>The new state of a \<open>modify\<close> that returns.\<close>

definition modify_ok :: "('v \<Rightarrow> 'k) list \<Rightarrow> nat \<Rightarrow> ('v \<Rightarrow> 'v) \<Rightarrow> 'v undo_index \<Rightarrow> 'v undo_index result" where
  "modify_ok ks i m st = (case modify ks i m st of (st', Inr _) \<Rightarrow> Inr st' | (_, Inl e) \<Rightarrow> Inl e)"

lemma modify_ok_Inr: "modify_ok ks i m st = Inr st' \<longleftrightarrow> modify ks i m st = (st', Inr ())"
  by (auto simp: modify_ok_def split: prod.splits sum.splits)

lemma refine_modify:
  assumes inv: "inv_index ks st"
  shows "map_sum id (abs_index ks) (modify_ok ks i m st) = spec_modify ks i m (abs_index ks st)"
    and "modify_ok ks i m st = Inr st' \<Longrightarrow> inv_index ks st'"
proof -
  note wf = inv_wf[OF inv]
  have d: "distinct (map fst (indices st))"
    using wf by (simp add: wf_index_def)
  show "map_sum id (abs_index ks) (modify_ok ks i m st) = spec_modify ks i m (abs_index ks st)"
  proof (cases "map_of (indices st) i")
    case None
    then show ?thesis
      by (simp add: modify_ok_def modify_def spec_modify_def abs_index_def contents_def)
  next
    case (Some n)
    then have c: "contents st i = Some (node_item n)"
      by (simp add: contents_def)
    obtain st' r where m: "modify ks i m st = (st', r)"
      by (cases "modify ks i m st")
    show ?thesis
    proof (cases "unique_in ks i (m (node_item n)) (indices st)")
      case True
      then have r: "r = Inr ()"
        using modify_result(1)[OF wf Some, of m] m by simp
      have same: "same_base ks st st'"
        using modify_same_base[OF inv] m r by simp
      have "contents st' = (contents st)(i \<mapsto> m (node_item n)) \<and> next_id st' = next_id st"
        using modify_result(2)[OF wf Some, of m] m r by simp
      moreover have "snapshots ks st' = snapshots ks st" "revision st' = revision st"
        using snapshots_same_base[OF inv same] same by (simp_all add: same_base_def)
      ultimately show ?thesis
        using True c m r by (auto simp: modify_ok_def spec_modify_def abs_index_def unique_in_contents[OF d])
    next
      case False
      then show ?thesis
        using modify_result(1)[OF wf Some, of m] m c
        by (auto simp: modify_ok_def spec_modify_def abs_index_def unique_in_contents[OF d])
    qed
  qed
  show "modify_ok ks i m st = Inr st' \<Longrightarrow> inv_index ks st'"
    using same_base_inv[OF inv modify_same_base[OF inv]] by (simp add: modify_ok_Inr)
qed

lemma snapshots_monotonic: "snapshots ks (st\<lparr>monotonic_revision := k\<rparr>) = snapshots ks st"
proof (induction ks st rule: snapshots.induct)
  case (1 ks st)
  show ?case
  proof (cases "undo_stack st")
    case (Cons s stack)
    then show ?thesis
      using 1 by (simp add: snapshots_Cons[of _ s stack] undo_monotonic contents_def)
  qed simp
qed

lemma refine_add_session:
  assumes inv: "inv_index ks st"
  shows "abs_index ks (add_session st) = spec_add_session (abs_index ks st)"
  using undo_add_session[OF inv] snapshots_monotonic[of ks _ st]
  by (simp add: abs_index_def spec_add_session_def snapshots_Cons[OF undo_stack_add_session] contents_def)

lemma refine_undo: "abs_index ks (undo ks st) = spec_undo (abs_index ks st)"
proof (cases "undo_stack st")
  case Nil
  then show ?thesis by (simp add: undo_Nil abs_index_def spec_undo_def)
next
  case (Cons s stack)
  then show ?thesis
    by (simp add: abs_index_def spec_undo_def snapshots_Cons undo_fields)
qed

lemma refine_undo_all: "abs_index ks (undo_all ks st) = spec_undo_all (abs_index ks st)"
proof (induction ks st rule: undo_all.induct)
  case (1 ks st)
  show ?case
  proof (cases "undo_stack st")
    case Nil
    then show ?thesis by (subst undo_all.simps) (simp add: abs_index_def spec_undo_all_def)
  next
    case (Cons s stack)
    have "saved (abs_index ks (undo ks st)) = [] \<longleftrightarrow> undo_stack (undo ks st) = []"
      by (metis abs_index_def length_0_conv length_snapshots snapshot_store.select_convs(3))
    then show ?thesis
      using 1 Cons by (subst undo_all.simps)
        (auto simp: spec_undo_all_def abs_index_def snapshots_Cons undo_fields)
  qed
qed

lemma inv_undo_all: "inv_index ks st \<Longrightarrow> inv_index ks (undo_all ks st)"
proof (induction ks st rule: undo_all.induct)
  case (1 ks st)
  then show ?case
    by (cases "undo_stack st = []"; subst undo_all.simps) (simp_all add: inv_undo)
qed

lemma squash_one:
  "undo_stack st = [s] \<Longrightarrow>
     squash st = st\<lparr>old_values := [], removed_values := [], undo_stack := [], revision := revision st - 1\<rparr>"
  by (simp add: squash_def squash_and_compress_def squash_fast_def dispose_undo_def)

lemma squash_Nil: "undo_stack st = [] \<Longrightarrow> squash st = st"
  by (simp add: squash_def squash_and_compress_def squash_fast_def)

lemma refine_squash:
  assumes inv: "inv_index ks st"
  shows "abs_index ks (squash st) = spec_squash (abs_index ks st)" and "inv_index ks (squash st)"
proof -
  have "abs_index ks (squash st) = spec_squash (abs_index ks st) \<and> inv_index ks (squash st)"
  proof (cases "undo_stack st")
    case Nil
    then show ?thesis
      using inv by (simp add: squash_Nil spec_squash_def abs_index_def)
  next
    case (Cons s1 stack)
    show ?thesis
    proof (cases stack)
      case Nil
      then have "undo_stack (undo ks st) = []"
        using Cons by (simp add: undo_fields)
      then show ?thesis
        using Cons Nil inv_wf[OF inv]
        by (simp add: squash_one spec_squash_def abs_index_def snapshots_Cons contents_def inv_Nil wf_index_def)
    next
      case (Cons s2 rest)
      then have two: "two_sessions ks st s1 s2 rest"
        using inv \<open>undo_stack st = s1 # stack\<close> by (simp add: two_sessions_def)
      have stk: "undo_stack (squash st) = s2 # rest" and f: "contents (squash st) = contents st"
        "next_id (squash st) = next_id st" "revision (squash st) = revision st - 1"
        by (simp_all add: squash_two[OF two] contents_def)
      have "snapshots ks (squash st) = snapshots ks (undo ks st)"
        by (simp add: snapshots_Cons[OF stk] undo_squash[OF two] snapshots_Cons[OF two_sessionsD(6)[OF two]])
      then have "abs_index ks (squash st) = spec_squash (abs_index ks st)"
        by (simp add: abs_index_def spec_squash_def f snapshots_Cons[OF \<open>undo_stack st = s1 # stack\<close>])
      moreover have "inv_index ks (squash st)"
        using wf_squash[OF two] top_squash[OF two] inv_undo[OF two_sessionsD(5)[OF two]]
        by (simp add: inv_Cons[OF stk] undo_squash[OF two])
      ultimately show ?thesis ..
    qed
  qed
  then show "abs_index ks (squash st) = spec_squash (abs_index ks st)" "inv_index ks (squash st)"
    by simp_all
qed

lemma cut_stack_sessions:
  assumes "inv_index ks st" "k \<le> length (undo_stack st)" "0 < k \<Longrightarrow> b = undo_stack st ! (k - 1)"
  shows "inv_index ks (cut_stack b k st) \<and> snapshots ks (cut_stack b k st) = take k (snapshots ks st)"
  using assms
proof (induction k arbitrary: st)
  case 0
  then show ?case by (simp add: inv_Nil wf_cut_stack inv_wf)
next
  case (Suc k)
  obtain s stack where stk: "undo_stack st = s # stack"
    using Suc.prems(2) by (cases "undo_stack st") auto
  have b: "b \<in> set (s # stack)"
    using Suc.prems(2,3) stk by (metis Suc_le_lessD diff_Suc_1 nth_mem zero_less_Suc)
  note u = undo_cut_stack[OF Suc.prems(1) stk b, of k]
  have "inv_index ks (cut_stack b k (undo ks st)) \<and>
      snapshots ks (cut_stack b k (undo ks st)) = take k (snapshots ks (undo ks st))"
    using Suc.prems by (intro Suc.IH) (auto simp: inv_undo undo_fields[OF stk] stk)
  moreover have stk': "undo_stack (cut_stack b (Suc k) st) = s # take k stack"
    by (simp add: stk)
  ultimately show ?case
    using cut_stack_top(1)[OF Suc.prems(1) stk b, of k] wf_cut_stack[OF inv_wf[OF Suc.prems(1)]]
    by (simp add: inv_Cons[OF stk'] snapshots_Cons[OF stk'] snapshots_Cons[OF stk] u contents_def)
qed

lemma refine_commit:
  assumes inv: "inv_index ks st"
  shows "abs_index ks (commit r st) = spec_commit r (abs_index ks st)" and "inv_index ks (commit r st)"
proof -
  let ?k = "nat (revision st - r)"
  have "abs_index ks (commit r st) = spec_commit r (abs_index ks st) \<and> inv_index ks (commit r st)"
  proof (cases "revision st \<le> r")
    case True
    then have c: "commit r st = (dispose_undo st)\<lparr>undo_stack := []\<rparr>"
      by (simp add: commit_def min_def Let_def)
    have "wf_index ks (commit r st)"
      using inv_wf[OF inv] by (simp add: c dispose_undo_def wf_index_def)
    then show ?thesis
      using True by (simp add: c dispose_undo_def inv_Nil abs_index_def spec_commit_def contents_def)
  next
    case False
    then have c: "commit r st = (if ?k < length (undo_stack st) then cut_stack (last (take ?k (undo_stack st))) ?k st else st)"
      by (simp add: commit_def min_def Let_def cut_stack_def)
    have "last (take ?k (undo_stack st)) = undo_stack st ! (?k - 1)" if "?k < length (undo_stack st)"
      using that False by (subst last_conv_nth) auto
    then show ?thesis
      using False inv cut_stack_sessions[OF inv, of ?k "last (take ?k (undo_stack st))"]
      by (auto simp: c abs_index_def spec_commit_def contents_def)
  qed
  then show "abs_index ks (commit r st) = spec_commit r (abs_index ks st)" "inv_index ks (commit r st)"
    by simp_all
qed

section \<open>Refinement of runs\<close>

datatype 'v cmd =
    Emplace "nat \<Rightarrow> 'v"
  | Modify nat "'v \<Rightarrow> 'v"
  | Remove nat
  | Add_session
  | Undo
  | Undo_all
  | Squash
  | Commit int

fun exec_cmd :: "('v \<Rightarrow> 'k) list \<Rightarrow> 'v cmd \<Rightarrow> 'v undo_index \<Rightarrow> 'v undo_index result" where
  "exec_cmd ks (Emplace c) st = emplace ks c st"
| "exec_cmd ks (Modify i m) st = modify_ok ks i m st"
| "exec_cmd ks (Remove i) st = Inr (remove i st)"
| "exec_cmd ks Add_session st = Inr (add_session st)"
| "exec_cmd ks Undo st = Inr (undo ks st)"
| "exec_cmd ks Undo_all st = Inr (undo_all ks st)"
| "exec_cmd ks Squash st = Inr (squash st)"
| "exec_cmd ks (Commit r) st = Inr (commit r st)"

fun spec_cmd :: "('v \<Rightarrow> 'k) list \<Rightarrow> 'v cmd \<Rightarrow> 'v snapshot_store \<Rightarrow> 'v snapshot_store result" where
  "spec_cmd ks (Emplace c) sp = spec_emplace ks c sp"
| "spec_cmd ks (Modify i m) sp = spec_modify ks i m sp"
| "spec_cmd ks (Remove i) sp = Inr (spec_remove i sp)"
| "spec_cmd ks Add_session sp = Inr (spec_add_session sp)"
| "spec_cmd ks Undo sp = Inr (spec_undo sp)"
| "spec_cmd ks Undo_all sp = Inr (spec_undo_all sp)"
| "spec_cmd ks Squash sp = Inr (spec_squash sp)"
| "spec_cmd ks (Commit r) sp = Inr (spec_commit r sp)"

lemma refine_cmd:
  assumes "inv_index ks st"
  shows "map_sum id (abs_index ks) (exec_cmd ks c st) = spec_cmd ks c (abs_index ks st)"
    and "exec_cmd ks c st = Inr st' \<Longrightarrow> inv_index ks st'"
proof -
  show "map_sum id (abs_index ks) (exec_cmd ks c st) = spec_cmd ks c (abs_index ks st)"
    by (cases c) (simp_all only: exec_cmd.simps spec_cmd.simps map_sum.simps refine_emplace(1)[OF assms]
        refine_modify(1)[OF assms] refine_remove(1)[OF assms] refine_add_session[OF assms] refine_undo
        refine_undo_all refine_squash(1)[OF assms] refine_commit(1)[OF assms])
  show "inv_index ks st'" if "exec_cmd ks c st = Inr st'"
    using that by (cases c) (auto intro: refine_emplace(2)[OF assms] refine_modify(2)[OF assms] refine_remove(2)[OF assms]
        inv_add_session[OF assms] inv_undo[OF assms] inv_undo_all[OF assms] refine_squash(2)[OF assms]
        refine_commit(2)[OF assms])
qed

lemma refine_run:
  assumes "inv_index ks st"
  shows "map_sum id (abs_index ks) (fold_res (exec_cmd ks) cs st) = fold_res (spec_cmd ks) cs (abs_index ks st)"
    and "fold_res (exec_cmd ks) cs st = Inr st' \<Longrightarrow> inv_index ks st'"
  using assms
proof (induction cs arbitrary: st)
  case (Cons c cs)
  { case 1
    show ?case
      using Cons.IH(1) refine_cmd(2)[OF 1, of c]
      by (cases "exec_cmd ks c st") (simp_all add: refine_cmd(1)[OF 1, of c, symmetric])
  next
    case 2
    then show ?case
      using Cons.IH(2) refine_cmd(2)[of ks st c] by (cases "exec_cmd ks c st") auto
  }
qed auto

text \<open>
  C1. For every sequence of creations, modifications, removals, session starts, undos, squashes
  and commits on an empty undo index, the index shows the same objects, the same next id, the
  same revision and the same states to go back to as a store that copies the whole table at
  each session start; and a creation or modification fails on one exactly when it fails on the other.
\<close>

theorem undo_index_refines_snapshots:
  "map_sum id (abs_index ks) (fold_res (exec_cmd ks) cs empty_index) = fold_res (spec_cmd ks) cs spec_empty"
  using refine_run(1)[OF refine_empty(1)] by (simp add: refine_empty(2))

text \<open>
  Undoing after a squash takes back both merged sessions: the same index as two undos.
\<close>

theorem undo_after_squash:
  assumes "fold_res (exec_cmd ks) cs empty_index = Inr st" and "2 \<le> length (undo_stack st)"
  shows "undo ks (squash st) = undo ks (undo ks st)"
proof -
  have "inv_index ks st"
    using refine_run(2)[OF refine_empty(1) assms(1)] .
  moreover obtain s1 s2 rest where "undo_stack st = s1 # s2 # rest"
    using assms(2) by (cases "undo_stack st"; cases "tl (undo_stack st)") auto
  ultimately show ?thesis
    by (intro undo_squash) (simp add: two_sessions_def)
qed

definition squash_run :: "nat cmd list" where
  "squash_run = [Emplace (\<lambda>i. 5), Add_session, Modify 0 (\<lambda>v. v + 1), Add_session, Modify 0 (\<lambda>v. v + 2), Remove 0]"

theorem undo_after_squash_witness:
  "\<exists>st. fold_res (exec_cmd [\<lambda>v. v]) squash_run empty_index = Inr st \<and> length (undo_stack st) = 2 \<and>
     find_object 0 st = None \<and> find_object 0 (undo [\<lambda>v. v] (squash st)) = Some 5 \<and>
     undo [\<lambda>v. v] (squash st) = undo [\<lambda>v. v] (undo [\<lambda>v. v] st)"
proof -
  let ?ks = "[\<lambda>v. v] :: (nat \<Rightarrow> nat) list"
  define st where "st = projr (fold_res (exec_cmd ?ks) squash_run empty_index)"
  have run: "fold_res (exec_cmd ?ks) squash_run empty_index = Inr st" and len: "length (undo_stack st) = 2"
    and find: "find_object 0 st = None" "find_object 0 (undo ?ks (squash st)) = Some 5"
    unfolding st_def by code_simp+
  with undo_after_squash[OF run] show ?thesis by auto
qed


end
