(* ===== verification/Chain_Database.thy ===== *)
theory Chain_Database
  imports Undo_Refinement
begin

text \<open>
  The database of chainbase (\<^verbatim>\<open>chainbase.hpp\<close>, \<^verbatim>\<open>chainbase.cpp\<close>): a list of undo indices, each with a
  type id, whose sessions are opened, merged, undone and committed together. The contract an
  index keeps towards the database is the locale \<open>undo_store\<close>; the undo index interprets it.

  Representation. The map from type ids to indices is the list itself, searched by type id.
  The indices hold values of one type, which stands for the union of the object types. A
  session of the database is the list of the flags of its index sessions, in the order of
  the indices. What the mapped file holds under the name of an index, and whether its
  layout is valid, are arguments of \<open>add_index\<close>.
\<close>

section \<open>The class\<close>

record ('v, 'k) db_index =
  db_type_id :: nat
  db_keys :: "('v \<Rightarrow> 'k) list"
  db_base :: "'v undo_index"

record ('v, 'k) database =
  index_list :: "('v, 'k) db_index list"
  db_read_only :: bool

definition on_base ::
  "(('v \<Rightarrow> 'k) list \<Rightarrow> 'v undo_index \<Rightarrow> 'v undo_index) \<Rightarrow> ('v, 'k) db_index \<Rightarrow> ('v, 'k) db_index" where
  "on_base f x = x\<lparr>db_base := f (db_keys x) (db_base x)\<rparr>"

definition index_undo :: "('v, 'k) db_index \<Rightarrow> ('v, 'k) db_index" where
  "index_undo = on_base undo"

definition index_squash :: "('v, 'k) db_index \<Rightarrow> ('v, 'k) db_index" where
  "index_squash = on_base (\<lambda>_. squash)"

definition index_commit :: "int \<Rightarrow> ('v, 'k) db_index \<Rightarrow> ('v, 'k) db_index" where
  "index_commit r = on_base (\<lambda>_. commit r)"

definition index_undo_all :: "('v, 'k) db_index \<Rightarrow> ('v, 'k) db_index" where
  "index_undo_all = on_base undo_all"

definition index_add_session :: "('v, 'k) db_index \<Rightarrow> ('v, 'k) db_index" where
  "index_add_session = on_base (\<lambda>_. add_session)"

definition db_undo :: "('v, 'k) database \<Rightarrow> ('v, 'k) database" where
  "db_undo db = db\<lparr>index_list := map index_undo (index_list db)\<rparr>"

definition db_squash :: "('v, 'k) database \<Rightarrow> ('v, 'k) database" where
  "db_squash db = db\<lparr>index_list := map index_squash (index_list db)\<rparr>"

definition db_commit :: "int \<Rightarrow> ('v, 'k) database \<Rightarrow> ('v, 'k) database" where
  "db_commit r db = db\<lparr>index_list := map (index_commit r) (index_list db)\<rparr>"

definition db_undo_all :: "('v, 'k) database \<Rightarrow> ('v, 'k) database" where
  "db_undo_all db = db\<lparr>index_list := map index_undo_all (index_list db)\<rparr>"

definition db_start_undo_session :: "bool \<Rightarrow> ('v, 'k) database \<Rightarrow> bool list \<times> ('v, 'k) database" where
  "db_start_undo_session enabled db =
     (if enabled then
        (map (\<lambda>_. True) (index_list db), db\<lparr>index_list := map index_add_session (index_list db)\<rparr>)
      else ([], db))"

definition over_sessions :: "('a \<Rightarrow> 'a) \<Rightarrow> bool list \<Rightarrow> 'a list \<Rightarrow> 'a list" where
  "over_sessions f flags xs =
     map2 (\<lambda>flag x. if flag then f x else x) flags xs @ drop (length flags) xs"

definition db_session_push :: "bool list \<times> ('v, 'k) database \<Rightarrow> bool list \<times> ('v, 'k) database" where
  "db_session_push s = ([], snd s)"

definition db_session_squash :: "bool list \<times> ('v, 'k) database \<Rightarrow> bool list \<times> ('v, 'k) database" where
  "db_session_squash s = ([], (snd s)\<lparr>index_list := over_sessions index_squash (fst s) (index_list (snd s))\<rparr>)"

definition db_session_undo :: "bool list \<times> ('v, 'k) database \<Rightarrow> bool list \<times> ('v, 'k) database" where
  "db_session_undo s = ([], (snd s)\<lparr>index_list := over_sessions index_undo (fst s) (index_list (snd s))\<rparr>)"

definition db_revision :: "('v, 'k) database \<Rightarrow> int" where
  "db_revision db = (case index_list db of [] \<Rightarrow> - 1 | x # _ \<Rightarrow> revision (db_base x))"

text \<open>An exception leaves the indices before the failing one with the new revision.\<close>

fun set_revisions :: "nat \<Rightarrow> ('v, 'k) db_index list \<Rightarrow> ('v, 'k) db_index list \<times> unit result" where
  "set_revisions r [] = ([], Inr ())"
| "set_revisions r (x # xs) =
     (case set_revision r (db_base x) of
        Inl e \<Rightarrow> (x # xs, Inl e)
      | Inr b \<Rightarrow> (let (ys, res) = set_revisions r xs in (x\<lparr>db_base := b\<rparr> # ys, res)))"

definition db_set_revision :: "nat \<Rightarrow> ('v, 'k) database \<Rightarrow> ('v, 'k) database \<times> unit result" where
  "db_set_revision r db = (let (xs, res) = set_revisions r (index_list db) in (db\<lparr>index_list := xs\<rparr>, res))"

function push_sessions :: "int \<Rightarrow> 'v undo_index \<Rightarrow> 'v undo_index" where
  "push_sessions target st =
     (if revision st < target then push_sessions target (snd (session_push (session_start True st))) else st)"
  by pat_completeness auto
termination
  by (relation "measure (\<lambda>(target, st). nat (target - revision st))")
    (auto simp: session_push_def session_start_def)

declare push_sessions.simps [simp del]

definition align_index ::
  "bool \<Rightarrow> bool \<Rightarrow> ('v, 'k) db_index list \<Rightarrow> 'v undo_index \<Rightarrow> 'v undo_index result" where
  "align_index read_only first_time_adding xs idx =
     (case xs of
        [] \<Rightarrow> Inr idx
      | x # _ \<Rightarrow>
          (let expected = undo_stack_revision_range (db_base x) in
           if undo_stack_revision_range idx = expected then Inr idx
           else if \<not> first_time_adding then Inl Logic_error
           else if read_only then Inl Logic_error
           else bind_res (set_revision (nat (fst expected mod 2 ^ 64)) idx)
                  (\<lambda>idx1. Inr (push_sessions (snd expected) idx1))))"

definition add_index ::
  "nat \<Rightarrow> ('v \<Rightarrow> 'k) list \<Rightarrow> 'v undo_index option \<Rightarrow> bool \<Rightarrow> ('v, 'k) database \<Rightarrow> ('v, 'k) database result" where
  "add_index tid ks stored layout_ok db =
     (if tid \<in> set (map db_type_id (index_list db)) then Inl Logic_error
      else if stored = None \<and> db_read_only db then Inl Runtime_error
      else if \<not> layout_ok then Inl Runtime_error
      else
        bind_res (align_index (db_read_only db) (stored = None) (index_list db)
                    (case stored of None \<Rightarrow> empty_index | Some idx \<Rightarrow> idx))
          (\<lambda>idx. Inr (db\<lparr>index_list :=
                         index_list db @ [\<lparr>db_type_id = tid, db_keys = ks, db_base = idx\<rparr>]\<rparr>)))"

definition get_index :: "nat \<Rightarrow> ('v, 'k) database \<Rightarrow> ('v, 'k) db_index option" where
  "get_index tid db = find (\<lambda>x. db_type_id x = tid) (index_list db)"

definition put_base :: "nat \<Rightarrow> 'v undo_index \<Rightarrow> ('v, 'k) database \<Rightarrow> ('v, 'k) database" where
  "put_base tid b db =
     db\<lparr>index_list := map (\<lambda>x. if db_type_id x = tid then x\<lparr>db_base := b\<rparr> else x) (index_list db)\<rparr>"

definition db_find :: "nat \<Rightarrow> nat \<Rightarrow> ('v, 'k) database \<Rightarrow> 'v option result" where
  "db_find tid i db =
     (case get_index tid db of None \<Rightarrow> Inl Assert_failure | Some x \<Rightarrow> Inr (find_object i (db_base x)))"

definition db_get :: "nat \<Rightarrow> nat \<Rightarrow> ('v, 'k) database \<Rightarrow> 'v result" where
  "db_get tid i db =
     bind_res (db_find tid i db) (\<lambda>r. case r of None \<Rightarrow> Inl Out_of_range | Some v \<Rightarrow> Inr v)"

definition db_create :: "nat \<Rightarrow> (nat \<Rightarrow> 'v) \<Rightarrow> ('v, 'k) database \<Rightarrow> ('v, 'k) database result" where
  "db_create tid c db =
     (case get_index tid db of
        None \<Rightarrow> Inl Assert_failure
      | Some x \<Rightarrow> bind_res (emplace (db_keys x) c (db_base x)) (\<lambda>b. Inr (put_base tid b db)))"

definition db_modify :: "nat \<Rightarrow> nat \<Rightarrow> ('v \<Rightarrow> 'v) \<Rightarrow> ('v, 'k) database \<Rightarrow> ('v, 'k) database \<times> unit result" where
  "db_modify tid i m db =
     (case get_index tid db of
        None \<Rightarrow> (db, Inl Assert_failure)
      | Some x \<Rightarrow> (let (b, res) = modify (db_keys x) i m (db_base x) in (put_base tid b db, res)))"

definition db_remove :: "nat \<Rightarrow> nat \<Rightarrow> ('v, 'k) database \<Rightarrow> ('v, 'k) database result" where
  "db_remove tid i db =
     (case get_index tid db of
        None \<Rightarrow> Inl Assert_failure
      | Some x \<Rightarrow> Inr (put_base tid (remove i (db_base x)) db))"

text \<open>The commands on objects that run between the start and the end of a session.\<close>

datatype 'v db_cmd =
    Db_create nat "nat \<Rightarrow> 'v"
  | Db_modify nat nat "'v \<Rightarrow> 'v"
  | Db_remove nat nat

fun exec_db :: "'v db_cmd \<Rightarrow> ('v, 'k) database \<Rightarrow> ('v, 'k) database result" where
  "exec_db (Db_create tid c) db = db_create tid c db"
| "exec_db (Db_modify tid i m) db =
     (case db_modify tid i m db of (db', Inr _) \<Rightarrow> Inr db' | (_, Inl e) \<Rightarrow> Inl e)"
| "exec_db (Db_remove tid i) db = db_remove tid i db"

section \<open>The contract of an index towards the database\<close>

definition lockstep :: "('s \<Rightarrow> 'v snapshot_store) \<Rightarrow> 's list \<Rightarrow> bool" where
  "lockstep view xs \<longleftrightarrow>
     (\<forall>x \<in> set xs. \<forall>y \<in> set xs. rev_no (view x) = rev_no (view y) \<and>
        length (saved (view x)) = length (saved (view y)))"

locale undo_store =
  fixes ok :: "'s \<Rightarrow> bool" and view :: "'s \<Rightarrow> 'v snapshot_store"
    and undo_s squash_s undo_all_s add_s :: "'s \<Rightarrow> 's" and commit_s :: "int \<Rightarrow> 's \<Rightarrow> 's"
  assumes ok_undo: "ok s \<Longrightarrow> ok (undo_s s)" and view_undo: "ok s \<Longrightarrow> view (undo_s s) = spec_undo (view s)"
    and ok_squash: "ok s \<Longrightarrow> ok (squash_s s)" and view_squash: "ok s \<Longrightarrow> view (squash_s s) = spec_squash (view s)"
    and ok_undo_all: "ok s \<Longrightarrow> ok (undo_all_s s)"
    and view_undo_all: "ok s \<Longrightarrow> view (undo_all_s s) = spec_undo_all (view s)"
    and ok_add: "ok s \<Longrightarrow> ok (add_s s)" and view_add: "ok s \<Longrightarrow> view (add_s s) = spec_add_session (view s)"
    and ok_commit: "ok s \<Longrightarrow> ok (commit_s r s)" and view_commit: "ok s \<Longrightarrow> view (commit_s r s) = spec_commit r (view s)"
begin

lemma rollback_one:
  assumes "ok s" "ok t" "saved (view t) = saved (view (add_s s))" "rev_no (view t) = rev_no (view (add_s s))"
  shows "view (undo_s t) = view s"
  using assms by (simp add: view_undo view_add spec_undo_def spec_add_session_def)

lemma rollback_all:
  assumes "list_all2 (\<lambda>s t. ok s \<and> ok t \<and> saved (view t) = saved (view (add_s s)) \<and>
             rev_no (view t) = rev_no (view (add_s s))) ss ts"
  shows "map view (map undo_s ts) = map view ss"
  using assms by (induction rule: list_all2_induct) (simp_all add: rollback_one)

lemma lockstep_map:
  assumes "lockstep view xs" "list_all ok xs" "\<And>s. ok s \<Longrightarrow> view (f s) = g (view s)"
    and "\<And>a b. rev_no a = rev_no b \<Longrightarrow> length (saved a) = length (saved b) \<Longrightarrow>
       rev_no (g a) = rev_no (g b) \<and> length (saved (g a)) = length (saved (g b))"
  shows "lockstep view (map f xs)"
proof -
  have "rev_no (view (f x)) = rev_no (view (f y)) \<and> length (saved (view (f x))) = length (saved (view (f y)))"
    if "x \<in> set xs" "y \<in> set xs" for x y
  proof -
    have "ok x" "ok y"
      using assms(2) that by (simp_all add: list_all_iff)
    moreover have "rev_no (view x) = rev_no (view y)" "length (saved (view x)) = length (saved (view y))"
      using assms(1) that unfolding lockstep_def by blast+
    ultimately show ?thesis
      using assms(4)[of "view x" "view y"] by (simp only: assms(3))
  qed
  then show ?thesis
    unfolding lockstep_def set_map by blast
qed

lemma lockstep_undo: "lockstep view xs \<Longrightarrow> list_all ok xs \<Longrightarrow> lockstep view (map undo_s xs)"
  by (rule lockstep_map[where g = "spec_undo"]) (auto simp: view_undo spec_undo_def split: list.splits)

lemma lockstep_squash: "lockstep view xs \<Longrightarrow> list_all ok xs \<Longrightarrow> lockstep view (map squash_s xs)"
  by (rule lockstep_map[where g = "spec_squash"]) (auto simp: view_squash spec_squash_def split: list.splits)

lemma lockstep_undo_all: "lockstep view xs \<Longrightarrow> list_all ok xs \<Longrightarrow> lockstep view (map undo_all_s xs)"
  by (rule lockstep_map[where g = "spec_undo_all"]) (auto simp: view_undo_all spec_undo_all_def)

lemma lockstep_add: "lockstep view xs \<Longrightarrow> list_all ok xs \<Longrightarrow> lockstep view (map add_s xs)"
  by (rule lockstep_map[where g = "spec_add_session"]) (auto simp: view_add spec_add_session_def)

lemma lockstep_commit: "lockstep view xs \<Longrightarrow> list_all ok xs \<Longrightarrow> lockstep view (map (commit_s r) xs)"
  by (rule lockstep_map[where g = "spec_commit r"]) (auto simp: view_commit spec_commit_def)

end

definition index_ok :: "('v, 'k) db_index \<Rightarrow> bool" where
  "index_ok x = inv_index (db_keys x) (db_base x)"

definition index_view :: "('v, 'k) db_index \<Rightarrow> 'v snapshot_store" where
  "index_view x = abs_index (db_keys x) (db_base x)"

interpretation idx: undo_store index_ok index_view index_undo index_squash index_undo_all index_add_session index_commit
  by unfold_locales
    (simp_all add: index_ok_def index_view_def index_undo_def index_squash_def index_undo_all_def
      index_add_session_def index_commit_def on_base_def inv_undo inv_undo_all inv_add_session
      refine_undo refine_squash refine_undo_all refine_add_session refine_commit)

section \<open>The database keeps its indices together\<close>

definition db_ok :: "('v, 'k) database \<Rightarrow> bool" where
  "db_ok db \<longleftrightarrow> list_all index_ok (index_list db) \<and> lockstep index_view (index_list db) \<and>
     distinct (map db_type_id (index_list db))"

lemma db_type_id_index [simp]:
  "db_type_id (index_undo x) = db_type_id x" "db_type_id (index_squash x) = db_type_id x"
  "db_type_id (index_commit r x) = db_type_id x" "db_type_id (index_undo_all x) = db_type_id x"
  "db_type_id (index_add_session x) = db_type_id x"
  by (simp_all add: index_undo_def index_squash_def index_commit_def index_undo_all_def
      index_add_session_def on_base_def)

lemma db_ok_map:
  assumes "db_ok db" "lockstep index_view (map f (index_list db))" "\<And>x. index_ok x \<Longrightarrow> index_ok (f x)"
    "\<And>x. db_type_id (f x) = db_type_id x"
  shows "db_ok (db\<lparr>index_list := map f (index_list db)\<rparr>)"
proof -
  have "db_type_id \<circ> f = db_type_id"
    using assms(4) by (simp add: fun_eq_iff)
  then show ?thesis
    using assms(1-3) by (simp add: db_ok_def list_all_iff)
qed

lemmas index_laws = idx.ok_undo idx.ok_squash idx.ok_undo_all idx.ok_add idx.ok_commit
  idx.lockstep_undo idx.lockstep_squash idx.lockstep_undo_all idx.lockstep_add idx.lockstep_commit

definition kept_base :: "('v, 'k) db_index \<Rightarrow> ('v, 'k) db_index \<Rightarrow> bool" where
  "kept_base x y \<longleftrightarrow> db_type_id y = db_type_id x \<and> index_ok y \<and>
     saved (index_view y) = saved (index_view x) \<and> rev_no (index_view y) = rev_no (index_view x)"

lemma kept_base_same_base:
  assumes "index_ok x" "same_base (db_keys x) (db_base x) b"
  shows "kept_base x (x\<lparr>db_base := b\<rparr>)"
  using assms same_base_inv[of "db_keys x" "db_base x" b] snapshots_same_base[of "db_keys x" "db_base x" b]
  by (simp add: kept_base_def index_ok_def index_view_def abs_index_def same_base_def)

lemma put_base_kept:
  assumes ok: "db_ok db" and x: "get_index tid db = Some x" and same: "same_base (db_keys x) (db_base x) b"
  shows "list_all2 kept_base (index_list db) (index_list (put_base tid b db))"
proof -
  have mem: "x \<in> set (index_list db)" "db_type_id x = tid"
    using x by (auto simp: get_index_def find_Some_iff)
  have "kept_base y (if db_type_id y = tid then y\<lparr>db_base := b\<rparr> else y)" if y: "y \<in> set (index_list db)" for y
  proof (cases "db_type_id y = tid")
    case True
    then have "y = x"
      using ok y mem by (auto simp: db_ok_def distinct_map inj_on_def)
    then show ?thesis
      using True ok y same kept_base_same_base[of x b] by (simp add: db_ok_def list_all_iff)
  next
    case False
    then show ?thesis
      using ok y by (simp add: db_ok_def list_all_iff kept_base_def)
  qed
  then show ?thesis
    by (simp add: put_base_def list_all2_conv_all_nth)
qed

lemma exec_db_kept:
  assumes ok: "db_ok db" and e: "exec_db c db = Inr db'"
  shows "list_all2 kept_base (index_list db) (index_list db')"
proof -
  have inv: "inv_index (db_keys x) (db_base x)" if "get_index tid db = Some x" for tid x
    using ok that by (auto simp: get_index_def find_Some_iff db_ok_def list_all_iff index_ok_def)
  show ?thesis
  proof (cases c)
    case (Db_create tid con)
    then obtain x b where "get_index tid db = Some x" "emplace (db_keys x) con (db_base x) = Inr b" "db' = put_base tid b db"
      using e by (auto simp: db_create_def bind_res_eq_Inr split: option.splits)
    then show ?thesis
      using put_base_kept[OF ok] emplace_same_base[OF inv] by metis
  next
    case (Db_modify tid i m)
    then obtain x b where "get_index tid db = Some x" "modify (db_keys x) i m (db_base x) = (b, Inr ())" "db' = put_base tid b db"
      using e by (auto simp: db_modify_def split: option.splits prod.splits sum.splits)
    then show ?thesis
      using put_base_kept[OF ok] modify_same_base[OF inv] by metis
  next
    case (Db_remove tid i)
    then obtain x where "get_index tid db = Some x" "db' = put_base tid (remove i (db_base x)) db"
      using e by (auto simp: db_remove_def split: option.splits)
    then show ?thesis
      using put_base_kept[OF ok] remove_same_base[OF inv] by metis
  qed
qed

lemma kept_base_db_ok:
  assumes ok: "db_ok db" and k: "list_all2 kept_base (index_list db) (index_list db')"
  shows "db_ok db'"
proof -
  have "list_all2 (\<lambda>x y. db_type_id x = db_type_id y) (index_list db) (index_list db')"
    using k by (rule list_all2_mono) (simp add: kept_base_def)
  then have "map db_type_id (index_list db') = map db_type_id (index_list db)"
    by (induction rule: list_all2_induct) auto
  moreover have "lockstep index_view (index_list db')"
  proof -
    have "\<exists>x \<in> set (index_list db). kept_base x y" if "y \<in> set (index_list db')" for y
      using k that by (metis in_set_conv_nth list_all2_conv_all_nth)
    then show ?thesis
      using ok unfolding db_ok_def lockstep_def kept_base_def by metis
  qed
  moreover have "list_all index_ok (index_list db')"
    using k by (auto simp: list_all_length list_all2_conv_all_nth kept_base_def)
  ultimately show ?thesis
    using ok by (simp add: db_ok_def)
qed

lemma kept_base_trans: "kept_base x y \<Longrightarrow> kept_base y z \<Longrightarrow> kept_base x z"
  by (simp add: kept_base_def)

lemma exec_dbs_kept:
  assumes "db_ok db" "fold_res exec_db cs db = Inr db'"
  shows "list_all2 kept_base (index_list db) (index_list db')"
  using assms
proof (induction cs arbitrary: db)
  case Nil
  then show ?case
    by (auto simp: list_all2_conv_all_nth kept_base_def db_ok_def list_all_length)
next
  case (Cons c cs)
  then obtain db1 where db1: "exec_db c db = Inr db1" "fold_res exec_db cs db1 = Inr db'"
    by (auto simp: bind_res_eq_Inr)
  note k = exec_db_kept[OF Cons.prems(1) db1(1)]
  then have "list_all2 kept_base (index_list db1) (index_list db')"
    using Cons.IH[OF kept_base_db_ok[OF Cons.prems(1)] db1(2)] by simp
  with k show ?case
    by (rule list_all2_trans[rotated]) (rule kept_base_trans)
qed

lemma over_sessions_all: "length flags = length xs \<Longrightarrow> (\<forall>b \<in> set flags. b) \<Longrightarrow> over_sessions f flags xs = map f xs"
proof (induction flags arbitrary: xs)
  case (Cons b flags)
  then show ?case
    by (cases xs) (auto simp: over_sessions_def)
qed (simp add: over_sessions_def)

lemma db_ok_start: "db_ok db \<Longrightarrow> db_ok (snd (db_start_undo_session enabled db))"
  by (auto simp: db_start_undo_session_def intro!: db_ok_map idx.lockstep_add idx.ok_add) (auto simp: db_ok_def)


definition sample_db :: "(nat, nat) database" where
  "sample_db = \<lparr>index_list =
     [\<lparr>db_type_id = 1, db_keys = [\<lambda>v. v], db_base = empty_index\<rparr>, \<lparr>db_type_id = 2, db_keys = [], db_base = empty_index\<rparr>],
     db_read_only = False\<rparr>"

lemma sample_db_ok: "db_ok sample_db"
  by (simp add: db_ok_def sample_db_def index_ok_def index_view_def refine_empty lockstep_def)




lemma push_sessions_code [code]: "push_sessions target st = (add_session ^^ nat (target - revision st)) st"
proof (induction target st rule: push_sessions.induct)
  case (1 target st)
  show ?case
  proof (cases "revision st < target")
    case True
    then have "nat (target - revision st) = Suc (nat (target - revision (add_session st)))"
      by simp
    then have "(add_session ^^ nat (target - revision st)) st
        = (add_session ^^ nat (target - revision (add_session st))) (add_session st)"
      by (simp add: funpow_swap1)
    then show ?thesis
      using 1 True by (subst push_sessions.simps) (simp add: session_push_def session_start_def)
  next
    case False
    then show ?thesis by (subst push_sessions.simps) simp
  qed
qed

lemma push_sessions_range:
  assumes "revision st \<le> target"
  shows "revision (push_sessions target st) = target \<and>
     int (length (undo_stack (push_sessions target st))) = int (length (undo_stack st)) + (target - revision st)"
  using assms
proof (induction target st rule: push_sessions.induct)
  case (1 target st)
  show ?case
  proof (cases "revision st < target")
    case True
    have p: "push_sessions target st = push_sessions target (add_session st)"
      using True by (subst push_sessions.simps) (simp add: session_push_def session_start_def)
    have "revision (push_sessions target (add_session st)) = target \<and>
        int (length (undo_stack (push_sessions target (add_session st))))
          = int (length (undo_stack (add_session st))) + (target - revision (add_session st))"
      using 1 True by (simp add: session_push_def session_start_def)
    then show ?thesis
      by (simp add: p undo_stack_add_session)
  next
    case False
    then show ?thesis
      using 1 by (subst (1 2) push_sessions.simps) simp
  qed
qed

lemma push_sessions_inv: "inv_index ks st \<Longrightarrow> inv_index ks (push_sessions target st)"
proof (induction target st rule: push_sessions.induct)
  case (1 target st)
  then show ?case
    by (subst push_sessions.simps) (simp add: session_push_def session_start_def inv_add_session)
qed

lemma align_index_range:
  assumes a: "align_index ro first_time xs idx = Inr idx'" and xs: "xs = x # rest"
    and fresh: "first_time \<Longrightarrow> undo_stack idx = []"
    and bound: "- (2 ^ 63) \<le> fst (undo_stack_revision_range (db_base x))"
      "fst (undo_stack_revision_range (db_base x)) < 2 ^ 63"
  shows "undo_stack_revision_range idx' = undo_stack_revision_range (db_base x)"
proof (cases "undo_stack_revision_range idx = undo_stack_revision_range (db_base x)")
  case True
  then show ?thesis using a by (simp add: align_index_def xs Let_def)
next
  case False
  let ?e = "undo_stack_revision_range (db_base x)"
  obtain i1 where i1: "set_revision (nat (fst ?e mod 2 ^ 64)) idx = Inr i1" "idx' = push_sessions (snd ?e) i1"
    and first_time
    using a False by (auto simp: align_index_def xs Let_def bind_res_eq_Inr split: if_splits)
  have stk: "undo_stack i1 = []" and r: "revision i1 = fst ?e mod 2 ^ 64" and small: "fst ?e mod 2 ^ 64 \<le> 2 ^ 63 - 1"
    using i1(1) fresh[OF \<open>first_time\<close>] by (auto simp: set_revision_def split: if_splits)
  have "fst ?e mod 2 ^ 64 = fst ?e"
  proof (cases "fst ?e < 0")
    case True
    then have "fst ?e mod 2 ^ 64 = fst ?e + 2 ^ 64"
      using bound by (subst mod_add_self2[symmetric], subst mod_pos_pos_trivial) auto
    then show ?thesis using small bound by simp
  qed (use bound in simp)
  then show ?thesis
    using push_sessions_range[of i1 "snd ?e"] stk r
    by (simp add: i1(2) undo_stack_revision_range_def)
qed

lemma align_index_inv:
  assumes "align_index ro first_time xs idx = Inr idx'" "inv_index ks idx" "first_time \<Longrightarrow> undo_stack idx = []"
  shows "inv_index ks idx'"
proof -
  have "inv_index ks i1" if "set_revision r idx = Inr i1" for r i1
    using that assms(2) by (auto simp: set_revision_def inv_Nil wf_index_def split: if_splits)
  then show ?thesis
    using assms(1,2) by (auto simp: align_index_def bind_res_eq_Inr Let_def push_sessions_inv
        split: list.splits if_splits)
qed

lemma index_view_range:
  "rev_no (index_view x) = snd (undo_stack_revision_range (db_base x))"
  "int (length (saved (index_view x)))
     = snd (undo_stack_revision_range (db_base x)) - fst (undo_stack_revision_range (db_base x))"
  by (simp_all add: index_view_def abs_index_def undo_stack_revision_range_def)

lemma lockstep_snoc:
  assumes "lockstep view xs" "\<And>x rest. xs = x # rest \<Longrightarrow>
     rev_no (view y) = rev_no (view x) \<and> length (saved (view y)) = length (saved (view x))"
  shows "lockstep view (xs @ [y])"
proof (cases xs)
  case (Cons x rest)
  have "rev_no (view z) = rev_no (view x) \<and> length (saved (view z)) = length (saved (view x))"
    if "z \<in> set (xs @ [y])" for z
    using that assms(1) assms(2)[OF Cons] Cons unfolding lockstep_def by auto
  then show ?thesis
    unfolding lockstep_def by metis
qed (simp add: lockstep_def)

text \<open>
  Adding an index, found in the mapped file or new, to a consistent database gives a consistent
  database: a new index gets as many empty undo states as the others have and their revision.
\<close>

theorem add_index_lockstep:
  assumes ok: "db_ok db" and add: "add_index tid ks stored layout_ok db = Inr db'"
    and st: "\<forall>idx. stored = Some idx \<longrightarrow> inv_index ks idx"
    and bound: "\<forall>x rest. index_list db = x # rest \<longrightarrow>
      - (2 ^ 63) \<le> fst (undo_stack_revision_range (db_base x)) \<and> fst (undo_stack_revision_range (db_base x)) < 2 ^ 63"
  shows "db_ok db'"
proof -
  let ?idx = "case stored of None \<Rightarrow> empty_index | Some idx \<Rightarrow> idx"
  obtain i where i: "align_index (db_read_only db) (stored = None) (index_list db) ?idx = Inr i"
    and db': "db' = db\<lparr>index_list := index_list db @ [\<lparr>db_type_id = tid, db_keys = ks, db_base = i\<rparr>]\<rparr>"
    and fresh: "tid \<notin> set (map db_type_id (index_list db))"
    using add by (auto simp: add_index_def bind_res_eq_Inr split: if_splits)
  let ?y = "\<lparr>db_type_id = tid, db_keys = ks, db_base = i\<rparr>"
  have new: "undo_stack ?idx = []" if "stored = None"
    using that by (simp add: empty_index_def)
  have "inv_index ks ?idx"
    using st by (cases stored) (simp_all add: refine_empty)
  then have "index_ok ?y"
    using align_index_inv[OF i _ new] by (simp add: index_ok_def)
  moreover have "lockstep index_view (index_list db @ [?y])"
  proof (rule lockstep_snoc)
    show "lockstep index_view (index_list db)"
      using ok by (simp add: db_ok_def)
    fix x rest
    assume xs: "index_list db = x # rest"
    have "undo_stack_revision_range i = undo_stack_revision_range (db_base x)"
      using align_index_range[OF i xs new] bound xs by auto
    then show "rev_no (index_view ?y) = rev_no (index_view x) \<and>
        length (saved (index_view ?y)) = length (saved (index_view x))"
      using index_view_range[of x] index_view_range[of ?y] by simp
  qed
  ultimately show ?thesis
    using ok fresh by (simp add: db_ok_def db')
qed

theorem add_index_lockstep_witness:
  "\<exists>db. add_index 3 [\<lambda>v. v] None True (snd (db_start_undo_session True sample_db)) = Inr db \<and> db_ok db \<and>
     map (\<lambda>x. undo_stack_revision_range (db_base x)) (index_list db) = [(0, 1), (0, 1), (0, 1)]"
proof -
  let ?db = "snd (db_start_undo_session True sample_db)"
  define db where "db = projr (add_index 3 [\<lambda>v. v] None True ?db)"
  have "\<not> isl (add_index 3 [\<lambda>v. v] None True ?db)"
    and r: "map (\<lambda>x. undo_stack_revision_range (db_base x)) (index_list db) = [(0, 1), (0, 1), (0, 1)]"
    and b: "undo_stack_revision_range (db_base (hd (index_list ?db))) = (0, 1)"
    unfolding db_def by code_simp+
  then have a: "add_index 3 [\<lambda>v. v] None True ?db = Inr db"
    by (simp add: db_def not_isl_Inr)
  have "undo_stack_revision_range (db_base x) = (0, 1)" if "index_list ?db = x # rest" for x rest
    using b unfolding that by simp
  then have "db_ok db"
    by (intro add_index_lockstep[OF db_ok_start[OF sample_db_ok] a]) simp_all
  with a r show ?thesis by (intro exI[of _ db] conjI)
qed

end
