(* ===== verification/Merkle.thy ===== *)
theory Merkle
  imports Chain_Prelude
begin

unbundle bit_operations_syntax

text \<open>
  Merkle roots (\<^verbatim>\<open>libraries/chain/merkle.cpp\<close>, \<^verbatim>\<open>merkle.hpp\<close>, \<^verbatim>\<open>incremental_merkle.hpp\<close>): the batch
  computation over all digests, and the incremental tree that keeps only the roots of its
  full subtrees. The theory shows that appending the digests one by one gives the batch
  root, and that the word tricks for powers of two compute what their comments say.

  A digest is its four 64-bit words. The hash of a pair, SHA-256 of its serialisation in
  the source, is the argument \<open>h\<close>.
\<close>

section \<open>Digests and the batch root\<close>

record digest =
  hash0 :: "64 word"
  hash1 :: "64 word"
  hash2 :: "64 word"
  hash3 :: "64 word"

type_synonym pair_hash = "digest \<times> digest \<Rightarrow> digest"

definition zero_digest :: digest where
  "zero_digest = \<lparr>hash0 = 0, hash1 = 0, hash2 = 0, hash3 = 0\<rparr>"

definition make_canonical_left :: "digest \<Rightarrow> digest" where
  "make_canonical_left val = val\<lparr>hash0 := hash0 val AND 0xFFFFFFFFFFFFFF7F\<rparr>"

definition make_canonical_right :: "digest \<Rightarrow> digest" where
  "make_canonical_right val = val\<lparr>hash0 := hash0 val OR 0x0000000000000080\<rparr>"

definition is_canonical_left :: "digest \<Rightarrow> bool" where
  "is_canonical_left val = (hash0 val AND 0x0000000000000080 = 0)"

definition is_canonical_right :: "digest \<Rightarrow> bool" where
  "is_canonical_right val = (hash0 val AND 0x0000000000000080 \<noteq> 0)"

definition make_canonical_pair :: "digest \<Rightarrow> digest \<Rightarrow> digest \<times> digest" where
  "make_canonical_pair l r = (make_canonical_left l, make_canonical_right r)"

text \<open>One round of the loop: the odd last digest is doubled, then pairs are hashed in place.\<close>

definition pad_last :: "digest list \<Rightarrow> digest list" where
  "pad_last ids = (if length ids mod 2 \<noteq> 0 then ids @ [last ids] else ids)"

definition hash_pairs :: "pair_hash \<Rightarrow> digest list \<Rightarrow> digest list" where
  "hash_pairs h ids =
     fold (\<lambda>i ids. ids[i := h (make_canonical_pair (ids ! (2 * i)) (ids ! (2 * i + 1)))])
       [0..<length ids div 2] ids"

definition merkle_round :: "pair_hash \<Rightarrow> digest list \<Rightarrow> digest list" where
  "merkle_round h ids = (let ids1 = pad_last ids in take (length ids1 div 2) (hash_pairs h ids1))"

lemma length_hash_pairs [simp]: "length (hash_pairs h ids) = length ids"
proof -
  have "length (fold (\<lambda>i ids. ids[i := h (make_canonical_pair (ids ! (2 * i)) (ids ! (2 * i + 1)))]) is ids) = length ids" for "is"
    by (induction "is" arbitrary: ids) auto
  then show ?thesis by (simp add: hash_pairs_def)
qed

lemma length_merkle_round [simp]: "length (merkle_round h ids) = (length ids + 1) div 2"
  by (auto simp: merkle_round_def pad_last_def Let_def)

function merkle_loop :: "pair_hash \<Rightarrow> digest list \<Rightarrow> digest list" where
  "merkle_loop h ids = (if 1 < length ids then merkle_loop h (merkle_round h ids) else ids)"
  by pat_completeness auto
termination
  by (relation "measure (\<lambda>(h, ids). length ids)") auto

declare merkle_loop.simps [simp del]

definition merkle :: "pair_hash \<Rightarrow> digest list \<Rightarrow> digest" where
  "merkle h ids = (if ids = [] then zero_digest else hd (merkle_loop h ids))"

section \<open>The incremental tree\<close>

definition next_power_of_2 :: "64 word \<Rightarrow> 64 word" where
  "next_power_of_2 value =
     (let v = value - 1;
          v = v OR drop_bit 1 v;
          v = v OR drop_bit 2 v;
          v = v OR drop_bit 4 v;
          v = v OR drop_bit 8 v;
          v = v OR drop_bit 16 v;
          v = v OR drop_bit 32 v
      in v + 1)"

definition clz_power_2 :: "64 word \<Rightarrow> int" where
  "clz_power_2 value =
     64 - (if value \<noteq> 0 then 1 else 0)
        - (if value AND 0x00000000FFFFFFFF \<noteq> 0 then 32 else 0)
        - (if value AND 0x0000FFFF0000FFFF \<noteq> 0 then 16 else 0)
        - (if value AND 0x00FF00FF00FF00FF \<noteq> 0 then 8 else 0)
        - (if value AND 0x0F0F0F0F0F0F0F0F \<noteq> 0 then 4 else 0)
        - (if value AND 0x3333333333333333 \<noteq> 0 then 2 else 0)
        - (if value AND 0x5555555555555555 \<noteq> 0 then 1 else 0)"

definition calcluate_max_depth :: "64 word \<Rightarrow> int" where
  "calcluate_max_depth node_count =
     (if node_count = 0 then 0 else clz_power_2 (next_power_of_2 node_count) + 1)"

record incremental_merkle =
  node_count :: "64 word"
  active_nodes :: "digest list"

definition empty_merkle :: incremental_merkle where
  "empty_merkle = \<lparr>node_count = 0, active_nodes = []\<rparr>"

text \<open>
  The loop of \<open>append\<close>: the collapsed top and the new active nodes. Reading the old active nodes
  past their end is \<open>None\<close>.
\<close>

fun collapse ::
  "pair_hash \<Rightarrow> nat \<Rightarrow> bool \<Rightarrow> 64 word \<Rightarrow> digest \<Rightarrow> digest list \<Rightarrow> digest list \<Rightarrow> (digest \<times> digest list) option" where
  "collapse h 0 partial index top_node active updated = Some (top_node, updated)"
| "collapse h (Suc current_depth) partial index top_node active updated =
     (if index AND 1 = 0 then
        collapse h current_depth True (drop_bit 1 index) (h (make_canonical_pair top_node top_node)) active
          (if partial then updated else updated @ [top_node])
      else
        case active of
          [] \<Rightarrow> None
        | left_value # active' \<Rightarrow>
            collapse h current_depth partial (drop_bit 1 index) (h (make_canonical_pair left_value top_node)) active'
              (if partial then updated @ [left_value] else updated))"

definition merkle_append :: "pair_hash \<Rightarrow> digest \<Rightarrow> incremental_merkle \<Rightarrow> incremental_merkle option" where
  "merkle_append h digest t =
     (let max_depth = calcluate_max_depth (node_count t + 1) in
      case collapse h (nat (max_depth - 1)) False (node_count t) digest (active_nodes t) [] of
        None \<Rightarrow> None
      | Some (top_node, updated) \<Rightarrow> Some \<lparr>node_count = node_count t + 1, active_nodes = updated @ [top_node]\<rparr>)"

definition get_root :: "incremental_merkle \<Rightarrow> digest" where
  "get_root t = (if 0 < node_count t then last (active_nodes t) else zero_digest)"

fun append_all :: "pair_hash \<Rightarrow> digest list \<Rightarrow> incremental_merkle \<Rightarrow> incremental_merkle option" where
  "append_all h [] t = Some t"
| "append_all h (d # ds) t = (case merkle_append h d t of None \<Rightarrow> None | Some t' \<Rightarrow> append_all h ds t')"

section \<open>Powers of two\<close>

definition windowed :: "64 word \<Rightarrow> nat \<Rightarrow> 64 word \<Rightarrow> bool" where
  "windowed x w v \<longleftrightarrow> (\<forall>i. bit x i \<longleftrightarrow> (\<exists>j<w. bit v (i + j)))"

lemma windowed_step:
  assumes x: "windowed x w v" and w': "w' = w + w"
  shows "windowed (x OR drop_bit w x) w' v"
  unfolding windowed_def
proof
  fix i
  have "bit (x OR drop_bit w x) i \<longleftrightarrow> (\<exists>j<w. bit v (i + j)) \<or> (\<exists>j<w. bit v (i + w + j))"
    using x by (simp add: windowed_def bit_or_iff bit_drop_bit_eq add.commute add.left_commute)
  also have "\<dots> \<longleftrightarrow> (\<exists>j<w'. bit v (i + j))"
  proof
    assume "\<exists>j<w'. bit v (i + j)"
    then obtain j where j: "j < w + w" "bit v (i + j)"
      using w' by blast
    show "(\<exists>j<w. bit v (i + j)) \<or> (\<exists>j<w. bit v (i + w + j))"
    proof (cases "j < w")
      case False
      then have "bit v (i + w + (j - w))" "j - w < w"
        using j by (auto simp: add.assoc)
      then show ?thesis by blast
    qed (use j in blast)
  next
    assume "(\<exists>j<w. bit v (i + j)) \<or> (\<exists>j<w. bit v (i + w + j))"
    then show "\<exists>j<w'. bit v (i + j)"
      unfolding w' by (metis add.assoc nat_add_left_cancel_less trans_less_add1)
  qed
  finally show "bit (x OR drop_bit w x) i \<longleftrightarrow> (\<exists>j<w'. bit v (i + j))" .
qed

lemma next_power_of_2_windowed: "\<exists>s. next_power_of_2 value = s + 1 \<and> windowed s 64 (value - 1)"
proof -
  let ?v = "value - 1"
  have w1: "windowed ?v 1 ?v"
    by (simp add: windowed_def)
  note w2 = windowed_step[OF w1, of 2, simplified one_add_one, OF refl]
  note w4 = windowed_step[OF w2, of 4, simplified numeral_Bit0[symmetric], OF refl]
  note w8 = windowed_step[OF w4, of 8, simplified numeral_Bit0[symmetric], OF refl]
  note w16 = windowed_step[OF w8, of 16, simplified numeral_Bit0[symmetric], OF refl]
  note w32 = windowed_step[OF w16, of 32, simplified numeral_Bit0[symmetric], OF refl]
  note w64 = windowed_step[OF w32, of 64, simplified numeral_Bit0[symmetric], OF refl]
  show ?thesis
    by (rule exI, rule conjI[OF _ w64]) (simp only: next_power_of_2_def Let_def)
qed

lemma windowed_mask:
  assumes s: "windowed s 64 v" and hi: "unat v < 2 ^ k" and lo: "k = 0 \<or> 2 ^ (k - 1) \<le> unat v" and k: "k < 64"
  shows "s = mask k"
proof (rule bit_word_eqI)
  fix i assume i: "i < LENGTH(64)"
  have above: "\<not> bit v j" if "k \<le> j" for j
  proof -
    have "unat v div 2 ^ j = 0"
      using hi that by (meson div_less less_le_trans one_le_numeral power_increasing)
    then show ?thesis
      by (simp add: bit_word_unat)
  qed
  have topbit: "bit v (k - 1)" if "0 < k"
  proof -
    have "unat v < 2 * 2 ^ (k - 1)"
      using hi that by (metis power_eq_if not_gr_zero)
    then have "unat v div 2 ^ (k - 1) = 1"
      using lo that by (intro div_nat_eqI) auto
    then show ?thesis
      by (simp add: bit_word_unat)
  qed
  show "bit s i \<longleftrightarrow> bit (mask k :: 64 word) i"
  proof (cases "i < k")
    case True
    then have "bit v (i + (k - 1 - i))" "k - 1 - i < 64"
      using topbit k by auto
    then show ?thesis
      using s True i unfolding windowed_def by (auto simp: bit_mask_iff)
  next
    case False
    then show ?thesis
      using s above unfolding windowed_def by (auto simp: bit_mask_iff)
  qed
qed

text \<open>The exponent of the smallest power of two that is at least \<open>n\<close>.\<close>

definition ceil_log2 :: "nat \<Rightarrow> nat" where
  "ceil_log2 n = (LEAST k. n \<le> 2 ^ k)"

lemma ceil_log2_bounds: "n \<le> 2 ^ ceil_log2 n" "j < ceil_log2 n \<Longrightarrow> 2 ^ j < n"
proof -
  have "n \<le> 2 ^ n"
    by (simp add: less_imp_le)
  then show "n \<le> 2 ^ ceil_log2 n"
    unfolding ceil_log2_def by (rule LeastI)
  show "j < ceil_log2 n \<Longrightarrow> 2 ^ j < n"
    unfolding ceil_log2_def using not_less_Least by (metis not_le)
qed

lemma next_power_of_2_value:
  assumes "0 < unat value" "unat value \<le> 2 ^ 63"
  shows "next_power_of_2 value = 2 ^ ceil_log2 (unat value)" "ceil_log2 (unat value) < 64"
proof -
  let ?k = "ceil_log2 (unat value)"
  show k: "?k < 64"
  proof (rule ccontr)
    assume "\<not> ?k < 64"
    then have "2 ^ 63 < unat value"
      by (intro ceil_log2_bounds(2)) simp
    with assms(2) show False by simp
  qed
  have v: "unat (value - 1) = unat value - 1"
    using assms(1) by (simp add: unat_minus_one unat_gt_0)
  obtain s where s: "next_power_of_2 value = s + 1" "windowed s 64 (value - 1)"
    using next_power_of_2_windowed by blast
  have "unat (value - 1) < 2 ^ ?k"
    using ceil_log2_bounds(1)[of "unat value"] assms(1) by (simp add: v)
  moreover have "?k = 0 \<or> 2 ^ (?k - 1) \<le> unat (value - 1)"
    using ceil_log2_bounds(2)[of "?k - 1" "unat value"] by (cases "?k = 0") (simp_all add: v)
  ultimately have "s = mask ?k"
    using s(2) k by (intro windowed_mask)
  then show "next_power_of_2 value = 2 ^ ?k"
    by (simp add: s(1) mask_eq_exp_minus_1)
qed

lemma unat_exp: "k < 64 \<Longrightarrow> unat ((2 :: 64 word) ^ k) = 2 ^ k"
proof -
  assume k: "k < 64"
  have "unat (of_nat (2 ^ k) :: 64 word) = 2 ^ k mod 2 ^ LENGTH(64)"
    by (rule unat_of_nat)
  also have "\<dots> = 2 ^ k"
    using power_strict_increasing[OF k, of "2 :: nat"] by simp
  finally show ?thesis by simp
qed

lemma upt_64: "[0..<64] =
    [0, 1, 2, 3, 4, 5, 6, 7, 8, 9, 10, 11, 12, 13, 14, 15,
     16, 17, 18, 19, 20, 21, 22, 23, 24, 25, 26, 27, 28, 29, 30, 31,
     32, 33, 34, 35, 36, 37, 38, 39, 40, 41, 42, 43, 44, 45, 46, 47,
     48, 49, 50, 51, 52, 53, 54, 55, 56, 57, 58, 59, 60, 61, 62, 63]"
  by code_simp

lemma clz_power_2_value:
  assumes "k < 64"
  shows "clz_power_2 (2 ^ k) = int k"
proof -
  have "list_all (\<lambda>k. clz_power_2 (2 ^ k) = int k) [0..<64]"
    unfolding upt_64 list.pred_inject by (intro conjI) (simp_all add: clz_power_2_def)
  moreover have "k \<in> set [0..<64]"
    using assms by (simp only: set_upt atLeastLessThan_iff) simp
  ultimately show ?thesis
    by (simp only: list_all_iff)
qed

lemma calcluate_max_depth_value:
  assumes "0 < unat n" "unat n \<le> 2 ^ 63"
  shows "calcluate_max_depth n = int (ceil_log2 (unat n)) + 1"
proof -
  have "n \<noteq> 0"
    using assms(1) by (auto simp: unat_gt_0)
  then show ?thesis
    using next_power_of_2_value[OF assms] by (simp add: calcluate_max_depth_def clz_power_2_value)
qed

section \<open>The incremental root is the batch root\<close>

text \<open>The full pairs of a level, and the peaks: the roots of the full subtrees, smallest first.\<close>

fun full_pairs :: "pair_hash \<Rightarrow> digest list \<Rightarrow> digest list" where
  "full_pairs h (a # b # xs) = h (make_canonical_pair a b) # full_pairs h xs"
| "full_pairs h xs = []"

lemma length_full_pairs [simp]: "length (full_pairs h xs) = length xs div 2"
  by (induction h xs rule: full_pairs.induct) auto

function peaks :: "pair_hash \<Rightarrow> digest list \<Rightarrow> digest list" where
  "peaks h xs = (if xs = [] then [] else (if odd (length xs) then [last xs] else []) @ peaks h (full_pairs h xs))"
  by pat_completeness auto
termination
  by (relation "measure (\<lambda>(h, xs). length xs)") auto

declare peaks.simps [simp del]

lemma full_pairs_snoc:
  "even (length xs) \<Longrightarrow> full_pairs h (xs @ [x]) = full_pairs h xs"
  "odd (length xs) \<Longrightarrow> full_pairs h (xs @ [x]) = full_pairs h xs @ [h (make_canonical_pair (last xs) x)]"
  by (induction h xs rule: full_pairs.induct) auto

lemma peaks_odd: "odd (length xs) \<Longrightarrow> peaks h xs = last xs # peaks h (full_pairs h xs)"
  by (subst peaks.simps) auto

lemma peaks_even: "even (length xs) \<Longrightarrow> peaks h xs = peaks h (full_pairs h xs)"
  by (cases "xs = []"; subst peaks.simps) (auto simp: peaks.simps)

text \<open>The combination that both algorithms compute for the last node of a level.\<close>

definition combine :: "pair_hash \<Rightarrow> digest list \<Rightarrow> digest \<Rightarrow> digest" where
  "combine h xs x = (if even (length xs) then h (make_canonical_pair x x) else h (make_canonical_pair (last xs) x))"

lemma full_pairs_nth: "i < length ids div 2 \<Longrightarrow> full_pairs h ids ! i = h (make_canonical_pair (ids ! (2 * i)) (ids ! (2 * i + 1)))"
proof (induction h ids arbitrary: i rule: full_pairs.induct)
  case (1 h a b xs)
  then show ?case by (cases i) auto
qed auto

text \<open>After \<open>k\<close> rounds of the in-place loop the first \<open>k\<close> places hold the pairs and the others are as before.\<close>

lemma hash_pairs_prefix:
  assumes "k \<le> length ids div 2"
  shows "fold (\<lambda>i ids. ids[i := h (make_canonical_pair (ids ! (2 * i)) (ids ! (2 * i + 1)))]) [0..<k] ids
     = take k (full_pairs h ids) @ drop k ids"
  using assms
proof (induction k)
  case (Suc k)
  let ?cur = "take k (full_pairs h ids) @ drop k ids"
  have k: "k < length ids div 2"
    using Suc.prems by simp
  then have "?cur ! (2 * k) = ids ! (2 * k)" "?cur ! (2 * k + 1) = ids ! (2 * k + 1)"
    by (auto simp: nth_append mult_2)
  moreover have "?cur[k := v] = take k (full_pairs h ids) @ v # drop (Suc k) ids" for v
    using k by (simp add: list_update_append Cons_nth_drop_Suc[symmetric])
  moreover have "take (Suc k) (full_pairs h ids) = take k (full_pairs h ids) @ [full_pairs h ids ! k]"
    using k by (simp add: take_Suc_conv_app_nth)
  ultimately show ?case
    using Suc k by (simp add: full_pairs_nth)
qed simp

lemma hash_pairs_full: "take (length ids div 2) (hash_pairs h ids) = full_pairs h ids"
  using hash_pairs_prefix[of "length ids div 2" ids h] by (simp add: hash_pairs_def)

lemma full_pairs_append: "even (length xs) \<Longrightarrow> full_pairs h (xs @ ys) = full_pairs h xs @ full_pairs h ys"
  by (induction h xs rule: full_pairs.induct) auto

lemma merkle_round_snoc: "merkle_round h (xs @ [x]) = full_pairs h xs @ [combine h xs x]"
proof (cases "even (length xs)")
  case True
  then have "pad_last (xs @ [x]) = xs @ [x, x]"
    by (auto simp: pad_last_def)
  then show ?thesis
    using True hash_pairs_full[of "xs @ [x, x]" h] by (simp add: merkle_round_def combine_def full_pairs_append)
next
  case False
  then have "pad_last (xs @ [x]) = xs @ [x]"
    by (auto simp: pad_last_def)
  then show ?thesis
    using False hash_pairs_full[of "xs @ [x]" h] by (simp add: merkle_round_def combine_def full_pairs_snoc)
qed

lemma merkle_loop_snoc:
  "hd (merkle_loop h (xs @ [x])) = (if xs = [] then x else hd (merkle_loop h (full_pairs h xs @ [combine h xs x])))"
  by (subst merkle_loop.simps) (simp add: merkle_round_snoc)

lemma index_word:
  fixes index :: "64 word"
  assumes "unat index = length xs"
  shows "index AND 1 = 0 \<longleftrightarrow> even (length xs)" "unat (drop_bit 1 index) = length (full_pairs h xs)"
proof -
  show "index AND 1 = 0 \<longleftrightarrow> even (length xs)"
    using assms bit_word_unat[of index 0] by (simp add: and_one_eq bit_0 odd_iff_mod_2_eq_one[symmetric]) (simp add: even_iff_mod_2_eq_zero)
  show "unat (drop_bit 1 index) = length (full_pairs h xs)"
    using assms by (simp add: unat_drop_bit_eq drop_bit_eq_div unat_div)
qed

text \<open>Once the collapsed node is partial, all left siblings are copied from the old active nodes.\<close>

lemma merkle_loop_single: "hd (merkle_loop h [x]) = x"
  by (simp add: merkle_loop.simps)

lemma merkle_loop_up:
  "xs \<noteq> [] \<Longrightarrow> hd (merkle_loop h (xs @ [x])) = hd (merkle_loop h (full_pairs h xs @ [combine h xs x]))"
  by (simp add: merkle_loop_snoc)

definition depth_ok :: "nat \<Rightarrow> nat \<Rightarrow> bool" where
  "depth_ok d n \<longleftrightarrow> n < 2 ^ d \<and> (0 < d \<longrightarrow> 2 ^ (d - 1) \<le> n)"

lemma depth_ok_0: "depth_ok 0 n \<longleftrightarrow> n = 0"
  by (simp add: depth_ok_def)

lemma depth_ok_Suc:
  assumes "depth_ok (Suc d) n"
  shows "0 < n" "depth_ok d (n div 2)"
proof -
  show "0 < n"
    using assms by (metis depth_ok_def diff_Suc_1 less_le_trans zero_less_Suc zero_less_numeral zero_less_power)
  show "depth_ok d (n div 2)"
  proof (cases d)
    case (Suc e)
    then show ?thesis
      using assms by (simp add: depth_ok_def less_mult_imp_div_less mult.commute) (metis div_le_mono nonzero_mult_div_cancel_left zero_neq_numeral)
  qed (use assms in \<open>auto simp: depth_ok_def\<close>)
qed

lemma collapse_partial:
  assumes "unat index = length xs" "depth_ok d (length xs)" "active = peaks h xs @ extra"
  shows "collapse h d True index x active updated
    = Some (hd (merkle_loop h (xs @ [x])), updated @ peaks h xs)"
  using assms
proof (induction d arbitrary: index xs x active updated)
  case 0
  then show ?case by (simp add: depth_ok_0 merkle_loop_single peaks.simps)
next
  case (Suc d)
  note i = index_word[OF Suc.prems(1)]
  have ne: "xs \<noteq> []" and len: "depth_ok d (length (full_pairs h xs))"
    using depth_ok_Suc[OF Suc.prems(2)] by auto
  note IH = Suc.IH[OF i(2) len]
  show ?case
  proof (cases "even (length xs)")
    case True
    then show ?thesis
      using IH Suc.prems(3) i(1) by (simp add: peaks_even[OF True] merkle_loop_up[OF ne] combine_def)
  next
    case False
    then show ?thesis
      using IH Suc.prems(3) i(1) by (simp add: peaks_odd[OF False] merkle_loop_up[OF ne] combine_def)
  qed
qed

lemma collapse_full:
  assumes "unat index = length xs" "depth_ok d (length xs)" "active = peaks h xs @ extra"
  shows "\<exists>new extra'. collapse h d False index x active updated = Some (hd (merkle_loop h (xs @ [x])), updated @ new)
    \<and> new @ [hd (merkle_loop h (xs @ [x]))] = peaks h (xs @ [x]) @ extra'"
  using assms
proof (induction d arbitrary: index xs x active)
  case 0
  then show ?case by (simp add: depth_ok_0 merkle_loop_single peaks.simps[of h "[x]"] peaks.simps[of h "[]"])
next
  case (Suc d)
  note i = index_word[OF Suc.prems(1)]
  have ne: "xs \<noteq> []" and len: "depth_ok d (length (full_pairs h xs))"
    using depth_ok_Suc[OF Suc.prems(2)] by auto
  show ?case
  proof (cases "even (length xs)")
    case True
    have "peaks h (xs @ [x]) = x # peaks h (full_pairs h xs)"
      using True by (subst peaks_odd) (simp_all add: full_pairs_snoc)
    then show ?thesis
      using collapse_partial[OF i(2) len, of active h extra "h (make_canonical_pair x x)" "updated @ [x]"] True Suc.prems(3) i(1)
      by (simp add: peaks_even[OF True] merkle_loop_up[OF ne] combine_def)
  next
    case False
    have "peaks h (xs @ [x]) = peaks h (full_pairs h xs @ [combine h xs x])"
      using False by (subst peaks_even) (simp_all add: full_pairs_snoc combine_def)
    then show ?thesis
      using Suc.IH[OF i(2) len, of "peaks h (full_pairs h xs) @ extra" "combine h xs x"] False Suc.prems(3) i(1)
      by (simp add: peaks_odd[OF False] merkle_loop_up[OF ne] combine_def)
  qed
qed

definition merkle_inv :: "pair_hash \<Rightarrow> digest list \<Rightarrow> incremental_merkle \<Rightarrow> bool" where
  "merkle_inv h ids t \<longleftrightarrow> unat (node_count t) = length ids \<and> (\<exists>extra. active_nodes t = peaks h ids @ extra) \<and>
     (ids \<noteq> [] \<longrightarrow> active_nodes t \<noteq> [] \<and> last (active_nodes t) = merkle h ids)"

lemma depth_ok_ceil_log2: "depth_ok (ceil_log2 (Suc n)) n"
proof -
  have "n < 2 ^ ceil_log2 (Suc n)"
    using ceil_log2_bounds(1)[of "Suc n"] by simp
  moreover have "2 ^ (ceil_log2 (Suc n) - 1) \<le> n" if "0 < ceil_log2 (Suc n)"
    using ceil_log2_bounds(2)[of "ceil_log2 (Suc n) - 1" "Suc n"] that by simp
  ultimately show ?thesis by (simp add: depth_ok_def)
qed

lemma append_inv:
  assumes inv: "merkle_inv h ids t" and len: "length ids < 2 ^ 63"
  shows "\<exists>t'. merkle_append h d t = Some t' \<and> merkle_inv h (ids @ [d]) t'"
proof -
  obtain extra where n: "unat (node_count t) = length ids" and active: "active_nodes t = peaks h ids @ extra"
    using inv by (auto simp: merkle_inv_def)
  have n1: "unat (node_count t + 1) = Suc (length ids)"
    using n len by (simp add: unat_word_ariths)
  have "calcluate_max_depth (node_count t + 1) = int (ceil_log2 (Suc (length ids))) + 1"
    using calcluate_max_depth_value[of "node_count t + 1"] n1 len by simp
  moreover obtain new extra' where
    c: "collapse h (ceil_log2 (Suc (length ids))) False (node_count t) d (active_nodes t) []
       = Some (hd (merkle_loop h (ids @ [d])), new)"
    and new: "new @ [hd (merkle_loop h (ids @ [d]))] = peaks h (ids @ [d]) @ extra'"
    using collapse_full[OF n depth_ok_ceil_log2 active, of d "[]"] by auto
  ultimately have "merkle_append h d t = Some \<lparr>node_count = node_count t + 1, active_nodes = new @ [hd (merkle_loop h (ids @ [d]))]\<rparr>"
    by (simp add: merkle_append_def)
  moreover have "merkle_inv h (ids @ [d]) \<lparr>node_count = node_count t + 1, active_nodes = new @ [hd (merkle_loop h (ids @ [d]))]\<rparr>"
    unfolding merkle_inv_def using n1 exI[of "\<lambda>e. _ = peaks h (ids @ [d]) @ e", OF new] by (simp add: merkle_def)
  ultimately show ?thesis by blast
qed

lemma append_all_inv:
  assumes "merkle_inv h ids t" "length ids + length ds \<le> 2 ^ 63"
  shows "\<exists>t'. append_all h ds t = Some t' \<and> merkle_inv h (ids @ ds) t'"
  using assms
proof (induction ds arbitrary: ids t)
  case (Cons d ds)
  then obtain t1 where "merkle_append h d t = Some t1" "merkle_inv h (ids @ [d]) t1"
    using append_inv[of h ids t d] by auto
  then show ?case
    using Cons.IH[of "ids @ [d]" t1] Cons.prems(2) by simp
qed simp

text \<open>
  C2. Appending up to \<open>2 ^ 63\<close> digests one by one to an empty incremental tree never reads past
  its active nodes, counts the digests, and ends with the root that the batch algorithm
  computes from all of them, whatever the hash function.
\<close>

theorem incremental_root_is_merkle_root:
  assumes "length ids \<le> 2 ^ 63"
  shows "\<exists>t. append_all h ids empty_merkle = Some t \<and> unat (node_count t) = length ids \<and> get_root t = merkle h ids"
proof -
  have "merkle_inv h [] empty_merkle"
    by (simp add: merkle_inv_def empty_merkle_def peaks.simps)
  then obtain t where t: "append_all h ids empty_merkle = Some t" "merkle_inv h ids t"
    using append_all_inv[of h "[]" empty_merkle ids] assms by auto
  then have n: "unat (node_count t) = length ids"
    by (simp add: merkle_inv_def)
  have "get_root t = merkle h ids"
  proof (cases "ids = []")
    case True
    then have "node_count t = 0"
      using n by (simp add: unat_eq_0)
    then show ?thesis
      using True by (simp add: get_root_def merkle_def)
  next
    case False
    then have "0 < node_count t"
      using n by (simp add: word_gt_0 unat_eq_0[symmetric])
    then show ?thesis
      using False t(2) by (simp add: get_root_def merkle_inv_def)
  qed
  with t n show ?thesis by blast
qed

definition sample_hash :: pair_hash where
  "sample_hash p = \<lparr>hash0 = 3 * hash0 (fst p) + 5 * hash0 (snd p) + 1, hash1 = 0, hash2 = 0, hash3 = 0\<rparr>"

definition sample_ids :: "digest list" where
  "sample_ids = map (\<lambda>k. \<lparr>hash0 = k, hash1 = 0, hash2 = 0, hash3 = 0\<rparr>) [10, 20, 30]"

theorem incremental_root_is_merkle_root_witness:
  "\<exists>t. append_all sample_hash sample_ids empty_merkle = Some t \<and> unat (node_count t) = 3 \<and>
     get_root t = merkle sample_hash sample_ids"
proof -
  have len: "length sample_ids = 3"
    by (simp add: sample_ids_def)
  show ?thesis
    by (rule incremental_root_is_merkle_root[of sample_ids sample_hash, unfolded len]) simp
qed

text \<open>
  The two digests that are hashed together carry their side in one bit: the first is marked left, the
  second right, all other bits are kept, and so a left mark never equals a right mark.
\<close>

theorem canonical_sides:
  "is_canonical_left (fst (make_canonical_pair l r)) \<and> is_canonical_right (snd (make_canonical_pair l r)) \<and>
   fst (make_canonical_pair l r) \<noteq> snd (make_canonical_pair l' r') \<and>
   hash0 (make_canonical_left l) AND NOT 0x80 = hash0 l AND NOT 0x80 \<and>
   hash0 (make_canonical_right r) AND NOT 0x80 = hash0 r AND NOT 0x80"
proof -
  have b: "bit (0x80 :: 64 word) i \<longleftrightarrow> i = 7" and c: "bit (0xFFFFFFFFFFFFFF7F :: 64 word) i \<longleftrightarrow> i < 64 \<and> i \<noteq> 7" for i
  proof -
    have "(0x80 :: 64 word) = 2 ^ 7"
      by simp
    then show b: "bit (0x80 :: 64 word) i \<longleftrightarrow> i = 7" for i
      by (simp only: bit_exp_iff possible_bit_word) auto
    have "(0xFFFFFFFFFFFFFF7F :: 64 word) = NOT 0x80"
      by simp
    then show "bit (0xFFFFFFFFFFFFFF7F :: 64 word) i \<longleftrightarrow> i < 64 \<and> i \<noteq> 7"
      by (simp only: bit_not_iff possible_bit_word b) simp
  qed
  have zero: "w AND 0x80 = 0 \<longleftrightarrow> \<not> bit w 7" for w :: "64 word"
  proof
    assume "w AND 0x80 = 0"
    then have "\<not> bit (w AND 0x80) 7"
      by (simp only: bit_0_eq) simp
    then show "\<not> bit w 7"
      by (simp only: bit_and_iff b) simp
  next
    assume "\<not> bit w 7"
    then show "w AND 0x80 = 0"
      by (intro bit_word_eqI) (simp only: bit_and_iff b bit_0_eq, auto)
  qed
  have left: "\<not> bit (hash0 (make_canonical_left d)) 7" and right: "bit (hash0 (make_canonical_right d)) 7" for d
    by (simp_all add: make_canonical_left_def make_canonical_right_def bit_and_iff bit_or_iff b c)
  moreover have "(w AND 0xFFFFFFFFFFFFFF7F) AND NOT 0x80 = w AND NOT 0x80" "(w OR 0x80) AND NOT 0x80 = w AND NOT 0x80" for w :: "64 word"
    by (rule bit_word_eqI, simp only: bit_and_iff bit_or_iff bit_not_iff b c, auto)+
  moreover have "make_canonical_left l \<noteq> make_canonical_right r'"
    using left[of l] right[of r'] by metis
  ultimately show ?thesis
    unfolding make_canonical_pair_def fst_conv snd_conv is_canonical_left_def is_canonical_right_def zero
    by (simp only: make_canonical_left_def make_canonical_right_def) simp
qed

text \<open>
  For every number from 1 to \<open>2 ^ 63\<close>, the bit tricks give the least power of two that is at least
  the number, and its exponent.
\<close>

theorem next_power_of_2_least:
  assumes "0 < unat value" "unat value \<le> 2 ^ 63"
  shows "\<exists>k. unat (next_power_of_2 value) = 2 ^ k \<and> unat value \<le> 2 ^ k \<and> (\<forall>j. unat value \<le> 2 ^ j \<longrightarrow> k \<le> j) \<and>
     clz_power_2 (next_power_of_2 value) = int k \<and> calcluate_max_depth value = int k + 1"
proof -
  let ?k = "ceil_log2 (unat value)"
  note v = next_power_of_2_value[OF assms]
  have "unat (next_power_of_2 value) = 2 ^ ?k"
    using v by (simp add: unat_exp)
  moreover have "?k \<le> j" if "unat value \<le> 2 ^ j" for j
    using that by (simp add: ceil_log2_def Least_le)
  ultimately show ?thesis
    using ceil_log2_bounds(1)[of "unat value"] clz_power_2_value[OF v(2)] calcluate_max_depth_value[OF assms] v(1) by auto
qed

theorem next_power_of_2_least_witness:
  "\<exists>k. unat (next_power_of_2 37) = 2 ^ k \<and> unat (37 :: 64 word) \<le> 2 ^ k \<and> (\<forall>j. unat (37 :: 64 word) \<le> 2 ^ j \<longrightarrow> k \<le> j) \<and>
     clz_power_2 (next_power_of_2 37) = int k \<and> calcluate_max_depth 37 = int k + 1"
  by (rule next_power_of_2_least) simp_all

end
