(* ===== verification/Chain_Name.thy ===== *)
theory Chain_Name
  imports Chain_Prelude
begin

unbundle bit_operations_syntax

text \<open>
  Account names (\<^verbatim>\<open>libraries/chain/include/dcd/chain/name.hpp\<close>, \<^verbatim>\<open>name.cpp\<close>): twelve characters of five
  bits and a thirteenth of four in a 64-bit word. The theory shows that the encoder accepts
  exactly the valid strings and that printing and encoding are inverse to each other.
\<close>

section \<open>Encoding and printing\<close>

definition in_range :: "char \<Rightarrow> char \<Rightarrow> char \<Rightarrow> bool" where
  "in_range lo hi c = ((of_char lo :: nat) \<le> of_char c \<and> (of_char c :: nat) \<le> of_char hi)"

definition char_to_symbol :: "char \<Rightarrow> 64 word result" where
  "char_to_symbol c =
     (if in_range (CHR ''a'') (CHR ''z'') c then Inr (of_nat (of_char c - of_char (CHR ''a'')) + 6)
      else if in_range (CHR ''1'') (CHR ''5'') c then Inr (of_nat (of_char c - of_char (CHR ''1'')) + 1)
      else if c = CHR ''.'' then Inr 0
      else Inl Name_type_exception)"

fun encode_chars :: "string \<Rightarrow> nat \<Rightarrow> 64 word \<Rightarrow> 64 word result" where
  "encode_chars str 0 n = Inr n"
| "encode_chars str (Suc i) n =
     bind_res (char_to_symbol (str ! i)) (\<lambda>c. encode_chars str i (n OR push_bit (64 - 5 * (i + 1)) c))"

definition string_to_uint64_t :: "string \<Rightarrow> 64 word result" where
  "string_to_uint64_t str =
     (if 13 < length str then Inl Name_type_exception
      else if 13 \<le> length str then
        bind_res (char_to_symbol (str ! 12))
          (\<lambda>n. if 0x0F < n then Inl Name_type_exception else encode_chars str 12 n)
      else encode_chars str (length str) 0)"

definition charmap :: string where
  "charmap = ''.12345abcdefghijklmnopqrstuvwxyz''"

definition to_string_step :: "nat \<Rightarrow> string \<times> 64 word \<Rightarrow> string \<times> 64 word" where
  "to_string_step i st =
     (let (str, tmp) = st;
          c = charmap ! unat (tmp AND (if i = 0 then 0x0f else 0x1f))
      in (str[12 - i := c], drop_bit (if i = 0 then 4 else 5) tmp))"

definition trim_dots :: "string \<Rightarrow> string" where
  "trim_dots str = rev (dropWhile (\<lambda>c. c = CHR ''.'') (rev str))"

definition to_string :: "64 word \<Rightarrow> string" where
  "to_string value = trim_dots (fst (fold to_string_step [0..<13] (replicate 13 (CHR ''.''), value)))"

definition is_string_valid_name :: "string \<Rightarrow> bool" where
  "is_string_valid_name str =
     (let slen = length str in
      if 13 < slen then False
      else
        (let len = (if slen \<le> 12 then slen else 12) in
         if \<not> list_all (\<lambda>c. in_range (CHR ''a'') (CHR ''z'') c \<or> in_range (CHR ''1'') (CHR ''5'') c \<or> c = CHR ''.'')
                (take len str) then False
         else if slen = 13 then
           (let c = str ! 12 in
            in_range (CHR ''a'') (CHR ''j'') c \<or> in_range (CHR ''1'') (CHR ''5'') c \<or> c = CHR ''.'')
         else True))"

section \<open>Digits\<close>

definition place :: "nat \<Rightarrow> 64 word \<Rightarrow> 64 word" where
  "place i d = (if i < 12 then push_bit (59 - 5 * i) d else d)"

fun digits_value :: "nat \<Rightarrow> 64 word list \<Rightarrow> 64 word" where
  "digits_value i [] = 0"
| "digits_value i (d # ds) = place i d OR digits_value (Suc i) ds"

definition digit :: "64 word \<Rightarrow> nat \<Rightarrow> 64 word" where
  "digit v i = (if i < 12 then drop_bit (59 - 5 * i) v AND 0x1f else v AND 0x0f)"

lemma digits_value_append: "digits_value i (ds @ es) = digits_value i ds OR digits_value (i + length ds) es"
  by (induction i ds rule: digits_value.induct) (auto simp: or.assoc)

lemma digits_value_zeros: "digits_value i (replicate n 0) = 0"
  by (induction n arbitrary: i) (auto simp: place_def)

lemma bit_digits_value: "bit (digits_value i ds) b \<longleftrightarrow> (\<exists>j<length ds. bit (place (i + j) (ds ! j)) b)"
proof (induction i ds rule: digits_value.induct)
  case (2 i d ds)
  have "(\<exists>j<length (d # ds). bit (place (i + j) ((d # ds) ! j)) b) \<longleftrightarrow>
      bit (place i d) b \<or> (\<exists>j<length ds. bit (place (Suc i + j) (ds ! j)) b)"
    by (auto simp: less_Suc_eq_0_disj)
  then show ?case
    using 2 by (simp add: bit_or_iff)
qed simp

lemma mask_numerals: "(0x1f :: 64 word) = mask 5" "(0x0f :: 64 word) = mask 4"
  by (simp_all add: mask_eq_exp_minus_1)

lemma bit_digit:
  "bit (digit v i) k \<longleftrightarrow> (if i < 12 then k < 5 \<and> bit v (59 - 5 * i + k) else k < 4 \<and> bit v k)"
  unfolding digit_def mask_numerals
  by (auto simp: bit_and_iff bit_mask_iff bit_drop_bit_eq)

lemma bit_place:
  "bit (place i d) b \<longleftrightarrow> b < 64 \<and> (if i < 12 then 59 - 5 * i \<le> b \<and> bit d (b - (59 - 5 * i)) else bit d b)"
  by (auto simp: place_def bit_push_bit_iff dest: bit_imp_le_length)

lemma digits_value_digits: "digits_value 0 (map (digit v) [0..<13]) = v"
proof (rule bit_word_eqI)
  fix b
  assume "b < LENGTH(64)"
  then have b: "b < 64" by simp
  have "bit (digits_value 0 (map (digit v) [0..<13])) b \<longleftrightarrow> (\<exists>j<13. bit (place j (digit v j)) b)"
    by (simp add: bit_digits_value cong: conj_cong)
  also have "\<dots> \<longleftrightarrow> bit v b"
  proof
    assume "bit v b"
    show "\<exists>j<13. bit (place j (digit v j)) b"
    proof (cases "b < 4")
      case True
      then show ?thesis
        using \<open>bit v b\<close> b by (intro exI[of _ 12]) (simp add: bit_place bit_digit)
    next
      case False
      define j where "j = (63 - b) div 5"
      have j: "j < 12" "59 - 5 * j \<le> b" "b - (59 - 5 * j) < 5" "59 - 5 * j + (b - (59 - 5 * j)) = b"
        using False b unfolding j_def by presburger+
      then show ?thesis
        using \<open>bit v b\<close> b by (intro exI[of _ j]) (simp add: bit_place bit_digit)
    qed
  qed (auto simp: bit_place bit_digit split: if_splits)
  finally show "bit (digits_value 0 (map (digit v) [0..<13])) b \<longleftrightarrow> bit v b" .
qed

lemma digit_digits_value:
  assumes len: "length ds = 13" and small: "\<forall>j<12. \<forall>k. bit (ds ! j) k \<longrightarrow> k < 5" "\<forall>k. bit (ds ! 12) k \<longrightarrow> k < 4" and i: "i < 13"
  shows "digit (digits_value 0 ds) i = ds ! i"
proof (rule bit_word_eqI)
  fix k
  have pos: "bit (place j (ds ! j)) b \<longleftrightarrow> b < 64 \<and> (if j < 12 then 59 - 5 * j \<le> b \<and> b < 64 - 5 * j \<and> bit (ds ! j) (b - (59 - 5 * j))
      else b < 4 \<and> bit (ds ! 12) b)" if "j < 13" for j b
  proof (cases "j < 12")
    case True
    then show ?thesis
      using small(1) unfolding bit_place by fastforce
  next
    case False
    then have "j = 12"
      using that by simp
    then show ?thesis
      using small(2) unfolding bit_place by auto
  qed
  show "bit (digit (digits_value 0 ds) i) k \<longleftrightarrow> bit (ds ! i) k"
  proof (cases "i < 12")
    case True
    show ?thesis
    proof (cases "k < 5")
      case k: True
      have "(\<exists>j<13. bit (place j (ds ! j)) (59 - 5 * i + k)) \<longleftrightarrow> bit (place i (ds ! i)) (59 - 5 * i + k)"
      proof
        assume "\<exists>j<13. bit (place j (ds ! j)) (59 - 5 * i + k)"
        then obtain j where j: "j < 13" "bit (place j (ds ! j)) (59 - 5 * i + k)" by blast
        then have "j = i"
          using True k unfolding pos[OF j(1)] by (auto split: if_splits)
        then show "bit (place i (ds ! i)) (59 - 5 * i + k)"
          using j by simp
      qed (use i in blast)
      moreover have "bit (place i (ds ! i)) (59 - 5 * i + k) \<longleftrightarrow> bit (ds ! i) k"
      proof -
        have "59 - 5 * i + k < 64" "59 - 5 * i \<le> 59 - 5 * i + k" "59 - 5 * i + k - (59 - 5 * i) = k"
          using True k by arith+
        then show ?thesis
          using True by (simp only: bit_place) simp
      qed
      ultimately show ?thesis
        using True k by (simp only: bit_digit bit_digits_value len add_0 if_True simp_thms)
    next
      case False
      then show ?thesis
        using True small(1) by (auto simp: bit_digit)
    qed
  next
    case False
    then have i12: "i = 12"
      using i by simp
    have "(\<exists>j<13. bit (place j (ds ! j)) k) \<longleftrightarrow> bit (place 12 (ds ! 12)) k" if "k < 4"
    proof
      assume "\<exists>j<13. bit (place j (ds ! j)) k"
      then obtain j where j: "j < 13" "bit (place j (ds ! j)) k" by blast
      then have "j = 12"
        using that unfolding pos[OF j(1)] by (auto split: if_splits)
      then show "bit (place 12 (ds ! 12)) k"
        using j by simp
    qed (auto intro: exI[of _ 12])
    moreover have "bit (place 12 (ds ! 12)) k \<longleftrightarrow> bit (ds ! 12) k" if "k < 4"
      using that by (simp add: bit_place)
    ultimately show ?thesis
      using small(2) unfolding i12 bit_digit bit_digits_value len by auto
  qed
qed

section \<open>The encoder\<close>

lemma encode_chars_digits:
  assumes "i \<le> length str" "i \<le> 12" "\<forall>j<i. char_to_symbol (str ! j) = Inr (ds ! j)" "length ds = i"
  shows "encode_chars str i n = Inr (n OR digits_value 0 ds)"
  using assms
proof (induction i arbitrary: n ds)
  case (Suc i)
  note last = snoc_nth[OF Suc.prems(4)]
  have "encode_chars str i (n OR push_bit (64 - 5 * (i + 1)) (ds ! i))
      = Inr ((n OR push_bit (64 - 5 * (i + 1)) (ds ! i)) OR digits_value 0 (butlast ds))"
    using Suc.prems by (intro Suc.IH) (auto simp: nth_butlast)
  moreover have "digits_value 0 ds = digits_value 0 (butlast ds) OR place i (ds ! i)"
    by (subst last, subst digits_value_append) (use Suc.prems(4) in simp)
  ultimately show ?case
    using Suc.prems by (simp add: place_def or.assoc or.commute or.left_commute)
qed simp

lemma string_to_uint64_t_digits:
  assumes "length str \<le> 13" "\<forall>j<length str. char_to_symbol (str ! j) = Inr (ds ! j)" "length ds = length str"
    and "length str = 13 \<Longrightarrow> ds ! 12 \<le> 0x0F"
  shows "string_to_uint64_t str = Inr (digits_value 0 ds)"
proof (cases "length str = 13")
  case True
  have last: "ds = butlast ds @ [ds ! 12]"
    using True assms(3) by (intro snoc_nth) simp
  have "digits_value 0 ds = digits_value 0 (butlast ds) OR place 12 (ds ! 12)"
    by (subst last, subst digits_value_append) (use True assms(3) in simp)
  then have "digits_value 0 ds = digits_value 0 (butlast ds) OR ds ! 12"
    by (simp add: place_def)
  moreover have "encode_chars str 12 (ds ! 12) = Inr (ds ! 12 OR digits_value 0 (butlast ds))"
    using True assms by (intro encode_chars_digits) (auto simp: nth_butlast)
  ultimately show ?thesis
    using True assms by (simp add: string_to_uint64_t_def or.commute not_less)
next
  case False
  then show ?thesis
    using assms encode_chars_digits[of "length str" str ds 0] by (simp add: string_to_uint64_t_def)
qed

definition valid_char :: "char \<Rightarrow> char \<Rightarrow> bool" where
  "valid_char hi c \<longleftrightarrow> in_range (CHR ''a'') hi c \<or> in_range (CHR ''1'') (CHR ''5'') c \<or> c = CHR ''.''"

lemma charmap_table:
  assumes "k < 32"
  shows "char_to_symbol (charmap ! k) = Inr (of_nat k)" "valid_char (CHR ''z'') (charmap ! k)"
    "valid_char (CHR ''j'') (charmap ! k) \<longleftrightarrow> k < 16" "charmap ! k = CHR ''.'' \<longleftrightarrow> k = 0"
    "6 \<le> k \<Longrightarrow> of_char (charmap ! k) = 91 + k" "1 \<le> k \<Longrightarrow> k < 6 \<Longrightarrow> of_char (charmap ! k) = 48 + k"
proof -
  have "list_all (\<lambda>k. char_to_symbol (charmap ! k) = Inr (of_nat k) \<and> valid_char (CHR ''z'') (charmap ! k) \<and>
      (valid_char (CHR ''j'') (charmap ! k) \<longleftrightarrow> k < 16) \<and> (charmap ! k = CHR ''.'' \<longleftrightarrow> k = 0) \<and>
      (6 \<le> k \<longrightarrow> of_char (charmap ! k) = 91 + k) \<and> (1 \<le> k \<longrightarrow> k < 6 \<longrightarrow> of_char (charmap ! k) = 48 + k)) [0..<32]"
    by code_simp
  moreover have "k \<in> set [0..<32]"
    using assms by (simp only: set_upt atLeastLessThan_iff) simp
  ultimately show "char_to_symbol (charmap ! k) = Inr (of_nat k)" "valid_char (CHR ''z'') (charmap ! k)"
    "valid_char (CHR ''j'') (charmap ! k) \<longleftrightarrow> k < 16" "charmap ! k = CHR ''.'' \<longleftrightarrow> k = 0"
    "6 \<le> k \<Longrightarrow> of_char (charmap ! k) = 91 + k" "1 \<le> k \<Longrightarrow> k < 6 \<Longrightarrow> of_char (charmap ! k) = 48 + k"
    unfolding list_all_iff by blast+
qed

lemma valid_char_charmap:
  assumes "valid_char (CHR ''z'') c"
  shows "\<exists>k<32. c = charmap ! k"
proof -
  have "\<exists>k<32. of_char c = (of_char (charmap ! k) :: nat)"
    using assms unfolding valid_char_def
  proof (elim disjE)
    assume "in_range (CHR ''a'') (CHR ''z'') c"
    then have "97 \<le> (of_char c :: nat)" "(of_char c :: nat) \<le> 122"
      by (simp_all add: in_range_def)
    then show ?thesis
      using charmap_table(5)[of "of_char c - 91"] by (intro exI[of _ "of_char c - 91"]) simp
  next
    assume "in_range (CHR ''1'') (CHR ''5'') c"
    then have "49 \<le> (of_char c :: nat)" "(of_char c :: nat) \<le> 53"
      by (simp_all add: in_range_def)
    then show ?thesis
      using charmap_table(6)[of "of_char c - 48"] by (intro exI[of _ "of_char c - 48"]) simp
  next
    assume "c = CHR ''.''"
    then show ?thesis
      using charmap_table(4)[of 0] by (intro exI[of _ 0]) simp
  qed
  then show ?thesis by simp
qed

lemma char_to_symbol_valid: "valid_char (CHR ''z'') c \<longleftrightarrow> (\<exists>d. char_to_symbol c = Inr d)"
  "\<not> valid_char (CHR ''z'') c \<Longrightarrow> char_to_symbol c = Inl Name_type_exception"
  by (auto simp: char_to_symbol_def valid_char_def)

lemma to_string_raw:
  "fst (fold to_string_step [0..<13] (replicate 13 (CHR ''.''), v)) = map (\<lambda>i. charmap ! unat (digit v i)) [0..<13]"
  by (simp add: to_string_step_def digit_def numeral_eq_Suc upt_rec[of _ "Suc _"])

lemma char_to_symbol_Inl: "char_to_symbol c = Inl e \<Longrightarrow> e = Name_type_exception"
  by (auto simp: char_to_symbol_def split: if_splits)

lemma symbol_word: "char_to_symbol c = Inr d \<Longrightarrow> \<exists>k<32. c = charmap ! k \<and> d = of_nat k \<and> unat d = k"
proof -
  assume c: "char_to_symbol c = Inr d"
  then obtain k where k: "k < 32" "c = charmap ! k"
    using valid_char_charmap char_to_symbol_valid(1) by blast
  then have "d = of_nat k"
    using charmap_table(1)[of k] c by simp
  moreover have "unat (of_nat k :: 64 word) = k"
    using k(1) by (simp add: unat_of_nat)
  ultimately show ?thesis
    using k by blast
qed

lemma encode_chars_bad:
  assumes "j < i" "\<not> valid_char (CHR ''z'') (str ! j)"
  shows "encode_chars str i n = Inl Name_type_exception"
  using assms
proof (induction i arbitrary: n)
  case (Suc i)
  show ?case
  proof (cases "valid_char (CHR ''z'') (str ! i)")
    case True
    then have "j < i"
      using Suc.prems less_Suc_eq by auto
    moreover obtain d where "char_to_symbol (str ! i) = Inr d"
      using True char_to_symbol_valid(1) by blast
    ultimately show ?thesis
      using Suc by simp
  next
    case False
    then show ?thesis
      by (simp add: char_to_symbol_valid(2))
  qed
qed simp

lemma is_string_valid_name_alt:
  "is_string_valid_name str \<longleftrightarrow> length str \<le> 13 \<and> (\<forall>j<min 12 (length str). valid_char (CHR ''z'') (str ! j)) \<and>
     (length str = 13 \<longrightarrow> valid_char (CHR ''j'') (str ! 12))"
proof -
  have "min 12 (length str) = (if length str \<le> 12 then length str else 12)"
    by simp
  then show ?thesis
    by (auto simp: is_string_valid_name_def Let_def list_all_length valid_char_def)
qed

lemma valid_char_j: "valid_char (CHR ''j'') c \<Longrightarrow> valid_char (CHR ''z'') c"
  by (auto simp: valid_char_def in_range_def)

lemma symbol_le_15: "char_to_symbol c = Inr d \<Longrightarrow> d \<le> 0x0F \<longleftrightarrow> valid_char (CHR ''j'') c"
proof -
  assume "char_to_symbol c = Inr d"
  then obtain k where k: "k < 32" "c = charmap ! k" "unat d = k"
    using symbol_word by blast
  have "d \<le> 0x0F \<longleftrightarrow> k \<le> 15"
    using k(3) by (simp add: word_le_nat_alt)
  then show ?thesis
    using charmap_table(3)[OF k(1)] k(2) by auto
qed

lemma valid_name_digits:
  assumes "is_string_valid_name str"
  shows "\<exists>ds. length ds = length str \<and> (\<forall>j<length str. char_to_symbol (str ! j) = Inr (ds ! j)) \<and>
     (length str = 13 \<longrightarrow> ds ! 12 \<le> 0x0F)"
proof -
  have len: "length str \<le> 13" and j: "length str = 13 \<Longrightarrow> valid_char (CHR ''j'') (str ! 12)"
    using assms by (simp_all add: is_string_valid_name_alt)
  have valid: "valid_char (CHR ''z'') (str ! k)" if "k < length str" for k
  proof (cases "k < 12")
    case True
    then show ?thesis using assms that by (simp add: is_string_valid_name_alt)
  next
    case False
    then have "k = 12" "length str = 13"
      using that len by simp_all
    then show ?thesis using j valid_char_j by simp
  qed
  let ?ds = "map (\<lambda>c. projr (char_to_symbol c)) str"
  have sym: "\<forall>k<length str. char_to_symbol (str ! k) = Inr (?ds ! k)"
    using valid char_to_symbol_valid(1) by fastforce
  moreover have "length str = 13 \<longrightarrow> ?ds ! 12 \<le> 0x0F"
  proof
    assume l: "length str = 13"
    then have "char_to_symbol (str ! 12) = Inr (?ds ! 12)"
      using sym by simp
    then show "?ds ! 12 \<le> 0x0F"
      using symbol_le_15 j[OF l] by blast
  qed
  ultimately show ?thesis
    by (intro exI[of _ ?ds]) simp
qed

lemma invalid_name_fails:
  assumes "\<not> is_string_valid_name str"
  shows "string_to_uint64_t str = Inl Name_type_exception"
proof (cases "13 < length str")
  case False
  consider (char) j where "j < min 12 (length str)" "\<not> valid_char (CHR ''z'') (str ! j)"
    | (last) "length str = 13" "\<not> valid_char (CHR ''j'') (str ! 12)"
    using assms False by (auto simp: is_string_valid_name_alt)
  then show ?thesis
  proof cases
    case char
    then have bad: "encode_chars str (min 12 (length str)) n = Inl Name_type_exception" for n
      by (rule encode_chars_bad)
    show ?thesis
    proof (cases "length str = 13")
      case True
      then show ?thesis
        using bad[of _] char_to_symbol_Inl by (cases "char_to_symbol (str ! 12)")
          (auto simp: string_to_uint64_t_def)
    next
      case shorter: False
      then show ?thesis
        using bad[of 0] False by (simp add: string_to_uint64_t_def min_absorb2)
    qed
  next
    case last
    show ?thesis
    proof (cases "char_to_symbol (str ! 12)")
      case (Inl e)
      then show ?thesis
        using last by (auto simp: string_to_uint64_t_def char_to_symbol_def split: if_splits)
    next
      case (Inr d)
      then have "0x0F < d"
        using symbol_le_15[OF Inr] last(2) by (simp add: not_le)
      then show ?thesis
        using Inr last(1) by (simp add: string_to_uint64_t_def)
    qed
  qed
qed (simp add: string_to_uint64_t_def)

text \<open>
  The encoder returns for exactly the strings that \<open>is_string_valid_name\<close> accepts, and throws a name type
  exception for all others.
\<close>

theorem name_encodes_iff_valid:
  "string_to_uint64_t str =
     (if is_string_valid_name str then Inr (projr (string_to_uint64_t str)) else Inl Name_type_exception)"
proof (cases "is_string_valid_name str")
  case True
  then have len: "length str \<le> 13"
    by (simp add: is_string_valid_name_alt)
  obtain ds where "length ds = length str" "\<forall>j<length str. char_to_symbol (str ! j) = Inr (ds ! j)"
    "length str = 13 \<longrightarrow> ds ! 12 \<le> 0x0F"
    using valid_name_digits[OF True] by blast
  then have "string_to_uint64_t str = Inr (digits_value 0 ds)"
    using len by (intro string_to_uint64_t_digits) auto
  then show ?thesis
    using True by simp
qed (simp add: invalid_name_fails)

section \<open>Round trips\<close>

lemma trim_dots_append: "trim_dots (str @ replicate n (CHR ''.'')) = trim_dots str"
proof -
  have "dropWhile (\<lambda>c. c = CHR ''.'') (replicate n (CHR ''.'') @ rev str) = dropWhile (\<lambda>c. c = CHR ''.'') (rev str)"
    by (induction n) auto
  then show ?thesis
    by (simp add: trim_dots_def)
qed

lemma takeWhile_replicate: "\<exists>n. takeWhile (\<lambda>c. c = d) xs = replicate n d"
proof (induction xs)
  case (Cons x xs)
  then obtain n where "takeWhile (\<lambda>c. c = d) xs = replicate n d" by blast
  then show ?case
    by (cases "x = d") (auto intro: exI[of _ "Suc n"] exI[of _ 0])
qed simp

lemma trim_dots_split: "\<exists>n. str = trim_dots str @ replicate n (CHR ''.'')"
proof -
  obtain n where "takeWhile (\<lambda>c. c = CHR ''.'') (rev str) = replicate n (CHR ''.'')"
    using takeWhile_replicate[of "CHR ''.''" "rev str"] by blast
  then have "rev str = replicate n (CHR ''.'') @ rev (trim_dots str)"
    using takeWhile_dropWhile_id[of "\<lambda>c. c = CHR ''.''" "rev str"] by (simp add: trim_dots_def)
  then have "str = trim_dots str @ replicate n (CHR ''.'')"
    by (simp add: rev_swap)
  then show ?thesis ..
qed

lemma digit_small: "unat (digit v i) < 32" "unat (digit v 12) < 16"
proof -
  have "\<forall>k. bit (digit v i) k \<longrightarrow> k < 5" "\<forall>k. bit (digit v 12) k \<longrightarrow> k < 4"
    by (auto simp: bit_digit)
  then show "unat (digit v i) < 32" "unat (digit v 12) < 16"
    unfolding word_bits_bound by simp_all
qed

text \<open>
  C33. Every 64-bit value is the value of the string it prints as.
\<close>

theorem name_roundtrip_value: "string_to_uint64_t (to_string v) = Inr v"
proof -
  let ?raw = "map (\<lambda>i. charmap ! unat (digit v i)) [0..<13]" and ?s = "to_string v"
  obtain n where n: "?raw = ?s @ replicate n (CHR ''.'')"
    using trim_dots_split[of ?raw] by (auto simp only: to_string_def to_string_raw)
  from arg_cong[OF n, of length] have len: "length ?s + n = 13"
    by (simp only: length_map length_upt length_append length_replicate)
  let ?ds = "map (digit v) [0..<length ?s]"
  have nth: "(?s @ replicate n (CHR ''.'')) ! j = charmap ! unat (digit v j)" if "j < 13" for j
    unfolding n[symmetric] using that by (simp only: nth_map_upt) simp
  have zero: "digit v j = 0" if "length ?s \<le> j" "j < 13" for j
  proof -
    have "charmap ! unat (digit v j) = CHR ''.''"
      using nth[of j] that len by (simp add: nth_append)
    then have "unat (digit v j) = 0"
      using charmap_table(4)[OF digit_small(1)] by simp
    then show ?thesis by (simp add: unat_eq_0)
  qed
  have "string_to_uint64_t ?s = Inr (digits_value 0 ?ds)"
  proof (rule string_to_uint64_t_digits)
    show "\<forall>j<length ?s. char_to_symbol (?s ! j) = Inr (?ds ! j)"
    proof (intro allI impI)
      fix j assume j: "j < length ?s"
      then have "?s ! j = charmap ! unat (digit v j)"
        using nth[of j] len by (simp add: nth_append)
      then show "char_to_symbol (?s ! j) = Inr (?ds ! j)"
        using charmap_table(1)[OF digit_small(1)] j by simp
    qed
    show "?ds ! 12 \<le> 0x0F" if "length ?s = 13"
      using digit_small(2)[of v] that by (simp add: word_le_nat_alt)
  qed (use len in simp_all)
  moreover have "map (digit v) [0..<13] = ?ds @ replicate n 0"
    using len zero by (intro nth_equalityI) (auto simp: nth_append)
  ultimately show ?thesis
    using digits_value_digits[of v] by (simp add: digits_value_append digits_value_zeros)
qed

text \<open>
  C34. Every string that encodes prints again as itself without its trailing dots.
\<close>

theorem name_roundtrip_string:
  assumes "string_to_uint64_t str = Inr v"
  shows "to_string v = trim_dots str"
proof -
  have valid: "is_string_valid_name str"
    using assms invalid_name_fails by fastforce
  then have len: "length str \<le> 13"
    by (simp add: is_string_valid_name_alt)
  obtain ds where ds: "length ds = length str" "\<forall>j<length str. char_to_symbol (str ! j) = Inr (ds ! j)"
    "length str = 13 \<longrightarrow> ds ! 12 \<le> 0x0F"
    using valid_name_digits[OF valid] by blast
  let ?n = "13 - length str"
  let ?es = "ds @ replicate ?n 0"
  have v: "v = digits_value 0 ?es"
    using assms string_to_uint64_t_digits[OF len ds(2,1)] ds(3)
    by (simp add: digits_value_append digits_value_zeros)
  have sym: "unat (?es ! j) < 32 \<and> (str @ replicate ?n (CHR ''.'')) ! j = charmap ! unat (?es ! j)" if "j < 13" for j
  proof (cases "j < length str")
    case True
    then obtain k where "k < 32" "str ! j = charmap ! k" "unat (ds ! j) = k"
      using ds(2) symbol_word by blast
    then show ?thesis
      using True ds(1) by (simp add: nth_append)
  next
    case False
    then show ?thesis
      using that ds(1) len charmap_table(4)[of 0] by (simp add: nth_append)
  qed
  have "digit v i = ?es ! i" if "i < 13" for i
    unfolding v
  proof (rule digit_digits_value)
    show "\<forall>j<12. \<forall>k. bit (?es ! j) k \<longrightarrow> k < 5"
      using sym by (simp only: word_bits_bound) simp
    have "unat (?es ! 12) < 16"
      using ds len by (auto simp: nth_append word_le_nat_alt)
    then show "\<forall>k. bit (?es ! 12) k \<longrightarrow> k < 4"
      by (simp only: word_bits_bound) simp
  qed (use ds(1) len that in simp_all)
  then have "map (\<lambda>i. charmap ! unat (digit v i)) [0..<13] = str @ replicate ?n (CHR ''.'')"
    using sym len by (intro nth_equalityI) auto
  then show ?thesis
    by (simp only: to_string_def to_string_raw trim_dots_append)
qed

theorem name_roundtrip_string_witness:
  "string_to_uint64_t ''token..'' = Inr 0xCD20A98000000000 \<and> to_string 0xCD20A98000000000 = trim_dots ''token..'' \<and> trim_dots ''token..'' = ''token''"
proof -
  have "string_to_uint64_t ''token..'' = Inr 0xCD20A98000000000" "trim_dots ''token..'' = ''token''"
    by code_simp+
  with name_roundtrip_string[OF this(1)] show ?thesis by blast
qed

end
