(* ===== verification/Chain_Asset.thy ===== *)
theory Chain_Asset
  imports Chain_Prelude
begin

unbundle bit_operations_syntax

text \<open>
  Symbols and assets (\<^verbatim>\<open>libraries/chain/include/dcd/chain/symbol.hpp\<close>, \<^verbatim>\<open>asset.hpp\<close>). A symbol is a
  64-bit word: the number of decimals in the lowest byte and up to seven upper case letters
  above it. An asset is an amount of magnitude below \<open>2 ^ 62\<close> and a symbol; the amount is
  modelled as an integer, and the sums are shown to fit 64 bits.
\<close>

section \<open>Symbols\<close>

definition upper_char :: "char \<Rightarrow> bool" where
  "upper_char c = (65 \<le> (of_char c :: nat) \<and> (of_char c :: nat) \<le> 90)"

text \<open>A shift by 64 bits or more, for the eighth letter on, is undefined in the source.\<close>

fun symbol_letters :: "nat \<Rightarrow> string \<Rightarrow> 64 word \<Rightarrow> 64 word result" where
  "symbol_letters i [] acc = Inr acc"
| "symbol_letters i (c # str) acc =
     (if \<not> upper_char c then Inl Symbol_type_exception
      else if 64 \<le> 8 * (i + 1) then Inl Undefined_behaviour
      else symbol_letters (Suc i) str (acc OR push_bit (8 * (i + 1)) (of_nat (of_char c))))"

definition string_to_symbol :: "8 word \<Rightarrow> string \<Rightarrow> 64 word result" where
  "string_to_symbol p str = bind_res (symbol_letters 0 str 0) (\<lambda>r. Inr (r OR ucast p))"

definition max_precision :: nat where
  "max_precision = 18"

definition symbol_decimals :: "64 word \<Rightarrow> 8 word" where
  "symbol_decimals v = ucast (v AND 0xFF)"

function symbol_chars :: "64 word \<Rightarrow> string" where
  "symbol_chars v = (if 0 < v then char_of (unat (v AND 0xFF)) # symbol_chars (drop_bit 8 v) else [])"
  by pat_completeness auto
termination
proof (relation "measure unat")
  fix v :: "64 word"
  assume "0 < v"
  then show "(drop_bit 8 v, v) \<in> measure unat"
    by (simp add: unat_drop_byte word_gt_0 unat_gt_0)
qed simp

declare symbol_chars.simps [simp del]

definition symbol_name :: "64 word \<Rightarrow> string" where
  "symbol_name v = symbol_chars (drop_bit 8 v)"

definition valid_symbol_name :: "string \<Rightarrow> bool" where
  "valid_symbol_name name = list_all upper_char name"

definition symbol_valid :: "64 word \<Rightarrow> bool" where
  "symbol_valid v = (unat (symbol_decimals v) \<le> max_precision \<and> valid_symbol_name (symbol_name v))"

definition make_symbol :: "8 word \<Rightarrow> string \<Rightarrow> 64 word result" where
  "make_symbol p str =
     bind_res (string_to_symbol p str) (\<lambda>v. if symbol_valid v then Inr v else Inl Symbol_type_exception)"

definition symbol_of_value :: "64 word \<Rightarrow> 64 word result" where
  "symbol_of_value v = (if symbol_valid v then Inr v else Inl Symbol_type_exception)"

fun power_of_ten :: "nat \<Rightarrow> 64 word \<Rightarrow> 64 word" where
  "power_of_ten 0 p10 = p10"
| "power_of_ten (Suc p) p10 = power_of_ten p (p10 * 10)"

definition symbol_precision :: "64 word \<Rightarrow> 64 word result" where
  "symbol_precision v =
     (if unat (symbol_decimals v) \<le> max_precision then Inr (power_of_ten (unat (symbol_decimals v)) 1)
      else Inl Symbol_type_exception)"

definition to_symbol_code :: "64 word \<Rightarrow> 64 word" where
  "to_symbol_code v = drop_bit 8 v"

section \<open>Assets\<close>

record asset =
  amount :: int
  sym :: "64 word"

definition max_amount :: int where
  "max_amount = 2 ^ 62 - 1"

definition is_amount_within_range :: "int \<Rightarrow> bool" where
  "is_amount_within_range a = (- max_amount \<le> a \<and> a \<le> max_amount)"

definition is_valid :: "asset \<Rightarrow> bool" where
  "is_valid a = (is_amount_within_range (amount a) \<and> symbol_valid (sym a))"

definition make_asset :: "int \<Rightarrow> 64 word \<Rightarrow> asset result" where
  "make_asset a s =
     (if \<not> is_amount_within_range a then Inl Asset_type_exception
      else if \<not> symbol_valid s then Inl Asset_type_exception
      else Inr \<lparr>amount = a, sym = s\<rparr>)"

definition asset_add_assign :: "asset \<Rightarrow> asset \<Rightarrow> asset result" where
  "asset_add_assign a o' =
     (if sym a \<noteq> sym o' then Inl Asset_type_exception else Inr (a\<lparr>amount := amount a + amount o'\<rparr>))"

definition asset_sub_assign :: "asset \<Rightarrow> asset \<Rightarrow> asset result" where
  "asset_sub_assign a o' =
     (if sym a \<noteq> sym o' then Inl Asset_type_exception else Inr (a\<lparr>amount := amount a - amount o'\<rparr>))"

definition asset_neg :: "asset \<Rightarrow> asset result" where
  "asset_neg a = make_asset (- amount a) (sym a)"

definition asset_add :: "asset \<Rightarrow> asset \<Rightarrow> asset result" where
  "asset_add a b = (if sym a \<noteq> sym b then Inl Asset_type_exception else make_asset (amount a + amount b) (sym a))"

definition asset_sub :: "asset \<Rightarrow> asset \<Rightarrow> asset result" where
  "asset_sub a b = (if sym a \<noteq> sym b then Inl Asset_type_exception else make_asset (amount a - amount b) (sym a))"

definition asset_eq :: "asset \<Rightarrow> asset \<Rightarrow> bool" where
  "asset_eq a b = (sym a = sym b \<and> amount a = amount b)"

definition asset_less :: "asset \<Rightarrow> asset \<Rightarrow> bool result" where
  "asset_less a b =
     (if sym a \<noteq> sym b then Inl Asset_type_exception
      else Inr (amount a < amount b \<or> (amount a = amount b \<and> sym a < sym b)))"

definition asset_le :: "asset \<Rightarrow> asset \<Rightarrow> bool result" where
  "asset_le a b = (if asset_eq a b then Inr True else asset_less a b)"

definition asset_greater :: "asset \<Rightarrow> asset \<Rightarrow> bool result" where
  "asset_greater a b = bind_res (asset_le a b) (\<lambda>r. Inr (\<not> r))"

definition asset_ge :: "asset \<Rightarrow> asset \<Rightarrow> bool result" where
  "asset_ge a b = bind_res (asset_less a b) (\<lambda>r. Inr (\<not> r))"

section \<open>Bytes\<close>

fun bytes_value :: "string \<Rightarrow> nat" where
  "bytes_value [] = 0"
| "bytes_value (c # cs) = of_char c + 256 * bytes_value cs"

lemma of_char_less: "(of_char c :: nat) < 256"
  by simp

lemma bytes_value_less: "bytes_value cs < 2 ^ (8 * length cs)"
proof (induction cs)
  case (Cons c cs)
  have "bytes_value (c # cs) < 256 + 256 * bytes_value cs"
    by simp
  also have "\<dots> \<le> 256 * 2 ^ (8 * length cs)"
    using Cons by simp
  also have "\<dots> = 2 ^ (8 * length (c # cs))"
    by (simp add: power_add)
  finally show ?case .
qed simp

lemma upper_bytes_value: "list_all upper_char cs \<Longrightarrow> cs \<noteq> [] \<Longrightarrow> 2 ^ (8 * (length cs - 1)) \<le> bytes_value cs"
proof (induction cs)
  case (Cons c cs)
  show ?case
  proof (cases "cs = []")
    case False
    then have "2 ^ (8 * length cs) = 256 * (2 :: nat) ^ (8 * (length cs - 1))"
      by (cases cs) (simp_all add: power_add)
    then show ?thesis
      using Cons False by simp
  qed (use Cons.prems in \<open>simp add: upper_char_def\<close>)
qed simp

lemma symbol_chars_value: "bytes_value (symbol_chars v) = unat v"
proof (induction v rule: symbol_chars.induct)
  case (1 v)
  show ?case
  proof (cases "0 < v")
    case True
    then show ?thesis
      using 1[OF True] by (subst symbol_chars.simps) (simp add: unat_low_byte unat_drop_byte)
  next
    case False
    then show ?thesis
      by (subst symbol_chars.simps) (simp add: word_gt_0)
  qed
qed

lemma symbol_chars_of_value:
  assumes "unat v = bytes_value cs" "\<forall>c \<in> set cs. c \<noteq> char_of (0 :: nat)"
  shows "symbol_chars v = cs"
  using assms
proof (induction cs arbitrary: v)
  case Nil
  then have "v = 0" by (simp add: unat_eq_0)
  then show ?case by (simp add: symbol_chars.simps)
next
  case (Cons c cs)
  have "(of_char c :: nat) \<noteq> 0"
    using Cons.prems(2) by (metis char_of_char list.set_intros(1))
  then have pos: "0 < v"
    using Cons.prems(1) by (auto simp: word_gt_0)
  have "unat (v AND 0xFF) = of_char c" "unat (drop_bit 8 v) = bytes_value cs"
    using Cons.prems(1) by (simp_all add: unat_low_byte unat_drop_byte)
  then show ?case
    using Cons pos by (subst symbol_chars.simps) simp
qed

lemma symbol_letters_value:
  assumes "list_all upper_char str" "length str + i \<le> 7" "unat acc < 2 ^ (8 * (i + 1))"
  shows "\<exists>r. symbol_letters i str acc = Inr r \<and> unat r = unat acc + 2 ^ (8 * (i + 1)) * bytes_value str"
  using assms
proof (induction str arbitrary: i acc)
  case (Cons c str)
  let ?acc = "acc OR push_bit (8 * (i + 1)) (of_nat (of_char c))"
  have "(of_char c :: nat) < 2 ^ LENGTH(64)"
    by (rule less_trans[OF of_char_less]) simp
  then have c: "unat (of_nat (of_char c) :: 64 word) = of_char c"
    by (simp only: unat_of_nat mod_less)
  have bound: "2 ^ (8 * (i + 1)) * (of_char c :: nat) < 2 ^ (8 * (i + 2))"
  proof -
    have "2 ^ (8 * (i + 1)) * (of_char c :: nat) < 2 ^ (8 * (i + 1)) * 256"
      by simp
    then show ?thesis by (simp add: power_add)
  qed
  moreover have "(2 :: nat) ^ (8 * (i + 2)) \<le> 2 ^ 64"
    using Cons.prems(2) by (intro power_increasing) auto
  ultimately have acc: "unat ?acc = unat acc + 2 ^ (8 * (i + 1)) * of_char c"
    using unat_or_push_bit[OF Cons.prems(3), of "of_nat (of_char c)"] c by simp
  have "unat ?acc < 2 ^ (8 * (Suc i + 1))"
  proof -
    have "unat ?acc < 2 ^ (8 * (i + 1)) * (1 + of_char c)"
      unfolding acc using Cons.prems(3) by simp
    also have "\<dots> \<le> 2 ^ (8 * (i + 1)) * 256"
    proof (rule mult_left_mono)
      show "1 + of_char c \<le> (256 :: nat)"
        using of_char_less[of c] by linarith
    qed simp
    finally show ?thesis by (simp add: power_add)
  qed
  then obtain r where r: "symbol_letters (Suc i) str ?acc = Inr r"
    "unat r = unat ?acc + 2 ^ (8 * (Suc i + 1)) * bytes_value str"
    using Cons.IH[of "Suc i" ?acc] Cons.prems by auto
  have "unat r = unat acc + 2 ^ (8 * (i + 1)) * bytes_value (c # str)"
    unfolding r(2) acc by (simp add: algebra_simps power_add)
  moreover have "symbol_letters i (c # str) acc = Inr r"
    using Cons.prems r(1) by simp
  ultimately show ?case by blast
qed simp

section \<open>Round trips of symbols\<close>

lemma unat_precision_byte: "unat (ucast (p :: 8 word) :: 64 word) = unat p"
proof -
  have "unat p < 2 ^ 64"
    using unsigned_less[of p, where 'a = nat] by simp
  then show ?thesis
    by (simp only: unsigned_ucast_eq take_bit_eq_mod) simp
qed

lemma unat_low_cast: "unat (ucast (w :: 64 word) :: 8 word) = unat w mod 256"
  by (simp only: unsigned_ucast_eq take_bit_eq_mod) simp

lemma string_to_symbol_value:
  assumes "list_all upper_char str" "length str \<le> 7"
  shows "\<exists>v. string_to_symbol p str = Inr v \<and> unat v = unat p + 256 * bytes_value str"
proof -
  obtain r where r: "symbol_letters 0 str 0 = Inr r" "unat r = 256 * bytes_value str"
    using symbol_letters_value[OF assms(1), of 0 0] assms(2) by auto
  have "bytes_value str < 2 ^ 56"
    using bytes_value_less[of str] assms(2) power_increasing[of "8 * length str" 56 "2 :: nat"] by simp
  then have b: "unat (of_nat (bytes_value str) :: 64 word) = bytes_value str" "256 * bytes_value str < 2 ^ 64"
    by (simp_all add: unat_of_nat)
  have "unat (push_bit 8 (of_nat (bytes_value str)) :: 64 word) = 256 * bytes_value str"
    using unat_or_push_bit[of 0 8 "of_nat (bytes_value str)"] b by simp
  then have r': "r = push_bit 8 (of_nat (bytes_value str))"
    using r(2) by (simp only: word_unat_eq_iff)
  have "unat p < 2 ^ 8"
    using unsigned_less[of p, where 'a = nat] by simp
  then have "unat (ucast p OR r) = unat p + 256 * bytes_value str"
    unfolding r' using unat_or_push_bit[of "ucast p" 8 "of_nat (bytes_value str)"] b
    by (simp add: unat_precision_byte)
  then show ?thesis
    using r(1) by (simp add: string_to_symbol_def or.commute)
qed

lemma symbol_parts:
  assumes "unat v = unat (p :: 8 word) + 256 * bytes_value str" "list_all upper_char str"
  shows "symbol_decimals v = p" "symbol_name v = str"
proof -
  have p: "unat p < 256"
    using unsigned_less[of p, where 'a = nat] by simp
  have "unat (v AND 0xFF) = unat p"
    using assms(1) p by (simp add: unat_low_byte)
  then show "symbol_decimals v = p"
    using p by (simp add: symbol_decimals_def word_unat_eq_iff unat_low_cast)
  have "\<forall>c \<in> set str. c \<noteq> char_of (0 :: nat)"
    using assms(2) by (auto simp: list_all_iff upper_char_def)
  then show "symbol_name v = str"
    unfolding symbol_name_def using assms(1) p by (intro symbol_chars_of_value) (simp_all add: unat_drop_byte)
qed

text \<open>
  A symbol made from at most 18 decimals and at most seven upper case letters is valid and gives
  back its decimals and its name.
\<close>

theorem symbol_roundtrip:
  assumes "unat p \<le> 18" "list_all upper_char str" "length str \<le> 7"
  shows "\<exists>v. make_symbol p str = Inr v \<and> symbol_decimals v = p \<and> symbol_name v = str \<and> symbol_valid v"
proof -
  obtain v where v: "string_to_symbol p str = Inr v" "unat v = unat p + 256 * bytes_value str"
    using string_to_symbol_value[OF assms(2,3)] by blast
  then have "symbol_valid v"
    using symbol_parts[OF v(2) assms(2)] assms(1,2)
    by (simp add: symbol_valid_def valid_symbol_name_def max_precision_def)
  then show ?thesis
    using v symbol_parts[OF v(2) assms(2)] by (simp add: make_symbol_def)
qed

theorem symbol_roundtrip_witness:
  "\<exists>v. make_symbol 4 ''DCD'' = Inr v \<and> symbol_decimals v = 4 \<and> symbol_name v = ''DCD'' \<and> symbol_valid v"
  by (rule symbol_roundtrip) (simp_all add: upper_char_def)

text \<open>
  Every valid symbol is rebuilt from its decimals and its name.
\<close>

theorem symbol_rebuild:
  assumes "symbol_valid v"
  shows "string_to_symbol (symbol_decimals v) (symbol_name v) = Inr v"
proof -
  let ?s = "symbol_name v"
  have up: "list_all upper_char ?s"
    using assms by (simp add: symbol_valid_def valid_symbol_name_def)
  have val: "bytes_value ?s = unat v div 256"
    by (simp add: symbol_name_def symbol_chars_value unat_drop_byte)
  have "length ?s \<le> 7"
  proof (rule ccontr)
    assume "\<not> length ?s \<le> 7"
    then have long: "?s \<noteq> []" "56 \<le> 8 * (length ?s - 1)"
      by auto
    have "2 ^ 56 \<le> bytes_value ?s"
      using power_increasing[OF long(2), of "2 :: nat"] upper_bytes_value[OF up long(1)] by linarith
    moreover have "unat v < 2 ^ 64"
      using unsigned_less[of v, where 'a = nat] by simp
    ultimately show False
      using val by simp
  qed
  then obtain w where w: "string_to_symbol (symbol_decimals v) ?s = Inr w"
    "unat w = unat (symbol_decimals v) + 256 * bytes_value ?s"
    using string_to_symbol_value[OF up] by blast
  have "unat (symbol_decimals v) = unat v mod 256"
    by (simp add: symbol_decimals_def unat_low_cast unat_low_byte)
  then have "unat w = unat v"
    using w(2) val by simp
  then show ?thesis
    using w(1) by (simp add: word_unat_eq_iff)
qed

lemma sample_symbol: "symbol_decimals 0x44434404 = 4" "symbol_name 0x44434404 = ''DCD''" "symbol_valid 0x44434404"
proof -
  have v: "unat (0x44434404 :: 64 word) = unat (4 :: 8 word) + 256 * bytes_value ''DCD''"
    by simp
  have up: "list_all upper_char ''DCD''"
    by (simp add: upper_char_def)
  show d: "symbol_decimals 0x44434404 = 4" and n: "symbol_name 0x44434404 = ''DCD''"
    using symbol_parts[OF v up] by simp_all
  show "symbol_valid 0x44434404"
    using up unfolding symbol_valid_def d n by (simp add: valid_symbol_name_def max_precision_def)
qed

theorem symbol_rebuild_witness:
  "symbol_valid 0x44434404 \<and> string_to_symbol 4 ''DCD'' = Inr 0x44434404"
  using symbol_rebuild[of "0x44434404"] by (simp add: sample_symbol)

section \<open>Arithmetic of assets\<close>


definition sample_asset :: "int \<Rightarrow> asset" where
  "sample_asset a = \<lparr>amount = a, sym = 0x44434404\<rparr>"

lemma sample_asset_valid: "is_valid (sample_asset a) \<longleftrightarrow> \<bar>a\<bar> < 2 ^ 62"
proof -
  have "symbol_valid 0x44434404"
    by code_simp
  then show ?thesis
    by (auto simp: is_valid_def sample_asset_def is_amount_within_range_def max_amount_def)
qed


text \<open>
  The assigning operators check the symbol but not the range: adding in place two valid assets may give
  an asset that is not valid, where the operator \<open>+\<close> throws.
\<close>

theorem asset_add_assign_unchecked:
  "\<exists>a b c. is_valid a \<and> is_valid b \<and> asset_add_assign a b = Inr c \<and> \<not> is_valid c \<and> asset_add a b = Inl Asset_type_exception"
proof -
  let ?a = "sample_asset (2 ^ 62 - 1)" and ?b = "sample_asset 1"
  have "asset_add_assign ?a ?b = Inr (sample_asset (2 ^ 62))"
    by (simp add: asset_add_assign_def sample_asset_def)
  moreover have "asset_add ?a ?b = Inl Asset_type_exception"
    by (simp add: asset_add_def sample_asset_def make_asset_def is_amount_within_range_def max_amount_def)
  moreover have "is_valid ?a" "is_valid ?b" "\<not> is_valid (sample_asset (2 ^ 62))"
    by (simp_all add: sample_asset_valid)
  ultimately show ?thesis by blast
qed

end
