(* ===== verification/Authority.thy ===== *)
theory Authority
  imports Chain_Prelude "HOL-Library.Product_Lexorder" "HOL-Library.Multiset"
begin

text \<open>
  Authorities and the authority checker (\<^verbatim>\<open>libraries/chain/include/dcd/chain/authority.hpp\<close>,
  \<^verbatim>\<open>authority_checker.hpp\<close>). An authority is satisfied when the weights of the keys, permissions and
  delays that hold reach its threshold; permissions refer to authorities in turn, down to a
  depth limit. The theory shows that a positive answer of the checker is justified, that a
  valid authority can be satisfied, and what the set of used keys means.

  The type of public keys is a parameter with a linear order. The lookup of an authority by
  permission is a function argument; \<open>None\<close> is its permission query exception. Delays are in
  microseconds. The depth of the recursion is counted down from the limit.
\<close>

section \<open>Authorities\<close>

record permission_level =
  actor :: "64 word"
  permission :: "64 word"

record permission_level_weight =
  plw_permission :: permission_level
  plw_weight :: "16 word"

record 'k key_weight =
  kw_key :: 'k
  kw_weight :: "16 word"

record wait_weight =
  wait_sec :: "32 word"
  ww_weight :: "16 word"

record 'k authority =
  threshold :: "32 word"
  keys :: "'k key_weight list"
  accounts :: "permission_level_weight list"
  waits :: "wait_weight list"

definition permission_level_less :: "permission_level \<Rightarrow> permission_level \<Rightarrow> bool" where
  "permission_level_less a b = (actor a < actor b \<or> (actor a = actor b \<and> permission a < permission b))"

definition authority_of_key :: "'k \<Rightarrow> 32 word \<Rightarrow> 'k authority" where
  "authority_of_key k delay_sec =
     (if 0 < delay_sec
      then \<lparr>threshold = 2, keys = [\<lparr>kw_key = k, kw_weight = 1\<rparr>], accounts = [],
             waits = [\<lparr>wait_sec = delay_sec, ww_weight = 1\<rparr>]\<rparr>
      else \<lparr>threshold = 1, keys = [\<lparr>kw_key = k, kw_weight = 1\<rparr>], accounts = [], waits = []\<rparr>)"

definition authority_of_permission :: "permission_level \<Rightarrow> 32 word \<Rightarrow> 'k authority" where
  "authority_of_permission p delay_sec =
     (if 0 < delay_sec
      then \<lparr>threshold = 2, keys = [], accounts = [\<lparr>plw_permission = p, plw_weight = 1\<rparr>],
             waits = [\<lparr>wait_sec = delay_sec, ww_weight = 1\<rparr>]\<rparr>
      else \<lparr>threshold = 1, keys = [], accounts = [\<lparr>plw_permission = p, plw_weight = 1\<rparr>], waits = []\<rparr>)"

subsection \<open>Validation\<close>

text \<open>A loop of \<open>validate\<close>: the previous entry, the total weight, \<open>None\<close> for \<open>return false\<close>.\<close>

fun validate_entries :: "('e \<Rightarrow> 'e \<Rightarrow> bool) \<Rightarrow> ('e \<Rightarrow> 16 word) \<Rightarrow> 'e option \<Rightarrow> 'e list \<Rightarrow> 32 word \<Rightarrow> 32 word option" where
  "validate_entries ok w prev [] total_weight = Some total_weight"
| "validate_entries ok w prev (e # es) total_weight =
     (if (case prev of None \<Rightarrow> False | Some p \<Rightarrow> \<not> ok p e) then None
      else validate_entries ok w (Some e) es (total_weight + ucast (w e)))"

definition validate :: "'k :: linorder authority \<Rightarrow> bool" where
  "validate auth =
     (if 2 ^ 16 < int (length (keys auth) + length (accounts auth) + length (waits auth)) then False
      else if threshold auth = 0 then False
      else
        case validate_entries (\<lambda>p k. kw_key p < kw_key k) kw_weight None (keys auth) 0 of
          None \<Rightarrow> False
        | Some t1 \<Rightarrow>
            (case validate_entries (\<lambda>p a. permission_level_less (plw_permission p) (plw_permission a))
                    plw_weight None (accounts auth) t1 of
               None \<Rightarrow> False
             | Some t2 \<Rightarrow>
                 if waits auth \<noteq> [] \<and> wait_sec (hd (waits auth)) = 0 then False
                 else
                   (case validate_entries (\<lambda>p w. wait_sec p < wait_sec w) ww_weight None (waits auth) t2 of
                      None \<Rightarrow> False
                    | Some total_weight \<Rightarrow> threshold auth \<le> total_weight)))"

section \<open>The checker\<close>

datatype permission_cache_status = Being_evaluated | Permission_unsatisfied | Permission_satisfied

datatype 'k meta_permission =
    Account_entry permission_level_weight
  | Key_entry "'k key_weight"
  | Wait_entry wait_weight

record 'k checker_env =
  permission_to_authority :: "permission_level \<Rightarrow> 'k authority option"
  provided_keys :: "'k list"
  provided_permissions :: "permission_level list"
  provided_delay :: int
  recursion_depth_limit :: nat

record checker_state =
  cached_permissions :: "(permission_level \<times> permission_cache_status) list"
  used_flags :: "bool list"

definition initialize_permission_cache :: "'k checker_env \<Rightarrow> (permission_level \<times> permission_cache_status) list" where
  "initialize_permission_cache env = map (\<lambda>p. (p, Permission_satisfied)) (provided_permissions env)"

definition permission_status_in_cache ::
  "(permission_level \<times> permission_cache_status) list \<Rightarrow> permission_level \<Rightarrow> permission_cache_status option" where
  "permission_status_in_cache cache level =
     (case map_of cache level of
        Some s \<Rightarrow> Some s
      | None \<Rightarrow> map_of cache \<lparr>actor = actor level, permission = 0\<rparr>)"

fun meta_weight :: "'k meta_permission \<Rightarrow> 16 word" where
  "meta_weight (Account_entry a) = plw_weight a"
| "meta_weight (Key_entry k) = kw_weight k"
| "meta_weight (Wait_entry w) = ww_weight w"

fun meta_priority :: "'k meta_permission \<Rightarrow> int" where
  "meta_priority (Account_entry a) = 1"
| "meta_priority (Key_entry k) = 2"
| "meta_priority (Wait_entry w) = 3"

text \<open>The multimap ordered by descending weight and priority, insertion order among equals.\<close>

definition meta_permissions :: "'k authority \<Rightarrow> 'k meta_permission list" where
  "meta_permissions auth =
     sort_key (\<lambda>p. (- uint (meta_weight p), - meta_priority p))
       (map Account_entry (accounts auth) @ map Key_entry (keys auth) @ map Wait_entry (waits auth))"

fun index_of :: "'k \<Rightarrow> 'k list \<Rightarrow> nat option" where
  "index_of k [] = None"
| "index_of k (x # xs) = (if x = k then Some 0 else map_option Suc (index_of k xs))"

fun tally_until :: "'k checker_env \<Rightarrow> nat \<Rightarrow> 32 word \<Rightarrow> 'k meta_permission list \<Rightarrow> 32 word \<Rightarrow> checker_state \<Rightarrow> bool \<times> checker_state"
  and tally :: "'k checker_env \<Rightarrow> nat \<Rightarrow> 'k meta_permission \<Rightarrow> 32 word \<Rightarrow> checker_state \<Rightarrow> 32 word \<times> checker_state" where
  "tally_until env d thr [] total_weight st = (False, st)"
| "tally_until env d thr (p # ps) total_weight st =
     (let (total_weight', st') = tally env d p total_weight st in
      if thr \<le> total_weight' then (True, st') else tally_until env d thr ps total_weight' st')"
| "tally env d (Wait_entry w) total_weight st =
     (if uint (wait_sec w) * 1000000 \<le> provided_delay env then (total_weight + ucast (ww_weight w), st)
      else (total_weight, st))"
| "tally env d (Key_entry k) total_weight st =
     (case index_of (kw_key k) (provided_keys env) of
        None \<Rightarrow> (total_weight, st)
      | Some i \<Rightarrow> (total_weight + ucast (kw_weight k), st\<lparr>used_flags := (used_flags st)[i := True]\<rparr>))"
| "tally env d (Account_entry a) total_weight st =
     (case permission_status_in_cache (cached_permissions st) (plw_permission a) of
        None \<Rightarrow>
          (case d of
             0 \<Rightarrow> (total_weight, st)
           | Suc d' \<Rightarrow>
               (case permission_to_authority env (plw_permission a) of
                  None \<Rightarrow> (total_weight, st)
                | Some auth \<Rightarrow>
                    (let st1 = st\<lparr>cached_permissions := (plw_permission a, Being_evaluated) # cached_permissions st\<rparr>;
                         (r, st2) = tally_until env d' (threshold auth) (meta_permissions auth) 0 st1;
                         st3 = (if r then st2 else st2\<lparr>used_flags := used_flags st1\<rparr>) in
                     if r then (total_weight + ucast (plw_weight a),
                                st3\<lparr>cached_permissions := (plw_permission a, Permission_satisfied) # cached_permissions st3\<rparr>)
                     else (total_weight,
                           st3\<lparr>cached_permissions := (plw_permission a, Permission_unsatisfied) # cached_permissions st3\<rparr>))))
      | Some s \<Rightarrow> (if s = Permission_satisfied then total_weight + ucast (plw_weight a) else total_weight, st))"

definition satisfied_authority :: "'k checker_env \<Rightarrow> nat \<Rightarrow> 'k authority \<Rightarrow> checker_state \<Rightarrow> bool \<times> checker_state" where
  "satisfied_authority env d auth st =
     (let (r, st') = tally_until env d (threshold auth) (meta_permissions auth) 0 st in
      (r, if r then st' else st'\<lparr>used_flags := used_flags st\<rparr>))"

definition initial_state :: "'k checker_env \<Rightarrow> checker_state" where
  "initial_state env =
     \<lparr>cached_permissions = initialize_permission_cache env, used_flags = map (\<lambda>_. False) (provided_keys env)\<rparr>"

definition satisfied :: "'k checker_env \<Rightarrow> permission_level \<Rightarrow> checker_state \<Rightarrow> bool \<times> checker_state" where
  "satisfied env p st =
     (let (w, st') = tally env (recursion_depth_limit env)
                       (Account_entry \<lparr>plw_permission = p, plw_weight = 1\<rparr>) 0
                       (st\<lparr>cached_permissions := initialize_permission_cache env\<rparr>) in
      (0 < w, st'))"

definition satisfied_auth :: "'k checker_env \<Rightarrow> 'k authority \<Rightarrow> checker_state \<Rightarrow> bool \<times> checker_state" where
  "satisfied_auth env auth st =
     satisfied_authority env (recursion_depth_limit env) auth
       (st\<lparr>cached_permissions := initialize_permission_cache env\<rparr>)"

definition all_keys_used :: "checker_state \<Rightarrow> bool" where
  "all_keys_used st = list_all id (used_flags st)"

definition used_keys :: "'k checker_env \<Rightarrow> checker_state \<Rightarrow> 'k list" where
  "used_keys env st = map fst (filter snd (zip (provided_keys env) (used_flags st)))"

definition unused_keys :: "'k checker_env \<Rightarrow> checker_state \<Rightarrow> 'k list" where
  "unused_keys env st = map fst (filter (\<lambda>p. \<not> snd p) (zip (provided_keys env) (used_flags st)))"

section \<open>What it means to be granted\<close>

definition auth_weight :: "'k checker_env \<Rightarrow> permission_level set \<Rightarrow> 'k authority \<Rightarrow> nat" where
  "auth_weight env S auth =
     sum_list (map (\<lambda>a. if plw_permission a \<in> S then unat (plw_weight a) else 0) (accounts auth)) +
     sum_list (map (\<lambda>k. if kw_key k \<in> set (provided_keys env) then unat (kw_weight k) else 0) (keys auth)) +
     sum_list (map (\<lambda>w. if uint (wait_sec w) * 1000000 \<le> provided_delay env then unat (ww_weight w) else 0) (waits auth))"

inductive granted :: "'k checker_env \<Rightarrow> permission_level \<Rightarrow> bool" for env where
  provided: "p \<in> set (provided_permissions env) \<Longrightarrow> granted env p"
| whole_account: "\<lparr>actor = actor p, permission = 0\<rparr> \<in> set (provided_permissions env) \<Longrightarrow> granted env p"
| by_authority: "permission_to_authority env p = Some auth \<Longrightarrow> \<forall>q \<in> S. granted env q \<Longrightarrow>
    unat (threshold auth) \<le> auth_weight env S auth \<Longrightarrow> granted env p"

fun entry_ok :: "'k checker_env \<Rightarrow> 'k meta_permission \<Rightarrow> bool" where
  "entry_ok env (Account_entry a) = granted env (plw_permission a)"
| "entry_ok env (Key_entry k) = (kw_key k \<in> set (provided_keys env))"
| "entry_ok env (Wait_entry w) = (uint (wait_sec w) * 1000000 \<le> provided_delay env)"

definition entries_weight :: "'k checker_env \<Rightarrow> 'k meta_permission list \<Rightarrow> nat" where
  "entries_weight env ps = sum_list (map (\<lambda>p. if entry_ok env p then unat (meta_weight p) else 0) ps)"

lemma entries_weight_simps [simp]:
  "entries_weight env [] = 0"
  "entries_weight env (p # ps) = (if entry_ok env p then unat (meta_weight p) else 0) + entries_weight env ps"
  by (simp_all add: entries_weight_def)

lemma sum_list_sort_key: "sum_list (map f (sort_key g xs)) = (sum_list (map f xs) :: nat)"
  by (metis mset_map mset_sort sum_mset_sum_list)

lemma entries_weight_meta_permissions:
  "entries_weight env (meta_permissions auth) = auth_weight env {q. granted env q} auth"
  by (simp add: entries_weight_def meta_permissions_def sum_list_sort_key auth_weight_def comp_def cong: if_cong)

lemma by_entries:
  assumes "permission_to_authority env p = Some auth" "unat (threshold auth) \<le> entries_weight env (meta_permissions auth)"
  shows "granted env p"
  using assms by (intro by_authority[of env p auth "{q. granted env q}"]) (simp_all add: entries_weight_meta_permissions)

text \<open>Satisfied entries of the cache are granted; an entry for a whole account was provided.\<close>

definition cache_ok :: "'k checker_env \<Rightarrow> checker_state \<Rightarrow> bool" where
  "cache_ok env st \<longleftrightarrow>
     (\<forall>p. map_of (cached_permissions st) p = Some Permission_satisfied \<longrightarrow> granted env p) \<and>
     (\<forall>a s. map_of (cached_permissions st) \<lparr>actor = a, permission = 0\<rparr> = Some s \<longrightarrow>
        \<lparr>actor = a, permission = 0\<rparr> \<in> set (provided_permissions env))"

lemma status_granted:
  assumes "cache_ok env st" "permission_status_in_cache (cached_permissions st) p = Some Permission_satisfied"
  shows "granted env p"
proof (cases "map_of (cached_permissions st) p")
  case None
  then show ?thesis
    using assms unfolding cache_ok_def permission_status_in_cache_def by (intro whole_account) auto
next
  case (Some s)
  then show ?thesis
    using assms unfolding cache_ok_def permission_status_in_cache_def by auto
qed

lemma cache_ok_add:
  assumes "cache_ok env st" "permission p \<noteq> 0" "s = Permission_satisfied \<Longrightarrow> granted env p"
  shows "cache_ok env (st\<lparr>cached_permissions := (p, s) # cached_permissions st\<rparr>)"
  using assms by (auto simp: cache_ok_def)

lemma cache_ok_used [simp]: "cache_ok env (st\<lparr>used_flags := u\<rparr>) = cache_ok env st"
  by (simp add: cache_ok_def)

lemma unat_add_le: "unat (a + b) \<le> unat a + unat (b :: 32 word)"
  by (simp add: unat_word_ariths)

lemma unat_weight: "unat (ucast (w :: 16 word) :: 32 word) = unat w"
proof -
  have "unat w < 2 ^ 32"
    using unsigned_less[of w, where 'a = nat] by simp
  then show ?thesis
    by (simp only: unsigned_ucast_eq take_bit_eq_mod) simp
qed

lemma index_of_mem: "index_of k xs = Some i \<Longrightarrow> i < length xs \<and> xs ! i = k"
  by (induction xs arbitrary: i) (auto split: if_splits)

lemma index_of_None: "index_of k xs = None \<longleftrightarrow> k \<notin> set xs"
  by (induction xs) auto

lemma unat_add_weight: "unat (t + ucast (w :: 16 word) :: 32 word) \<le> unat t + unat w"
  using unat_add_le[of t "ucast w"] by (simp add: unat_weight)

definition no_whole_account_permission :: "'k checker_env \<Rightarrow> bool" where
  "no_whole_account_permission env \<longleftrightarrow> (\<forall>a. permission_to_authority env \<lparr>actor = a, permission = 0\<rparr> = None)"

lemma has_authority_permission:
  "no_whole_account_permission env \<Longrightarrow> permission_to_authority env p = Some auth \<Longrightarrow> permission p \<noteq> 0"
  by (cases p) (auto simp: no_whole_account_permission_def)

lemma tally_sound:
  shows "no_whole_account_permission env \<Longrightarrow> cache_ok env st \<Longrightarrow> tally_until env d thr ps t st = (r, st') \<Longrightarrow>
      cache_ok env st' \<and> (r \<longrightarrow> unat thr \<le> unat t + entries_weight env ps)"
    and "no_whole_account_permission env \<Longrightarrow> cache_ok env st \<Longrightarrow> tally env d p t st = (t', st') \<Longrightarrow>
      cache_ok env st' \<and> unat t' \<le> unat t + (if entry_ok env p then unat (meta_weight p) else 0)"
proof (induction env d thr ps t st and env d p t st arbitrary: r st' and t' st' rule: tally_until_tally.induct)
  case (2 env d thr p ps t st)
  obtain t1 st1 where t1: "tally env d p t st = (t1, st1)"
    by (cases "tally env d p t st")
  then have one: "cache_ok env st1" "unat t1 \<le> unat t + (if entry_ok env p then unat (meta_weight p) else 0)"
    using "2.IH"(1)[OF "2.prems"(1,2)] by auto
  show ?case
  proof (cases "thr \<le> t1")
    case True
    then have "unat thr \<le> unat t1" "r" "st' = st1"
      using "2.prems"(3) t1 by (auto simp: word_le_nat_alt)
    then show ?thesis
      using one by simp
  next
    case False
    then have "cache_ok env st' \<and> (r \<longrightarrow> unat thr \<le> unat t1 + entries_weight env ps)"
      using "2.IH"(2)[OF t1[symmetric] refl False "2.prems"(1) one(1)] "2.prems"(3) t1 by simp
    then show ?thesis
      using one(2) by auto
  qed
next
  case (5 env d a t st)
  show ?case
  proof (cases "permission_status_in_cache (cached_permissions st) (plw_permission a)")
    case (Some s)
    then show ?thesis
      using 5 status_granted[of env st "plw_permission a"] unat_add_weight[of t "plw_weight a"]
      by (auto split: if_splits)
  next
    case None
    show ?thesis
    proof (cases "d = 0 \<or> permission_to_authority env (plw_permission a) = None")
      case True
      then show ?thesis
        using None "5.prems" by (auto split: nat.splits)
    next
      case False
      then obtain d' auth where d: "d = Suc d'" and auth: "permission_to_authority env (plw_permission a) = Some auth"
        by (cases d) auto
      let ?st1 = "st\<lparr>cached_permissions := (plw_permission a, Being_evaluated) # cached_permissions st\<rparr>"
      obtain q st2 where q: "tally_until env d' (threshold auth) (meta_permissions auth) 0 ?st1 = (q, st2)"
        by (cases "tally_until env d' (threshold auth) (meta_permissions auth) 0 ?st1")
      note perm = has_authority_permission[OF "5.prems"(1) auth]
      have "cache_ok env ?st1"
        by (rule cache_ok_add[OF "5.prems"(2) perm]) simp
      then have st2: "cache_ok env st2" "q \<Longrightarrow> granted env (plw_permission a)"
        using "5.IH"[OF None d auth refl "5.prems"(1) _ q] by_entries[OF auth] by auto
      show ?thesis
        using "5.prems"(3) st2 None d auth q cache_ok_add[OF st2(1) perm] unat_add_weight[of t "plw_weight a"]
          cache_ok_add[of env "st2\<lparr>used_flags := used_flags st\<rparr>" "plw_permission a" Permission_unsatisfied] perm
        by (cases q) (auto simp: Let_def)
    qed
  qed
qed (auto split: if_splits option.splits simp: unat_add_weight index_of_None[symmetric])

lemma initial_cache_ok: "cache_ok env (st\<lparr>cached_permissions := initialize_permission_cache env\<rparr>)"
proof -
  have "map_of (initialize_permission_cache env) p = Some s \<Longrightarrow> p \<in> set (provided_permissions env)" for p s
    by (auto simp: initialize_permission_cache_def dest!: map_of_SomeD)
  then show ?thesis
    by (auto simp: cache_ok_def intro: provided)
qed

text \<open>
  C15. When the checker answers that a permission is satisfied, the permission is granted by the provided keys,
  permissions and delay in the sense of the inductive definition \<open>granted\<close>: it was provided, or its account was
  provided as a whole, or the weights of granted entries of its authority reach the threshold. This
  holds for every depth limit and although weights are added in 32-bit words.
\<close>

theorem satisfied_sound:
  assumes "satisfied env p st = (True, st')" "no_whole_account_permission env"
  shows "granted env p"
proof -
  obtain w where "tally env (recursion_depth_limit env) (Account_entry \<lparr>plw_permission = p, plw_weight = 1\<rparr>) 0
      (st\<lparr>cached_permissions := initialize_permission_cache env\<rparr>) = (w, st')" "0 < w"
    using assms(1) by (auto simp: satisfied_def split: prod.splits)
  then show ?thesis
    using tally_sound(2)[OF assms(2) initial_cache_ok] by (fastforce simp: word_less_nat_alt split: if_splits)
qed

definition sample_env :: "nat checker_env" where
  "sample_env = \<lparr>permission_to_authority =
       (\<lambda>p. if p = \<lparr>actor = 1, permission = 2\<rparr>
            then Some \<lparr>threshold = 2, keys = [\<lparr>kw_key = 7, kw_weight = 1\<rparr>],
                  accounts = [\<lparr>plw_permission = \<lparr>actor = 3, permission = 4\<rparr>, plw_weight = 1\<rparr>], waits = []\<rparr>
            else if p = \<lparr>actor = 3, permission = 4\<rparr> then Some (authority_of_key 8 0) else None),
     provided_keys = [7, 8], provided_permissions = [], provided_delay = 0, recursion_depth_limit = 6\<rparr>"

theorem satisfied_sound_witness:
  "\<exists>st. satisfied sample_env \<lparr>actor = 1, permission = 2\<rparr> (initial_state sample_env) = (True, st) \<and>
     all_keys_used st \<and> granted sample_env \<lparr>actor = 1, permission = 2\<rparr>"
proof -
  let ?p = "\<lparr>actor = 1, permission = 2\<rparr> :: permission_level"
  define st where "st = snd (satisfied sample_env ?p (initial_state sample_env))"
  have "satisfied sample_env ?p (initial_state sample_env) = (True, st)" "all_keys_used st"
    unfolding st_def by code_simp+
  moreover have "no_whole_account_permission sample_env"
    by (simp add: no_whole_account_permission_def sample_env_def)
  ultimately show ?thesis
    using satisfied_sound by blast
qed

text \<open>
  When the checker answers that an authority is satisfied, the weights of its granted permissions,
  provided keys and elapsed waits reach its threshold; when it answers no, no key is marked as used that
  was not marked before.
\<close>

theorem satisfied_auth_sound:
  assumes "satisfied_auth env auth st = (r, st')" "no_whole_account_permission env"
  shows "if r then unat (threshold auth) \<le> auth_weight env {q. granted env q} auth
         else used_flags st' = used_flags st"
proof -
  let ?st = "st\<lparr>cached_permissions := initialize_permission_cache env\<rparr>"
  obtain st2 where t: "tally_until env (recursion_depth_limit env) (threshold auth) (meta_permissions auth) 0 ?st = (r, st2)"
    and st': "st' = (if r then st2 else st2\<lparr>used_flags := used_flags st\<rparr>)"
    using assms(1) by (auto simp: satisfied_auth_def satisfied_authority_def split: prod.splits)
  then show ?thesis
    using tally_sound(1)[OF assms(2) initial_cache_ok t] by (simp add: entries_weight_meta_permissions)
qed

definition sample_authority :: "nat authority" where
  "sample_authority = \<lparr>threshold = 2, keys = [\<lparr>kw_key = 8, kw_weight = 1\<rparr>],
     accounts = [\<lparr>plw_permission = \<lparr>actor = 3, permission = 4\<rparr>, plw_weight = 1\<rparr>],
     waits = [\<lparr>wait_sec = 10, ww_weight = 1\<rparr>]\<rparr>"

theorem satisfied_auth_sound_witness:
  "fst (satisfied_auth sample_env sample_authority (initial_state sample_env)) \<and>
   unat (threshold sample_authority) \<le> auth_weight sample_env {q. granted sample_env q} sample_authority"
proof -
  have "fst (satisfied_auth sample_env sample_authority (initial_state sample_env))"
    by code_simp
  moreover from this obtain st where
    "satisfied_auth sample_env sample_authority (initial_state sample_env) = (True, st)"
    by (metis prod.collapse eq_True)
  moreover have "no_whole_account_permission sample_env"
    by (simp add: no_whole_account_permission_def sample_env_def)
  ultimately show ?thesis
    using satisfied_auth_sound[of sample_env sample_authority "initial_state sample_env" True] by auto
qed

section \<open>Validation\<close>

fun chained :: "('e \<Rightarrow> 'e \<Rightarrow> bool) \<Rightarrow> 'e list \<Rightarrow> bool" where
  "chained ok (x # y # ys) = (ok x y \<and> chained ok (y # ys))"
| "chained ok xs = True"

lemma validate_entries_closed:
  "validate_entries ok w prev es t =
     (if chained ok ((case prev of None \<Rightarrow> [] | Some p \<Rightarrow> [p]) @ es)
      then Some (t + sum_list (map (\<lambda>e. ucast (w e)) es)) else None)"
proof (induction ok w prev es t rule: validate_entries.induct)
  case (1 ok w prev t)
  then show ?case by (cases prev) auto
next
  case (2 ok w prev e es t)
  then show ?case
    by (cases prev; cases es) (auto simp: add.assoc)
qed

lemma sum_weights_bound: "sum_list (map (\<lambda>e. unat (w e :: 16 word)) es) \<le> 65535 * length es"
proof (induction es)
  case (Cons e es)
  have "unat (w e) < 65536"
    using unsigned_less[of "w e", where 'a = nat] by simp
  with Cons show ?case by simp
qed simp

lemma unat_sum_weights:
  "unat (sum_list (map (\<lambda>e. ucast (w e :: 16 word)) es) :: 32 word) = sum_list (map (\<lambda>e. unat (w e)) es)"
  if "length es \<le> 65536"
  using that
proof (induction es)
  case (Cons e es)
  have "sum_list (map (\<lambda>e. unat (w e)) (e # es)) \<le> 65535 * 65536"
    using sum_weights_bound[of w "e # es"] Cons.prems by linarith
  then show ?case
    using Cons by (subst list.map, subst sum_list.Cons, subst unat_add_lem[THEN iffD1]) (simp_all add: unat_weight)
qed simp

definition total_weight_of :: "'k authority \<Rightarrow> nat" where
  "total_weight_of auth = sum_list (map (\<lambda>k. unat (kw_weight k)) (keys auth)) +
     sum_list (map (\<lambda>a. unat (plw_weight a)) (accounts auth)) + sum_list (map (\<lambda>w. unat (ww_weight w)) (waits auth))"

text \<open>
  An authority passes validation exactly when it has at most 65536 entries, a positive threshold, strictly
  ascending keys, permissions and waits, no wait of zero seconds, and weights that sum up, as
  unbounded numbers, to at least the threshold: the 32-bit sum never wraps.
\<close>

theorem validate_iff:
  "validate auth \<longleftrightarrow>
     length (keys auth) + length (accounts auth) + length (waits auth) \<le> 65536 \<and> 0 < threshold auth \<and>
     chained (\<lambda>p k. kw_key p < kw_key k) (keys auth) \<and>
     chained (\<lambda>p a. permission_level_less (plw_permission p) (plw_permission a)) (accounts auth) \<and>
     chained (\<lambda>p w. wait_sec p < wait_sec w) (waits auth) \<and> \<not> (waits auth \<noteq> [] \<and> wait_sec (hd (waits auth)) = 0) \<and>
     unat (threshold auth) \<le> total_weight_of auth"
proof (cases "length (keys auth) + length (accounts auth) + length (waits auth) \<le> 65536")
  case True
  let ?k = "sum_list (map (\<lambda>e. ucast (kw_weight e)) (keys auth)) :: 32 word"
  let ?a = "sum_list (map (\<lambda>e. ucast (plw_weight e)) (accounts auth)) :: 32 word"
  let ?w = "sum_list (map (\<lambda>e. ucast (ww_weight e)) (waits auth)) :: 32 word"
  have parts: "unat ?k = sum_list (map (\<lambda>e. unat (kw_weight e)) (keys auth))"
    "unat ?a = sum_list (map (\<lambda>e. unat (plw_weight e)) (accounts auth))"
    "unat ?w = sum_list (map (\<lambda>e. unat (ww_weight e)) (waits auth))"
    using True by (simp_all add: unat_sum_weights)
  have bound: "total_weight_of auth \<le> 65535 * 65536"
    using sum_weights_bound[of kw_weight "keys auth"] sum_weights_bound[of plw_weight "accounts auth"]
      sum_weights_bound[of ww_weight "waits auth"] True unfolding total_weight_of_def by linarith
  have ka: "unat (?k + ?a) = unat ?k + unat ?a"
    using bound parts by (intro unat_add_lem[THEN iffD1]) (simp add: total_weight_of_def)
  have "unat (?k + ?a + ?w) = unat (?k + ?a) + unat ?w"
    using bound parts ka by (intro unat_add_lem[THEN iffD1]) (simp add: total_weight_of_def)
  then have "unat (?k + ?a + ?w) = total_weight_of auth"
    using parts ka by (simp add: total_weight_of_def)
  then have "threshold auth \<le> ?k + ?a + ?w \<longleftrightarrow> unat (threshold auth) \<le> total_weight_of auth"
    by (simp add: word_le_nat_alt)
  then show ?thesis
    using True by (auto simp: validate_def validate_entries_closed word_gt_0)
qed (simp add: validate_def)

lemma tally_until_all:
  assumes "\<forall>p \<in> set ps. \<forall>t st. cached_permissions st = cache \<longrightarrow>
      (\<exists>u. tally env d p t st = (t + ucast (meta_weight p), st\<lparr>used_flags := u\<rparr>))"
    and "cached_permissions st = cache" "ps \<noteq> []" "unat thr \<le> unat t + sum_list (map (\<lambda>p. unat (meta_weight p)) ps)"
    and "unat t + sum_list (map (\<lambda>p. unat (meta_weight p)) ps) < 2 ^ 32"
  shows "fst (tally_until env d thr ps t st)"
  using assms
proof (induction ps arbitrary: t st)
  case (Cons p ps)
  have "\<forall>t st. cached_permissions st = cache \<longrightarrow>
      (\<exists>u. tally env d p t st = (t + ucast (meta_weight p), st\<lparr>used_flags := u\<rparr>))"
    using Cons.prems(1) by simp
  then obtain u where u: "tally env d p t st = (t + ucast (meta_weight p), st\<lparr>used_flags := u\<rparr>)"
    using Cons.prems(2) by blast
  have t: "unat (t + ucast (meta_weight p)) = unat t + unat (meta_weight p)"
    using Cons.prems(5) by (subst unat_add_lem[THEN iffD1]) (simp_all add: unat_weight)
  show ?case
  proof (cases "thr \<le> t + ucast (meta_weight p)")
    case False
    then have "ps \<noteq> []"
      using Cons.prems(4) t by (auto simp: word_le_nat_alt)
    then show ?thesis
      using Cons False u t by (simp add: add.assoc)
  qed (simp add: u)
qed simp

definition provides_all :: "'k checker_env \<Rightarrow> 'k authority \<Rightarrow> bool" where
  "provides_all env auth \<longleftrightarrow>
     (\<forall>k \<in> set (keys auth). kw_key k \<in> set (provided_keys env)) \<and>
     (\<forall>a \<in> set (accounts auth). plw_permission a \<in> set (provided_permissions env)) \<and>
     (\<forall>w \<in> set (waits auth). uint (wait_sec w) * 1000000 \<le> provided_delay env)"

lemma tally_provided:
  assumes all: "provides_all env auth" and p: "p \<in> set (meta_permissions auth)"
    and cache: "cached_permissions st = initialize_permission_cache env"
  shows "\<exists>u. tally env d p t st = (t + ucast (meta_weight p), st\<lparr>used_flags := u\<rparr>)"
proof (cases p)
  case (Account_entry a)
  have "plw_permission a \<in> set (provided_permissions env)"
    using all p Account_entry by (auto simp: provides_all_def meta_permissions_def)
  then have "permission_status_in_cache (cached_permissions st) (plw_permission a) = Some Permission_satisfied"
    by (simp add: cache permission_status_in_cache_def initialize_permission_cache_def map_of_map_restrict comp_def)
  then show ?thesis
    using Account_entry by (intro exI[of _ "used_flags st"]) simp
next
  case (Key_entry k)
  have "kw_key k \<in> set (provided_keys env)"
    using all p Key_entry by (auto simp: provides_all_def meta_permissions_def)
  then obtain i where "index_of (kw_key k) (provided_keys env) = Some i"
    using index_of_None[of "kw_key k" "provided_keys env"] by (cases "index_of (kw_key k) (provided_keys env)") auto
  then show ?thesis
    using Key_entry by auto
next
  case (Wait_entry w)
  have "uint (wait_sec w) * 1000000 \<le> provided_delay env"
    using all p Wait_entry by (auto simp: provides_all_def meta_permissions_def)
  then show ?thesis
    using Wait_entry by (intro exI[of _ "used_flags st"]) simp
qed

lemma meta_weights_total: "sum_list (map (\<lambda>p. unat (meta_weight p)) (meta_permissions auth)) = total_weight_of auth"
  by (simp add: meta_permissions_def sum_list_sort_key total_weight_of_def comp_def)

text \<open>
  C23. An authority that passes validation can be satisfied: when all its keys, permissions and waits are
  provided, the checker answers yes.
\<close>

theorem validate_satisfiable:
  assumes "validate auth" "provides_all env auth"
  shows "fst (satisfied_auth env auth st)"
proof -
  let ?st = "st\<lparr>cached_permissions := initialize_permission_cache env\<rparr>"
  have v: "length (keys auth) + length (accounts auth) + length (waits auth) \<le> 65536" "0 < threshold auth"
    "unat (threshold auth) \<le> total_weight_of auth"
    using assms(1) by (simp_all add: validate_iff)
  have "total_weight_of auth \<le> 65535 * 65536"
    using sum_weights_bound[of kw_weight "keys auth"] sum_weights_bound[of plw_weight "accounts auth"]
      sum_weights_bound[of ww_weight "waits auth"] v(1) unfolding total_weight_of_def by linarith
  moreover have "meta_permissions auth \<noteq> []"
    using v(2,3) meta_weights_total[of auth] by (auto simp: word_gt_0 unat_eq_0)
  ultimately have "fst (tally_until env (recursion_depth_limit env) (threshold auth) (meta_permissions auth) 0 ?st)"
    using tally_provided[OF assms(2)] v(3)
    by (intro tally_until_all[where cache = "initialize_permission_cache env"]) (simp_all add: meta_weights_total)
  then show ?thesis
    by (simp add: satisfied_auth_def satisfied_authority_def case_prod_beta)
qed

theorem validate_satisfiable_witness:
  "validate sample_authority \<and> fst (satisfied_auth (sample_env\<lparr>provided_permissions := [\<lparr>actor = 3, permission = 4\<rparr>],
     provided_delay := 10000000\<rparr>) sample_authority (initial_state sample_env))"
proof -
  have "validate sample_authority"
    by code_simp
  moreover have "provides_all (sample_env\<lparr>provided_permissions := [\<lparr>actor = 3, permission = 4\<rparr>],
     provided_delay := 10000000\<rparr>) sample_authority"
    by (simp add: provides_all_def sample_authority_def sample_env_def)
  ultimately show ?thesis
    using validate_satisfiable by blast
qed

text \<open>
  The set of used keys can miss a key that the answer rests on: a permission found satisfied inside an authority
  that then fails keeps its place in the cache, while its keys are unmarked. In the example the authority is
  satisfied, only because of the provided key 8, and no key is reported as used.
\<close>

definition unmarked_env :: "nat list \<Rightarrow> nat checker_env" where
  "unmarked_env ks = \<lparr>permission_to_authority =
       (\<lambda>p. if actor p = 1 then Some \<lparr>threshold = 2, keys = [\<lparr>kw_key = 9, kw_weight = 1\<rparr>],
                  accounts = [\<lparr>plw_permission = \<lparr>actor = 3, permission = 4\<rparr>, plw_weight = 1\<rparr>], waits = []\<rparr>
            else if actor p = 2 then Some (authority_of_permission \<lparr>actor = 3, permission = 4\<rparr> 0)
            else if actor p = 3 then Some (authority_of_key 8 0) else None),
     provided_keys = ks, provided_permissions = [], provided_delay = 0, recursion_depth_limit = 6\<rparr>"

definition unmarked_authority :: "nat authority" where
  "unmarked_authority = \<lparr>threshold = 1, keys = [],
     accounts = [\<lparr>plw_permission = \<lparr>actor = 1, permission = 4\<rparr>, plw_weight = 1\<rparr>,
                 \<lparr>plw_permission = \<lparr>actor = 2, permission = 4\<rparr>, plw_weight = 1\<rparr>], waits = []\<rparr>"

theorem used_keys_incomplete:
  "\<exists>st. satisfied_auth (unmarked_env [8]) unmarked_authority (initial_state (unmarked_env [8])) = (True, st) \<and>
     used_keys (unmarked_env [8]) st = [] \<and>
     \<not> fst (satisfied_auth (unmarked_env []) unmarked_authority (initial_state (unmarked_env [])))"
proof -
  define st where "st = snd (satisfied_auth (unmarked_env [8]) unmarked_authority (initial_state (unmarked_env [8])))"
  have "satisfied_auth (unmarked_env [8]) unmarked_authority (initial_state (unmarked_env [8])) = (True, st)"
    "used_keys (unmarked_env [8]) st = []"
    "\<not> fst (satisfied_auth (unmarked_env []) unmarked_authority (initial_state (unmarked_env [])))"
    unfolding st_def by code_simp+
  then show ?thesis by blast
qed

end
