(* ===== verification/Object_Table.thy ===== *)
theory Object_Table
  imports Undo_Refinement
begin

text \<open>
  The tables of the node as their clients see them: rows with an id, unique secondary keys,
  and the operations \<open>create\<close>, \<open>modify\<close>, \<open>remove\<close> and \<open>find\<close> of \<^verbatim>\<open>chainbase::database\<close>
  (\<^verbatim>\<open>libraries/chainbase/include/chainbase/chainbase.hpp\<close>), which pass to the undo index of the
  object's type. The contract of such a table is the locale \<open>object_store\<close>; it is interpreted on
  the rows used by the component theories and on the undo index itself, and the view of an undo
  index as rows commutes with every operation.
\<close>

section \<open>Rows\<close>

record 'v otable =
  rows :: "(nat \<times> 'v) list"
  next_row :: nat

definition empty_table :: "'v otable" where
  "empty_table = \<lparr>rows = [], next_row = 0\<rparr>"

definition row_free :: "('v \<Rightarrow> 'k) list \<Rightarrow> nat \<Rightarrow> 'v \<Rightarrow> 'v otable \<Rightarrow> bool" where
  "row_free ks i v t = list_all (\<lambda>p. fst p = i \<or> \<not> conflicts ks v (snd p)) (rows t)"

definition create :: "('v \<Rightarrow> 'k) list \<Rightarrow> (nat \<Rightarrow> 'v) \<Rightarrow> 'v otable \<Rightarrow> 'v otable result" where
  "create ks c t =
     (let i = next_row t; v = c i in
      if row_free ks i v t then Inr (t\<lparr>rows := rows t @ [(i, v)], next_row := Suc i\<rparr>) else Inl Logic_error)"

definition find_row :: "nat \<Rightarrow> 'v otable \<Rightarrow> 'v option" where
  "find_row i t = map_of (rows t) i"

definition modify_row :: "('v \<Rightarrow> 'k) list \<Rightarrow> nat \<Rightarrow> ('v \<Rightarrow> 'v) \<Rightarrow> 'v otable \<Rightarrow> 'v otable result" where
  "modify_row ks i m t =
     (case find_row i t of
        None \<Rightarrow> Inl Out_of_range
      | Some v \<Rightarrow>
          if row_free ks i (m v) t then Inr (t\<lparr>rows := map (\<lambda>p. if fst p = i then (i, m v) else p) (rows t)\<rparr>)
          else Inl Logic_error)"

definition remove_row :: "nat \<Rightarrow> 'v otable \<Rightarrow> 'v otable" where
  "remove_row i t = t\<lparr>rows := filter (\<lambda>p. fst p \<noteq> i) (rows t)\<rparr>"

definition find_by :: "('v \<Rightarrow> 'k) \<Rightarrow> 'k \<Rightarrow> 'v otable \<Rightarrow> (nat \<times> 'v) option" where
  "find_by f k t = find (\<lambda>p. f (snd p) = k) (rows t)"

definition get_by :: "('v \<Rightarrow> 'k) \<Rightarrow> 'k \<Rightarrow> 'v otable \<Rightarrow> (nat \<times> 'v) result" where
  "get_by f k t = (case find_by f k t of None \<Rightarrow> Inl Out_of_range | Some p \<Rightarrow> Inr p)"

definition get_row :: "nat \<Rightarrow> 'v otable \<Rightarrow> 'v result" where
  "get_row i t = (case find_row i t of None \<Rightarrow> Inl Out_of_range | Some v \<Rightarrow> Inr v)"

definition table_ok :: "('v \<Rightarrow> 'k) list \<Rightarrow> 'v otable \<Rightarrow> bool" where
  "table_ok ks t \<longleftrightarrow> distinct (map fst (rows t)) \<and> (\<forall>i \<in> set (map fst (rows t)). i < next_row t) \<and>
     (\<forall>p \<in> set (rows t). row_free ks (fst p) (snd p) t)"

section \<open>The contract of a table\<close>

text \<open>
  \<open>ok\<close> is the invariant, \<open>look\<close> the contents, \<open>fresh\<close> the next id. The client lemmas concern a
  reference \<open>parent\<close> from objects to objects of the same table.
\<close>

locale object_store =
  fixes ok :: "'s \<Rightarrow> bool"
    and look :: "'s \<Rightarrow> nat \<Rightarrow> 'v option"
    and fresh :: "'s \<Rightarrow> nat"
    and add :: "(nat \<Rightarrow> 'v) \<Rightarrow> 's \<Rightarrow> 's result"
    and change :: "nat \<Rightarrow> ('v \<Rightarrow> 'v) \<Rightarrow> 's \<Rightarrow> 's result"
    and drop_obj :: "nat \<Rightarrow> 's \<Rightarrow> 's"
  assumes look_fresh: "ok s \<Longrightarrow> look s i = Some v \<Longrightarrow> i < fresh s"
    and add_ok: "ok s \<Longrightarrow> add c s = Inr t \<Longrightarrow> ok t"
    and add_look: "ok s \<Longrightarrow> add c s = Inr t \<Longrightarrow> look t = (look s)(fresh s \<mapsto> c (fresh s)) \<and> fresh t = Suc (fresh s)"
    and change_ok: "ok s \<Longrightarrow> change i m s = Inr t \<Longrightarrow> ok t"
    and change_look: "ok s \<Longrightarrow> change i m s = Inr t \<Longrightarrow>
      \<exists>v. look s i = Some v \<and> look t = (look s)(i \<mapsto> m v) \<and> fresh t = fresh s"
    and drop_ok: "ok s \<Longrightarrow> ok (drop_obj i s)"
    and drop_look: "ok s \<Longrightarrow> look (drop_obj i s) = (look s)(i := None) \<and> fresh (drop_obj i s) = fresh s"
begin

definition forest :: "('v \<Rightarrow> nat) \<Rightarrow> 's \<Rightarrow> bool" where
  "forest parent s \<longleftrightarrow> look s 0 \<noteq> None \<and>
     (\<forall>i v. 0 < i \<longrightarrow> look s i = Some v \<longrightarrow> parent v < i \<and> look s (parent v) \<noteq> None)"

lemma forest_add:
  assumes "ok s" "forest parent s" "add c s = Inr t" "look s (parent (c (fresh s))) \<noteq> None"
  shows "forest parent t"
proof -
  have p: "parent (c (fresh s)) < fresh s"
    using assms(1,4) look_fresh by auto
  note l = add_look[OF assms(1,3)]
  show ?thesis
    unfolding forest_def
  proof (intro conjI allI impI)
    show "look t 0 \<noteq> None"
      using l assms(2) by (simp add: forest_def)
    fix i v assume "0 < i" "look t i = Some v"
    then show "parent v < i" "look t (parent v) \<noteq> None"
      using l p assms(2,4) by (auto simp: forest_def split: if_splits)
  qed
qed

lemma forest_change:
  assumes "ok s" "forest parent s" "change i m s = Inr t" "\<And>v. parent (m v) = parent v"
  shows "forest parent t"
proof -
  obtain w where w: "look s i = Some w" "look t = (look s)(i \<mapsto> m w)"
    using change_look[OF assms(1,3)] by blast
  have "parent v < j \<and> look t (parent v) \<noteq> None" if j: "0 < j" "look t j = Some v" for j v
  proof -
    obtain u where "look s j = Some u" "parent u = parent v"
      using j w assms(4)[of w] by (cases "j = i") auto
    then show ?thesis
      using assms(2) j(1) w(2) unfolding forest_def by (metis fun_upd_apply option.distinct(1))
  qed
  moreover have "look t 0 \<noteq> None"
    using assms(2) w by (simp add: forest_def)
  ultimately show ?thesis by (simp add: forest_def)
qed

lemma forest_drop:
  assumes "ok s" "forest parent s" "0 < i" "\<And>j v. look s j = Some v \<Longrightarrow> parent v \<noteq> i"
  shows "forest parent (drop_obj i s)"
  using assms drop_look[OF assms(1), of i] unfolding forest_def by auto

end

section \<open>The rows keep the contract\<close>

lemma row_free_iff: "row_free ks i v t \<longleftrightarrow> (\<forall>j w. (j, w) \<in> set (rows t) \<longrightarrow> j = i \<or> \<not> conflicts ks v w)"
  unfolding row_free_def list_all_iff by (metis prod.collapse fst_conv snd_conv)

lemma table_ok_iff:
  "table_ok ks t \<longleftrightarrow> distinct (map fst (rows t)) \<and> (\<forall>i v. (i, v) \<in> set (rows t) \<longrightarrow> i < next_row t) \<and>
     (\<forall>i v j w. (i, v) \<in> set (rows t) \<longrightarrow> (j, w) \<in> set (rows t) \<longrightarrow> j = i \<or> \<not> conflicts ks v w)"
  unfolding table_ok_def row_free_iff by fastforce

lemma find_row_mem: "table_ok ks t \<Longrightarrow> find_row i t = Some v \<longleftrightarrow> (i, v) \<in> set (rows t)"
  by (simp add: table_ok_iff find_row_def)

lemma create_table_ok:
  assumes "table_ok ks t" "create ks c t = Inr t'"
  shows "table_ok ks t'" "find_row i t' = (if i = next_row t then Some (c (next_row t)) else find_row i t)"
    "next_row t' = Suc (next_row t)"
proof -
  have free: "row_free ks (next_row t) (c (next_row t)) t" and t': "t' = t\<lparr>rows := rows t @ [(next_row t, c (next_row t))], next_row := Suc (next_row t)\<rparr>"
    using assms(2) by (auto simp: create_def Let_def split: if_splits)
  have new: "next_row t \<notin> fst ` set (rows t)"
    using assms(1) by (auto simp: table_ok_iff)
  show "table_ok ks t'"
    using assms(1) free new unfolding table_ok_iff t' row_free_iff by (auto simp: conflicts_sym less_Suc_eq)
  show "find_row i t' = (if i = next_row t then Some (c (next_row t)) else find_row i t)"
    using new map_of_eq_None_iff[of "rows t" "next_row t"]
    by (auto simp: find_row_def t' map_add_def split: option.splits)
  show "next_row t' = Suc (next_row t)"
    by (simp add: t')
qed

lemma map_of_update_row:
  "map_of (map (\<lambda>p. if fst p = i then (i, w) else p) xs) j = (if j = i \<and> map_of xs i \<noteq> None then Some w else map_of xs j)"
  by (induction xs) auto

lemma modify_row_table_ok:
  assumes "table_ok ks t" "modify_row ks i m t = Inr t'"
  shows "table_ok ks t'" "\<exists>v. find_row i t = Some v \<and> (\<forall>j. find_row j t' = (if j = i then Some (m v) else find_row j t))"
    "next_row t' = next_row t"
proof -
  obtain v where v: "find_row i t = Some v" and free: "row_free ks i (m v) t"
    and t': "t' = t\<lparr>rows := map (\<lambda>p. if fst p = i then (i, m v) else p) (rows t)\<rparr>"
    using assms(2) by (auto simp: modify_row_def split: option.splits if_splits)
  have dom: "map fst (rows t') = map fst (rows t)"
    by (auto simp: t')
  show "table_ok ks t'"
    unfolding table_ok_iff
  proof (intro conjI allI impI)
    have orig: "(j, w) \<in> set (rows t) \<and> j \<noteq> i \<or> j = i \<and> w = m v \<and> (\<exists>u. (i, u) \<in> set (rows t))"
      if "(j, w) \<in> set (rows t')" for j w
      using that by (auto simp: t' split: if_splits)
    show "distinct (map fst (rows t'))"
      using assms(1) unfolding table_ok_iff dom by simp
    show "j < next_row t'" if "(j, w) \<in> set (rows t')" for j w
      using orig[OF that] assms(1) unfolding table_ok_iff t' by auto
    show "j' = j \<or> \<not> conflicts ks w w'" if "(j, w) \<in> set (rows t')" "(j', w') \<in> set (rows t')" for j w j' w'
      using orig[OF that(1)] orig[OF that(2)] assms(1) free conflicts_sym[of ks]
      unfolding table_ok_iff row_free_iff by metis
  qed
  show "\<exists>v. find_row i t = Some v \<and> (\<forall>j. find_row j t' = (if j = i then Some (m v) else find_row j t))"
    using v by (auto simp: find_row_def t' map_of_update_row)
  show "next_row t' = next_row t"
    by (simp add: t')
qed

text \<open>A modification that keeps \<open>g\<close> keeps the column \<open>g\<close> of the table.\<close>

lemma modify_row_column:
  assumes "modify_row ks i m t = Inr t'" "table_ok ks t" "\<And>v. g (m v) = g v"
  shows "map (\<lambda>r. (fst r, g (snd r))) (rows t') = map (\<lambda>r. (fst r, g (snd r))) (rows t)"
proof -
  obtain v where v: "find_row i t = Some v" "t' = t\<lparr>rows := map (\<lambda>p. if fst p = i then (i, m v) else p) (rows t)\<rparr>"
    using assms(1) by (auto simp: modify_row_def split: option.splits if_splits)
  have "(\<lambda>r. (fst r, g (snd r))) (if fst p = i then (i, m v) else p) = (fst p, g (snd p))" if "p \<in> set (rows t)" for p
  proof -
    have "find_row (fst p) t = Some (snd p)"
      using that by (simp add: find_row_mem[OF assms(2)])
    then show ?thesis using v(1) assms(3) by auto
  qed
  then show ?thesis
    by (simp add: v(2))
qed

lemma find_by_Some: "find_by f k t = Some (i, v) \<Longrightarrow> (i, v) \<in> set (rows t) \<and> f v = k"
  unfolding find_by_def find_Some_iff by (metis nth_mem snd_conv)

lemma find_by_None: "find_by f k t = None \<longleftrightarrow> (\<forall>i v. (i, v) \<in> set (rows t) \<longrightarrow> f v \<noteq> k)"
  by (auto simp: find_by_def find_None_iff)

lemma find_by_row: "table_ok ks t \<Longrightarrow> find_by f k t = Some (i, v) \<Longrightarrow> find_row i t = Some v \<and> f v = k"
  using find_by_Some find_row_mem by metis

lemma find_by_unique:
  assumes "table_ok [f] t" "find_row i t = Some v"
  shows "find_by f (f v) t = Some (i, v)"
proof (cases "find_by f (f v) t")
  case None
  then show ?thesis
    using assms by (auto simp: find_by_None find_row_mem)
next
  case (Some p)
  obtain j w where p: "p = (j, w)" by fastforce
  then have w: "find_row j t = Some w" "f w = f v"
    using find_by_row[OF assms(1), of f "f v" j w] Some by simp_all
  moreover have "conflicts [f] w v"
    using w by (simp add: conflicts_def)
  moreover have "(j, w) \<in> set (rows t)" "(i, v) \<in> set (rows t)"
    using w(1) assms(2) by (simp_all add: find_row_mem[OF assms(1)])
  ultimately have "j = i"
    using assms(1) unfolding table_ok_iff by metis
  then show ?thesis
    using Some p w assms(2) by simp
qed

lemma create_Inr:
  "create ks c t = Inr t' \<longleftrightarrow> row_free ks (next_row t) (c (next_row t)) t \<and>
     t' = t\<lparr>rows := rows t @ [(next_row t, c (next_row t))], next_row := Suc (next_row t)\<rparr>"
  by (auto simp: create_def Let_def)

lemma remove_row_table_ok:
  assumes "table_ok ks t"
  shows "table_ok ks (remove_row i t)" "find_row j (remove_row i t) = (if j = i then None else find_row j t)"
    "next_row (remove_row i t) = next_row t"
  using assms by (auto simp: table_ok_iff remove_row_def find_row_def map_of_filter_fst[of "\<lambda>x. x \<noteq> i"] distinct_map_filter)

text \<open>Lookup by a unique key after each operation.\<close>

lemma find_by_eqI:
  assumes "table_ok [f] t" "\<And>i v. find_row i t = Some v \<Longrightarrow> f v = k \<Longrightarrow> r = Some (i, v)" "r = None \<or> (\<exists>i v. r = Some (i, v) \<and> find_row i t = Some v \<and> f v = k)"
  shows "find_by f k t = r"
proof (cases "find_by f k t")
  case None
  then show ?thesis
    using assms(3) find_by_unique[OF assms(1)] by fastforce
next
  case (Some p)
  obtain i v where "p = (i, v)" by fastforce
  then show ?thesis
    using Some find_by_row[OF assms(1), of f k i v] assms(2)[of i v] by simp
qed

lemma find_append: "find P (xs @ ys) = (case find P xs of None \<Rightarrow> find P ys | Some x \<Rightarrow> Some x)"
  by (induction xs) auto

lemma find_by_create:
  assumes "table_ok [f] t" "create [f] c t = Inr t'"
  shows "find_by f k t' = (if f (c (next_row t)) = k then Some (next_row t, c (next_row t)) else find_by f k t)"
proof (cases "f (c (next_row t)) = k")
  case True
  then show ?thesis
    using find_by_unique[OF create_table_ok(1)[OF assms], of "next_row t"] create_table_ok(2)[OF assms] by simp
next
  case False
  have "find_by f k t' = find_by f k t"
    using assms(2) False by (auto simp: create_Inr find_by_def find_append split: option.splits)
  then show ?thesis using False by simp
qed

lemma find_by_modify:
  assumes "table_ok [f] t" "modify_row [f] i m t = Inr t'" "find_row i t = Some v" "f (m v) = f v"
  shows "find_by f k t' = (if f v = k then Some (i, m v) else find_by f k t)"
proof (rule find_by_eqI)
  note c = modify_row_table_ok[OF assms(1,2)]
  show t': "table_ok [f] t'" by (rule c)
  have look: "find_row j t' = (if j = i then Some (m v) else find_row j t)" for j
    using c(2) assms(3) by auto
  show "(if f v = k then Some (i, m v) else find_by f k t) = Some (j, w)" if "find_row j t' = Some w" "f w = k" for j w
  proof (cases "j = i")
    case False
    then have "find_row j t = Some w"
      using that look by simp
    then show ?thesis
      using find_by_unique[OF assms(1), of j w] find_by_unique[OF assms(1,3)] that(2) False by auto
  qed (use that look assms(4) in auto)
  show "(if f v = k then Some (i, m v) else find_by f k t) = None \<or>
     (\<exists>j w. (if f v = k then Some (i, m v) else find_by f k t) = Some (j, w) \<and> find_row j t' = Some w \<and> f w = k)"
  proof (cases "f v = k \<or> find_by f k t = None")
    case False
    then obtain j w where jw: "find_by f k t = Some (j, w)" by fastforce
    then have "find_row j t = Some w" "f w = k"
      using find_by_row[OF assms(1)] by metis+
    then show ?thesis
      using jw False look assms(3) by auto
  qed (use look assms(4) in auto)
qed

lemma find_by_remove:
  assumes "table_ok [f] t" "find_row i t = Some v"
  shows "find_by f k (remove_row i t) = (if f v = k then None else find_by f k t)"
proof (rule find_by_eqI)
  note c = remove_row_table_ok[OF assms(1)]
  show "table_ok [f] (remove_row i t)" by (rule c)
  show "(if f v = k then None else find_by f k t) = Some (j, w)" if "find_row j (remove_row i t) = Some w" "f w = k" for j w
  proof -
    have "find_row j t = Some w" "j \<noteq> i"
      using that(1) c(2)[of j i] by (auto split: if_splits)
    then show ?thesis
      using find_by_unique[OF assms(1), of j w] find_by_unique[OF assms] that(2) by auto
  qed
  show "(if f v = k then None else find_by f k t) = None \<or>
     (\<exists>j w. (if f v = k then None else find_by f k t) = Some (j, w) \<and> find_row j (remove_row i t) = Some w \<and> f w = k)"
  proof (cases "f v = k \<or> find_by f k t = None")
    case False
    then obtain j w where jw: "find_by f k t = Some (j, w)" by fastforce
    then have "find_row j t = Some w" "f w = k"
      using find_by_row[OF assms(1)] by metis+
    then show ?thesis
      using jw False c(2)[of j i] assms(2) by auto
  qed auto
qed

interpretation tab: object_store "table_ok ks" "\<lambda>t i. find_row i t" next_row "create ks" "modify_row ks" remove_row
  for ks :: "('v \<Rightarrow> 'k) list"
proof unfold_locales
  fix s i v assume "table_ok ks s" "find_row i s = Some v"
  then show "i < next_row s" using find_row_mem[of ks s i v] unfolding table_ok_iff by blast
next
  fix s c t assume s: "table_ok ks s" "create ks c s = Inr t"
  show "table_ok ks t" by (rule create_table_ok[OF s])
  show "(\<lambda>i. find_row i t) = (\<lambda>i. find_row i s)(next_row s \<mapsto> c (next_row s)) \<and> next_row t = Suc (next_row s)"
    using create_table_ok[OF s] by auto
next
  fix s i m t assume s: "table_ok ks s" "modify_row ks i m s = Inr t"
  show "table_ok ks t" by (rule modify_row_table_ok[OF s])
  show "\<exists>v. find_row i s = Some v \<and> (\<lambda>i. find_row i t) = (\<lambda>i. find_row i s)(i \<mapsto> m v) \<and> next_row t = next_row s"
    using modify_row_table_ok[OF s] by (auto simp: fun_eq_iff)
next
  fix s i assume s: "table_ok ks s"
  show "table_ok ks (remove_row i s)" by (rule remove_row_table_ok[OF s])
  show "(\<lambda>j. find_row j (remove_row i s)) = (\<lambda>j. find_row j s)(i := None) \<and> next_row (remove_row i s) = next_row s"
    using remove_row_table_ok[OF s] by auto
qed

section \<open>The undo index keeps the contract\<close>

lemma inv_index_fresh: "inv_index ks st \<Longrightarrow> contents st i = Some v \<Longrightarrow> i < next_id st"
  by (drule inv_wf) (force simp: wf_index_def contents_eq_Some dest: map_of_SomeD)

interpretation uidx: object_store "inv_index ks" contents next_id "emplace ks" "modify_ok ks" remove
  for ks :: "('v \<Rightarrow> 'k) list"
proof unfold_locales
  fix s i v assume "inv_index ks s" "contents s i = Some v"
  then show "i < next_id s" by (rule inv_index_fresh)
next
  fix s c t assume s: "inv_index ks s" "emplace ks c s = Inr t"
  show "inv_index ks t" by (rule refine_emplace(2)[OF s])
  show "contents t = (contents s)(next_id s \<mapsto> c (next_id s)) \<and> next_id t = Suc (next_id s)"
    using refine_emplace(1)[OF s(1), of c] s(2) by (auto simp: spec_emplace_def abs_index_def split: if_splits)
next
  fix s i m t assume s: "inv_index ks s" "modify_ok ks i m s = Inr t"
  show "inv_index ks t" by (rule refine_modify(2)[OF s])
  show "\<exists>v. contents s i = Some v \<and> contents t = (contents s)(i \<mapsto> m v) \<and> next_id t = next_id s"
    using refine_modify(1)[OF s(1), of i m] s(2) by (auto simp: spec_modify_def abs_index_def split: if_splits option.splits)
next
  fix s i assume s: "inv_index ks s"
  show "inv_index ks (remove i s)" by (rule refine_remove(2)[OF s])
  show "contents (remove i s) = (contents s)(i := None) \<and> next_id (remove i s) = next_id s"
    using refine_remove(1)[OF s, of i] by (simp add: spec_remove_def abs_index_def)
qed

section \<open>Rows as a view of the undo index\<close>

definition row_view :: "'v undo_index \<Rightarrow> 'v otable" where
  "row_view st = \<lparr>rows = map (\<lambda>p. (fst p, node_item (snd p))) (indices st), next_row = next_id st\<rparr>"

lemma row_free_view: "row_free ks i v (row_view st) = unique_in ks i v (indices st)"
  by (simp add: row_free_def unique_in_def row_view_def list_all_iff)

lemma find_row_view: "find_row i (row_view st) = find_object i st"
proof -
  have "map_of (map (\<lambda>p. (fst p, node_item (snd p))) xs) i = map_option node_item (map_of xs i)" for xs :: "'a table"
    by (induction xs) auto
  then show ?thesis by (simp add: find_row_def row_view_def find_object_def)
qed

lemma set_node_unique: "unique_in ks i v (set_node i n t) = unique_in ks i v t"
  by (auto simp: unique_in_def set_node_def list_all_iff)

lemma set_node_twice: "set_node i n (set_node i n' t) = set_node i n t"
  by (simp add: set_node_def)

lemma row_view_set_node:
  "row_view (st\<lparr>indices := set_node i n (indices st)\<rparr>) =
     (row_view st)\<lparr>rows := map (\<lambda>p. if fst p = i then (i, node_item n) else p) (rows (row_view st))\<rparr>"
  by (simp add: row_view_def set_node_def o_def if_distrib cong: if_cong)

lemma modify_view: "map_sum id row_view (modify_ok ks i m st) = modify_row ks i m (row_view st)"
proof (cases "map_of (indices st) i")
  case None
  then show ?thesis
    by (simp add: modify_ok_def modify_def modify_row_def find_row_view find_object_def)
next
  case (Some n)
  obtain backup st1 where om: "on_modify i n st = (backup, st1)" by fastforce
  define n1 where "n1 = (case backup of None \<Rightarrow> n | Some _ \<Rightarrow> n\<lparr>node_mtime := monotonic_revision st\<rparr>)"
  have ix: "indices st1 = indices st \<or> (\<exists>n'. indices st1 = set_node i n' (indices st))" "next_id st1 = next_id st"
    using om by (auto simp: on_modify_def Let_def split: list.splits if_splits)
  have set: "set_node i n' (indices st1) = set_node i n' (indices st)" for n'
    using ix(1) by (auto simp: set_node_twice)
  have uq: "unique_in ks i v (indices st1) = unique_in ks i v (indices st)" for v
    using ix(1) by (auto simp: set_node_unique)
  have view: "row_view (st1\<lparr>indices := set_node i (n1\<lparr>node_item := v\<rparr>) (indices st)\<rparr>) =
     (row_view st)\<lparr>rows := map (\<lambda>p. if fst p = i then (i, v) else p) (rows (row_view st))\<rparr>" for v
    using row_view_set_node[of i "n1\<lparr>node_item := v\<rparr>" st] ix(2) by (simp add: row_view_def)
  show ?thesis
    using Some view unfolding modify_ok_def modify_def modify_row_def find_row_view find_object_def row_free_view
    by (simp add: om n1_def[symmetric] set set_node_unique uq Let_def split: option.splits)
qed


end
