(* ===== verification/Authorization_Manager.thy ===== *)
theory Authorization_Manager
  imports Object_Table Authority Chain_Name
begin

text \<open>
  The authorization manager (\<^verbatim>\<open>libraries/chain/authorization_manager.cpp\<close>, \<^verbatim>\<open>permission_object.hpp\<close>,
  \<^verbatim>\<open>permission_link_object.hpp\<close>): the table of permissions with their parents, the links from
  actions to permissions, and the checks of the authorizations that a transaction declares.
  The theory shows that the permissions form a forest in which \<open>satisfies\<close> is the ancestor
  relation, and what an accepted transaction guarantees.

  A permission is a row of its table and is passed with its id. Times are microseconds. The payload
  of an action is decoded; \<open>data_as\<close> at another type throws. Walking up the
  parents reads a missing row as undefined behaviour, and so is a walk with more steps
  than there are ids.
\<close>

section \<open>The tables\<close>

record 'k permission_object =
  usage_id :: nat
  parent :: nat
  owner :: "64 word"
  perm_name :: "64 word"
  last_updated :: int
  auth :: "'k authority"

record permission_link_object =
  link_account :: "64 word"
  link_code :: "64 word"
  message_type :: "64 word"
  required_permission :: "64 word"

record permission_usage_object =
  last_used :: int

record 'k auth_db =
  permission_index :: "'k permission_object otable"
  permission_usage_index :: "permission_usage_object otable"
  permission_link_index :: "permission_link_object otable"

type_synonym 'k permission_ref = "nat \<times> 'k permission_object"

definition by_owner :: "'k permission_object \<Rightarrow> 64 word \<times> 64 word" where
  "by_owner p = (owner p, perm_name p)"

definition by_action_name :: "permission_link_object \<Rightarrow> 64 word \<times> 64 word \<times> 64 word" where
  "by_action_name l = (link_account l, link_code l, message_type l)"

definition usage_keys :: "(permission_usage_object \<Rightarrow> unit) list" where
  "usage_keys = []"

text \<open>The settings the manager reads from the controller.\<close>

record 'k auth_env =
  key_which :: "'k \<Rightarrow> nat"
  num_supported_key_types :: nat
  pending_block_time :: int
  max_transaction_delay :: "32 word"
  max_authority_depth :: nat
  fix_linkauth_restriction :: bool

definition name_literal :: "string \<Rightarrow> 64 word" where
  "name_literal s = projr (string_to_uint64_t s)"

definition system_account_name :: "64 word" where "system_account_name = name_literal ''dcd''"
definition active_name :: "64 word" where "active_name = name_literal ''active''"
definition owner_name :: "64 word" where "owner_name = name_literal ''owner''"
definition dcd_any_name :: "64 word" where "dcd_any_name = name_literal ''dcd.any''"
definition dcd_code_name :: "64 word" where "dcd_code_name = name_literal ''dcd.code''"

section \<open>Permissions\<close>

definition empty_authority :: "'k authority" where
  "empty_authority = \<lparr>threshold = 0, keys = [], accounts = [], waits = []\<rparr>"

definition reserved_permission :: "'k permission_object" where
  "reserved_permission = \<lparr>usage_id = 0, parent = 0, owner = 0, perm_name = 0, last_updated = 0, auth = empty_authority\<rparr>"

definition empty_auth_db :: "'k auth_db" where
  "empty_auth_db = \<lparr>permission_index = empty_table, permission_usage_index = empty_table, permission_link_index = empty_table\<rparr>"

definition initialize_database :: "'k auth_db \<Rightarrow> 'k auth_db result" where
  "initialize_database db =
     bind_res (create [by_owner] (\<lambda>_. reserved_permission) (permission_index db)) (\<lambda>t. Inr (db\<lparr>permission_index := t\<rparr>))"

definition check_key_types :: "'k auth_env \<Rightarrow> 'k authority \<Rightarrow> unit result" where
  "check_key_types env a =
     assert_res (list_all (\<lambda>k. key_which env (kw_key k) < num_supported_key_types env) (keys a)) Unactivated_key_type"

definition create_permission ::
  "'k auth_env \<Rightarrow> 64 word \<Rightarrow> 64 word \<Rightarrow> nat \<Rightarrow> 'k authority \<Rightarrow> int \<Rightarrow> 'k auth_db \<Rightarrow> (nat \<times> 'k auth_db) result" where
  "create_permission env account pname par a initial_creation_time db =
     bind_res (check_key_types env a) (\<lambda>_.
     let creation_time = (if initial_creation_time = 0 then pending_block_time env else initial_creation_time);
         perm_usage_id = next_row (permission_usage_index db) in
     bind_res (create usage_keys (\<lambda>_. \<lparr>last_used = creation_time\<rparr>) (permission_usage_index db)) (\<lambda>us.
     let perm_id = next_row (permission_index db) in
     bind_res (create [by_owner] (\<lambda>_. \<lparr>usage_id = perm_usage_id, parent = par, owner = account, perm_name = pname,
                 last_updated = creation_time, auth = a\<rparr>) (permission_index db)) (\<lambda>ps.
     Inr (perm_id, db\<lparr>permission_usage_index := us, permission_index := ps\<rparr>))))"

definition modify_permission :: "'k auth_env \<Rightarrow> nat \<Rightarrow> 'k authority \<Rightarrow> 'k auth_db \<Rightarrow> 'k auth_db result" where
  "modify_permission env i a db =
     bind_res (check_key_types env a) (\<lambda>_.
     bind_res (modify_row [by_owner] i (\<lambda>po. po\<lparr>auth := a, last_updated := pending_block_time env\<rparr>) (permission_index db)) (\<lambda>ps.
     Inr (db\<lparr>permission_index := ps\<rparr>)))"

definition remove_permission :: "'k permission_ref \<Rightarrow> 'k auth_db \<Rightarrow> 'k auth_db result" where
  "remove_permission p db =
     bind_res (assert_res (list_all (\<lambda>q. parent (snd q) \<noteq> fst p) (rows (permission_index db))) Action_validate_exception) (\<lambda>_.
     bind_res (get_row (usage_id (snd p)) (permission_usage_index db)) (\<lambda>_.
     Inr (db\<lparr>permission_usage_index := remove_row (usage_id (snd p)) (permission_usage_index db),
             permission_index := remove_row (fst p) (permission_index db)\<rparr>)))"

definition update_permission_usage :: "'k auth_env \<Rightarrow> 'k permission_ref \<Rightarrow> 'k auth_db \<Rightarrow> 'k auth_db result" where
  "update_permission_usage env p db =
     bind_res (get_row (usage_id (snd p)) (permission_usage_index db)) (\<lambda>_.
     bind_res (modify_row usage_keys (usage_id (snd p)) (\<lambda>u. u\<lparr>last_used := pending_block_time env\<rparr>) (permission_usage_index db)) (\<lambda>us.
     Inr (db\<lparr>permission_usage_index := us\<rparr>)))"

definition get_permission_last_used :: "'k permission_ref \<Rightarrow> 'k auth_db \<Rightarrow> int result" where
  "get_permission_last_used p db =
     bind_res (get_row (usage_id (snd p)) (permission_usage_index db)) (\<lambda>u. Inr (last_used u))"

definition find_permission :: "permission_level \<Rightarrow> 'k auth_db \<Rightarrow> 'k permission_ref option result" where
  "find_permission level db =
     bind_res (assert_res (actor level \<noteq> 0 \<and> permission level \<noteq> 0) Invalid_permission) (\<lambda>_.
     Inr (find_by by_owner (actor level, permission level) (permission_index db)))"

text \<open>The standard exception of a failed lookup is rethrown as a permission query exception.\<close>

definition get_permission :: "permission_level \<Rightarrow> 'k auth_db \<Rightarrow> 'k permission_ref result" where
  "get_permission level db =
     bind_res (assert_res (actor level \<noteq> 0 \<and> permission level \<noteq> 0) Invalid_permission) (\<lambda>_.
     case get_by by_owner (actor level, permission level) (permission_index db) of
       Inl _ \<Rightarrow> Inl Permission_query_exception
     | Inr p \<Rightarrow> Inr p)"

fun walk_parents :: "nat \<Rightarrow> 'k permission_object otable \<Rightarrow> nat \<Rightarrow> 'k permission_object \<Rightarrow> bool result" where
  "walk_parents 0 t i p = Inl Undefined_behaviour"
| "walk_parents (Suc n) t i p =
     (if i = parent p then Inr True
      else if parent p = 0 then Inr False
      else case find_row (parent p) t of
             None \<Rightarrow> Inl Undefined_behaviour
           | Some q \<Rightarrow> walk_parents n t i q)"

definition satisfies :: "'k permission_ref \<Rightarrow> 'k permission_ref \<Rightarrow> 'k permission_object otable \<Rightarrow> bool result" where
  "satisfies p other t =
     (if owner (snd p) \<noteq> owner (snd other) then Inr False
      else if fst p = fst other \<or> fst p = parent (snd other) then Inr True
      else case find_row (parent (snd other)) t of
             None \<Rightarrow> Inl Undefined_behaviour
           | Some q \<Rightarrow> walk_parents (Suc (next_row t)) t (fst p) q)"

section \<open>Links\<close>

definition lookup_linked_permission :: "64 word \<Rightarrow> 64 word \<Rightarrow> 64 word \<Rightarrow> 'k auth_db \<Rightarrow> 64 word option" where
  "lookup_linked_permission authorizer_account scope act_name db =
     (let specific = find_by by_action_name (authorizer_account, scope, act_name) (permission_link_index db);
          link = (case specific of
                    None \<Rightarrow> find_by by_action_name (authorizer_account, scope, 0) (permission_link_index db)
                  | Some l \<Rightarrow> Some l) in
      map_option (\<lambda>l. required_permission (snd l)) link)"

definition updateauth_name :: "64 word" where "updateauth_name = name_literal ''updateauth''"
definition deleteauth_name :: "64 word" where "deleteauth_name = name_literal ''deleteauth''"
definition linkauth_name :: "64 word" where "linkauth_name = name_literal ''linkauth''"
definition unlinkauth_name :: "64 word" where "unlinkauth_name = name_literal ''unlinkauth''"
definition canceldelay_name :: "64 word" where "canceldelay_name = name_literal ''canceldelay''"

definition unlinkable_names :: "64 word list" where
  "unlinkable_names = [updateauth_name, deleteauth_name, linkauth_name, unlinkauth_name, canceldelay_name]"

definition lookup_minimum_permission :: "64 word \<Rightarrow> 64 word \<Rightarrow> 64 word \<Rightarrow> 'k auth_db \<Rightarrow> 64 word option result" where
  "lookup_minimum_permission authorizer_account scope act_name db =
     bind_res (assert_res (scope = system_account_name \<longrightarrow> act_name \<notin> set unlinkable_names) Unlinkable_min_permission_action) (\<lambda>_.
     Inr (case lookup_linked_permission authorizer_account scope act_name db of
            None \<Rightarrow> Some active_name
          | Some linked \<Rightarrow> if linked = dcd_any_name then None else Some linked))"

section \<open>Declared authorizations\<close>

record 'k updateauth =
  upd_account :: "64 word"
  upd_permission :: "64 word"
  upd_parent :: "64 word"
  upd_auth :: "'k authority"

record deleteauth =
  del_account :: "64 word"
  del_permission :: "64 word"

record linkauth =
  lnk_account :: "64 word"
  lnk_code :: "64 word"
  lnk_type :: "64 word"
  lnk_requirement :: "64 word"

record unlinkauth =
  unl_account :: "64 word"
  unl_code :: "64 word"
  unl_type :: "64 word"

record canceldelay =
  canceling_auth :: permission_level
  cancel_trx_id :: nat

datatype 'k payload =
    Updateauth_data "'k updateauth"
  | Deleteauth_data deleteauth
  | Linkauth_data linkauth
  | Unlinkauth_data unlinkauth
  | Canceldelay_data canceldelay
  | Other_data

record 'k action =
  act_account :: "64 word"
  act_name :: "64 word"
  authorization :: "permission_level list"
  act_data :: "'k payload"

text \<open>
  A deferred transaction as the check reads it: its id, sender, times and the authorizations of its
  actions. The table is listed in the order of its index by id.
\<close>

record generated_transaction =
  gt_trx_id :: nat
  gt_sender :: "64 word"
  gt_delay_until :: int
  gt_published :: int
  gt_authorizations :: "permission_level list list"

definition require_satisfies :: "permission_level \<Rightarrow> 'k permission_ref result \<Rightarrow> 'k auth_db \<Rightarrow> unit result" where
  "require_satisfies declared min_permission db =
     bind_res (get_permission declared db) (\<lambda>p.
     bind_res min_permission (\<lambda>q.
     bind_res (satisfies p q (permission_index db)) (\<lambda>ok.
     assert_res ok Irrelevant_auth_exception)))"

definition check_updateauth_authorization :: "'k updateauth \<Rightarrow> permission_level list \<Rightarrow> 'k auth_db \<Rightarrow> unit result" where
  "check_updateauth_authorization upd auths db =
     bind_res (assert_res (length auths = 1) Irrelevant_auth_exception) (\<lambda>_.
     bind_res (assert_res (actor (hd auths) = upd_account upd) Irrelevant_auth_exception) (\<lambda>_.
     bind_res (find_permission \<lparr>actor = upd_account upd, permission = upd_permission upd\<rparr> db) (\<lambda>found.
     bind_res (case found of
                 Some p \<Rightarrow> Inr p
               | None \<Rightarrow> get_permission \<lparr>actor = upd_account upd, permission = upd_parent upd\<rparr> db) (\<lambda>min_permission.
     require_satisfies (hd auths) (Inr min_permission) db))))"

definition check_deleteauth_authorization :: "deleteauth \<Rightarrow> permission_level list \<Rightarrow> 'k auth_db \<Rightarrow> unit result" where
  "check_deleteauth_authorization del auths db =
     bind_res (assert_res (length auths = 1) Irrelevant_auth_exception) (\<lambda>_.
     bind_res (assert_res (actor (hd auths) = del_account del) Irrelevant_auth_exception) (\<lambda>_.
     bind_res (get_permission \<lparr>actor = del_account del, permission = del_permission del\<rparr> db) (\<lambda>min_permission.
     require_satisfies (hd auths) (Inr min_permission) db)))"

definition check_linkauth_authorization :: "'k auth_env \<Rightarrow> linkauth \<Rightarrow> permission_level list \<Rightarrow> 'k auth_db \<Rightarrow> unit result" where
  "check_linkauth_authorization env link auths db =
     bind_res (assert_res (length auths = 1) Irrelevant_auth_exception) (\<lambda>_.
     bind_res (assert_res (actor (hd auths) = lnk_account link) Irrelevant_auth_exception) (\<lambda>_.
     bind_res (assert_res (lnk_code link = system_account_name \<or> \<not> fix_linkauth_restriction env \<longrightarrow>
                 lnk_type link \<notin> set unlinkable_names) Action_validate_exception) (\<lambda>_.
     bind_res (lookup_minimum_permission (lnk_account link) (lnk_code link) (lnk_type link) db) (\<lambda>linked.
     case linked of
       None \<Rightarrow> Inr ()
     | Some pn \<Rightarrow> require_satisfies (hd auths) (get_permission \<lparr>actor = lnk_account link, permission = pn\<rparr> db) db))))"

definition check_unlinkauth_authorization :: "unlinkauth \<Rightarrow> permission_level list \<Rightarrow> 'k auth_db \<Rightarrow> unit result" where
  "check_unlinkauth_authorization unlink auths db =
     bind_res (assert_res (length auths = 1) Irrelevant_auth_exception) (\<lambda>_.
     bind_res (assert_res (actor (hd auths) = unl_account unlink) Irrelevant_auth_exception) (\<lambda>_.
     case lookup_linked_permission (unl_account unlink) (unl_code unlink) (unl_type unlink) db of
       None \<Rightarrow> Inl Transaction_exception
     | Some pn \<Rightarrow>
         if pn = dcd_any_name then Inr ()
         else require_satisfies (hd auths) (get_permission \<lparr>actor = unl_account unlink, permission = pn\<rparr> db) db))"

definition check_canceldelay_authorization ::
  "generated_transaction list \<Rightarrow> canceldelay \<Rightarrow> permission_level list \<Rightarrow> 'k auth_db \<Rightarrow> int result" where
  "check_canceldelay_authorization gtrxs cancel auths db =
     bind_res (assert_res (length auths = 1) Irrelevant_auth_exception) (\<lambda>_.
     bind_res (require_satisfies (hd auths) (get_permission (canceling_auth cancel) db) db) (\<lambda>_.
     case find (\<lambda>g. cancel_trx_id cancel \<le> gt_trx_id g) gtrxs of
       None \<Rightarrow> Inl Tx_not_found
     | Some itr \<Rightarrow>
         bind_res (assert_res (gt_sender itr = 0 \<and> gt_trx_id itr = cancel_trx_id cancel) Tx_not_found) (\<lambda>_.
         bind_res (assert_res (list_ex (list_ex (\<lambda>a. a = canceling_auth cancel)) (gt_authorizations itr)) Action_validate_exception) (\<lambda>_.
         Inr (gt_delay_until itr - gt_published itr)))))"

text \<open>The special case of a native action: whether it was one, and the delay to satisfy.\<close>

definition check_native_action ::
  "'k auth_env \<Rightarrow> generated_transaction list \<Rightarrow> 'k action \<Rightarrow> int \<Rightarrow> 'k auth_db \<Rightarrow> (bool \<times> int) result" where
  "check_native_action env gtrxs act delay db =
     (if act_account act \<noteq> system_account_name then Inr (False, delay)
      else if act_name act = updateauth_name then
        (case act_data act of
           Updateauth_data u \<Rightarrow> bind_res (check_updateauth_authorization u (authorization act) db) (\<lambda>_. Inr (True, delay))
         | _ \<Rightarrow> Inl Unpack_error)
      else if act_name act = deleteauth_name then
        (case act_data act of
           Deleteauth_data d \<Rightarrow> bind_res (check_deleteauth_authorization d (authorization act) db) (\<lambda>_. Inr (True, delay))
         | _ \<Rightarrow> Inl Unpack_error)
      else if act_name act = linkauth_name then
        (case act_data act of
           Linkauth_data l \<Rightarrow> bind_res (check_linkauth_authorization env l (authorization act) db) (\<lambda>_. Inr (True, delay))
         | _ \<Rightarrow> Inl Unpack_error)
      else if act_name act = unlinkauth_name then
        (case act_data act of
           Unlinkauth_data l \<Rightarrow> bind_res (check_unlinkauth_authorization l (authorization act) db) (\<lambda>_. Inr (True, delay))
         | _ \<Rightarrow> Inl Unpack_error)
      else if act_name act = canceldelay_name then
        (case act_data act of
           Canceldelay_data c \<Rightarrow>
             bind_res (check_canceldelay_authorization gtrxs c (authorization act) db) (\<lambda>d. Inr (True, max delay d))
         | _ \<Rightarrow> Inl Unpack_error)
      else Inr (False, delay))"

definition check_declared ::
  "bool \<Rightarrow> 'k action \<Rightarrow> int \<Rightarrow> permission_level list \<Rightarrow> 'k auth_db \<Rightarrow> permission_level \<Rightarrow>
     (permission_level \<times> int) list \<Rightarrow> (permission_level \<times> int) list result" where
  "check_declared special_case act delay satisfied_authorizations db declared to_satisfy =
     bind_res
       (if special_case then Inr ()
        else bind_res (lookup_minimum_permission (actor declared) (act_account act) (act_name act) db) (\<lambda>min_name.
             case min_name of
               None \<Rightarrow> Inr ()
             | Some pn \<Rightarrow>
                 bind_res (get_permission \<lparr>actor = actor declared, permission = pn\<rparr> db) (\<lambda>min_permission.
                 require_satisfies declared (Inr min_permission) db))) (\<lambda>_.
     Inr (if declared \<in> set satisfied_authorizations then to_satisfy
          else case map_of to_satisfy declared of
                 None \<Rightarrow> (declared, delay) # to_satisfy
               | Some d \<Rightarrow> if delay < d then map (\<lambda>p. if fst p = declared then (declared, delay) else p) to_satisfy else to_satisfy))"

definition check_action ::
  "'k auth_env \<Rightarrow> generated_transaction list \<Rightarrow> int \<Rightarrow> permission_level list \<Rightarrow> 'k auth_db \<Rightarrow> 'k action \<Rightarrow>
     (permission_level \<times> int) list \<Rightarrow> (permission_level \<times> int) list result" where
  "check_action env gtrxs effective_provided_delay satisfied_authorizations db act to_satisfy =
     bind_res (check_native_action env gtrxs act effective_provided_delay db) (\<lambda>(special_case, delay).
     fold_res (check_declared special_case act delay satisfied_authorizations db) (authorization act) to_satisfy)"

definition microseconds_maximum :: int where
  "microseconds_maximum = 2 ^ 63 - 1"

definition effective_delay :: "'k auth_env \<Rightarrow> int \<Rightarrow> int" where
  "effective_delay env delay = (if uint (max_transaction_delay env) * 1000000 \<le> delay then microseconds_maximum else delay)"

definition checker_for :: "'k auth_env \<Rightarrow> 'k list \<Rightarrow> permission_level list \<Rightarrow> int \<Rightarrow> 'k auth_db \<Rightarrow> 'k checker_env" where
  "checker_for env ks ps delay db =
     \<lparr>permission_to_authority = (\<lambda>l. case get_permission l db of Inl _ \<Rightarrow> None | Inr p \<Rightarrow> Some (auth (snd p))),
      provided_keys = ks, provided_permissions = ps, provided_delay = delay,
      recursion_depth_limit = max_authority_depth env\<rparr>"

text \<open>
  The function builds an authority checker from the provided keys and permissions and collects the permissions to satisfy; the
  loop that would ask the checker is commented out in the source, and so is the test for unused keys.
\<close>

definition check_authorization ::
  "'k auth_env \<Rightarrow> generated_transaction list \<Rightarrow> 'k action list \<Rightarrow> 'k list \<Rightarrow> permission_level list \<Rightarrow> int \<Rightarrow> bool \<Rightarrow>
     permission_level list \<Rightarrow> 'k auth_db \<Rightarrow> unit result" where
  "check_authorization env gtrxs actions ks ps delay allow_unused_keys satisfied_authorizations db =
     (let effective_provided_delay = effective_delay env delay;
          checker = checker_for env ks ps effective_provided_delay db in
      bind_res (fold_res (check_action env gtrxs effective_provided_delay satisfied_authorizations db) actions []) (\<lambda>permissions_to_satisfy.
      Inr ()))"

definition check_permission_authorization ::
  "'k auth_env \<Rightarrow> 64 word \<Rightarrow> 64 word \<Rightarrow> 'k list \<Rightarrow> permission_level list \<Rightarrow> int \<Rightarrow> bool \<Rightarrow> 'k auth_db \<Rightarrow> unit result" where
  "check_permission_authorization env account perm ks ps delay allow_unused_keys db =
     (let checker = checker_for env ks ps (effective_delay env delay) db in Inr ())"

section \<open>The invariant of the tables\<close>

lemma name_values [code]:
  "system_account_name = 0x4a12000000000000"
  "active_name = 0x3232eda800000000"
  "owner_name = 0xa726ab8000000000"
  "dcd_any_name = 0x4a12034fc0000000"
  "dcd_code_name = 0x4a1204512a000000"
  "updateauth_name = 0xd5526ca8dacb4000"
  "deleteauth_name = 0x4aa2aca8dacb4000"
  "linkauth_name = 0x8ba7036b2d000000"
  "unlinkauth_name = 0xd4e2e9c0dacb4000"
  "canceldelay_name = 0x41a685452a89bc00"
  by (simp_all add: system_account_name_def active_name_def owner_name_def dcd_any_name_def dcd_code_name_def updateauth_name_def deleteauth_name_def linkauth_name_def unlinkauth_name_def canceldelay_name_def
    name_literal_def string_to_uint64_t_def char_to_symbol_def in_range_def)

definition permission_row_ok :: "'k permission_object otable \<Rightarrow> nat \<Rightarrow> 'k permission_object \<Rightarrow> bool" where
  "permission_row_ok t i p \<longleftrightarrow> owner p \<noteq> 0 \<and> perm_name p \<noteq> 0 \<and> (parent p = 0 \<longleftrightarrow> perm_name p = owner_name) \<and> parent p < i \<and>
     (case find_row (parent p) t of None \<Rightarrow> False | Some q \<Rightarrow> parent p \<noteq> 0 \<longrightarrow> owner q = owner p)"

definition permissions_ok :: "'k permission_object otable \<Rightarrow> bool" where
  "permissions_ok t \<longleftrightarrow> table_ok [by_owner] t \<and> find_row 0 t = Some reserved_permission \<and>
     list_all (\<lambda>(i, p). i = 0 \<or> permission_row_ok t i p) (rows t)"

definition used_ids :: "'k permission_object otable \<Rightarrow> nat list" where
  "used_ids t = map (\<lambda>r. usage_id (snd r)) (filter (\<lambda>r. fst r \<noteq> 0) (rows t))"

definition usages_ok :: "'k auth_db \<Rightarrow> bool" where
  "usages_ok db \<longleftrightarrow> table_ok usage_keys (permission_usage_index db) \<and> distinct (used_ids (permission_index db)) \<and>
     list_all (\<lambda>u. find_row u (permission_usage_index db) \<noteq> None) (used_ids (permission_index db))"

definition auth_ok :: "'k auth_db \<Rightarrow> bool" where
  "auth_ok db \<longleftrightarrow> permissions_ok (permission_index db) \<and> usages_ok db \<and> table_ok [by_action_name] (permission_link_index db)"

lemma permissions_alt:
  "permissions_ok t \<longleftrightarrow> table_ok [by_owner] t \<and> find_row 0 t = Some reserved_permission \<and>
     (\<forall>i p. 0 < i \<longrightarrow> find_row i t = Some p \<longrightarrow>
        owner p \<noteq> 0 \<and> perm_name p \<noteq> 0 \<and> (parent p = 0 \<longleftrightarrow> perm_name p = owner_name) \<and> parent p < i \<and>
        (\<exists>q. find_row (parent p) t = Some q \<and> (parent p \<noteq> 0 \<longrightarrow> owner q = owner p)))"
proof (cases "table_ok [by_owner] t")
  case True
  have "list_all (\<lambda>(i, p). i = 0 \<or> permission_row_ok t i p) (rows t) \<longleftrightarrow>
      (\<forall>i p. 0 < i \<longrightarrow> find_row i t = Some p \<longrightarrow> permission_row_ok t i p)"
    unfolding list_all_iff find_row_mem[OF True] Ball_def split_paired_All prod.case by blast
  moreover have "permission_row_ok t i p \<longleftrightarrow> owner p \<noteq> 0 \<and> perm_name p \<noteq> 0 \<and> (parent p = 0 \<longleftrightarrow> perm_name p = owner_name) \<and>
      parent p < i \<and> (\<exists>q. find_row (parent p) t = Some q \<and> (parent p \<noteq> 0 \<longrightarrow> owner q = owner p))" for i p
    by (simp add: permission_row_ok_def split: option.splits)
  ultimately show ?thesis
    by (simp only: permissions_ok_def)
qed (simp add: permissions_ok_def)

lemma get_permission_Inr:
  "get_permission l db = Inr (i, p) \<longleftrightarrow>
     actor l \<noteq> 0 \<and> permission l \<noteq> 0 \<and> find_by by_owner (actor l, permission l) (permission_index db) = Some (i, p)"
  by (auto simp: get_permission_def get_by_def result_simps split: option.splits)

lemma get_permission_row:
  assumes "permissions_ok (permission_index db)" "get_permission l db = Inr (i, p)"
  shows "0 < i" "find_row i (permission_index db) = Some p" "owner p = actor l" "perm_name p = permission l"
proof -
  have f: "find_row i (permission_index db) = Some p" "by_owner p = (actor l, permission l)" and l: "actor l \<noteq> 0"
    using assms find_by_row[of "[by_owner]" "permission_index db" by_owner "(actor l, permission l)" i p]
    unfolding get_permission_Inr permissions_alt by simp_all
  then show "find_row i (permission_index db) = Some p" "owner p = actor l" "perm_name p = permission l"
    by (auto simp: by_owner_def)
  show "0 < i"
  proof (rule ccontr)
    assume "\<not> 0 < i"
    then have "p = reserved_permission"
      using f assms(1) by (simp add: permissions_alt)
    then show False
      using f l by (simp add: by_owner_def reserved_permission_def)
  qed
qed

section \<open>Parents\<close>


inductive perm_above :: "'k permission_object otable \<Rightarrow> nat \<Rightarrow> nat \<Rightarrow> bool" for t where
  here: "find_row j t \<noteq> None \<Longrightarrow> perm_above t j j"
| up: "find_row j t = Some q \<Longrightarrow> perm_above t i (parent q) \<Longrightarrow> perm_above t i j"

lemma above_iff: "find_row j t = Some q \<Longrightarrow> perm_above t i j \<longleftrightarrow> i = j \<or> perm_above t i (parent q)"
  by (subst perm_above.simps) auto

lemma above_root: "perm_above t i j \<Longrightarrow> permissions_ok t \<Longrightarrow> j = 0 \<Longrightarrow> i = 0"
  by (induction rule: perm_above.induct) (auto simp: permissions_alt reserved_permission_def)

lemma permissions_ok_parent:
  assumes "permissions_ok t" "find_row j t = Some q"
  shows "\<exists>r. find_row (parent q) t = Some r" "parent q \<le> j" "0 < j \<Longrightarrow> parent q < j" "j < next_row t"
proof -
  have "(\<exists>r. find_row (parent q) t = Some r) \<and> parent q \<le> j \<and> (0 < j \<longrightarrow> parent q < j)"
  proof (cases "j = 0")
    case True
    then have "q = reserved_permission"
      using assms by (simp add: permissions_alt)
    then show ?thesis
      using True assms(2) by (simp add: reserved_permission_def)
  next
    case False
    then have "parent q < j \<and> (\<exists>r. find_row (parent q) t = Some r)"
      using assms unfolding permissions_alt by blast
    then show ?thesis by auto
  qed
  then show "\<exists>r. find_row (parent q) t = Some r" "parent q \<le> j" "0 < j \<Longrightarrow> parent q < j"
    by blast+
  show "j < next_row t"
    using assms tab.look_fresh[of "[by_owner]" t j q] by (simp add: permissions_alt)
qed

lemma walk_parents_above:
  assumes "permissions_ok t" "find_row j t = Some q" "j < n" "0 < i"
  shows "walk_parents n t i q = Inr (perm_above t i (parent q))"
  using assms(2,3)
proof (induction n arbitrary: j q)
  case (Suc n)
  obtain r where r: "find_row (parent q) t = Some r"
    using permissions_ok_parent(1)[OF assms(1) Suc.prems(1)] by blast
  show ?case
  proof (cases "i = parent q \<or> parent q = 0")
    case True
    then show ?thesis
      using above_root[OF _ assms(1)] assms(4) r by (auto intro: perm_above.here)
  next
    case False
    then have "0 < j"
      using permissions_ok_parent(2)[OF assms(1) Suc.prems(1)] by auto
    then have "parent q < n"
      using permissions_ok_parent(3)[OF assms(1) Suc.prems(1)] Suc.prems(2) by simp
    then show ?thesis
      using False r Suc.IH[OF r] above_iff[OF r] by simp
  qed
qed simp

lemma above_owner:
  "perm_above t i j \<Longrightarrow> permissions_ok t \<Longrightarrow> 0 < i \<Longrightarrow> find_row i t = Some p \<Longrightarrow> find_row j t = Some q \<Longrightarrow> owner p = owner q"
proof (induction arbitrary: q rule: perm_above.induct)
  case (up j q' i)
  then have [simp]: "q' = q" by simp
  have pos: "parent q \<noteq> 0"
    using above_root[OF up.hyps(2) up.prems(1)] up.prems(2) by auto
  then have "0 < j"
    using permissions_ok_parent(2)[OF up.prems(1,4)] by simp
  then obtain r where "find_row (parent q) t = Some r" "owner r = owner q"
    using up.prems(1,4) pos unfolding permissions_alt by blast
  then show ?case
    using up.IH[OF up.prems(1,2,3)] by simp
qed simp

lemma satisfies_is_ancestor_aux:
  assumes "permissions_ok t" "find_row i t = Some p" "find_row j t = Some q" "0 < i"
  shows "satisfies (i, p) (j, q) t = Inr (perm_above t i j)"
proof (cases "owner p = owner q")
  case False
  then show ?thesis
    using above_owner[OF _ assms(1,4,2,3)] by (auto simp: satisfies_def)
next
  case True
  obtain r where r: "find_row (parent q) t = Some r"
    using permissions_ok_parent(1)[OF assms(1,3)] by blast
  have "walk_parents (Suc (next_row t)) t i r = Inr (perm_above t i (parent r))"
    using permissions_ok_parent(4)[OF assms(1) r] by (intro walk_parents_above[OF assms(1) r _ assms(4)]) simp
  then show ?thesis
    using True r above_iff[OF assms(3), of i] above_iff[OF r, of i] by (auto simp: satisfies_def simp del: walk_parents.simps)
qed

text \<open>
  C26. On a well-formed permission table the walk up the parents ends, reads no missing row, and
  answers whether the first permission is the second or one of its ancestors; the test of the owners
  never changes the answer.
\<close>

theorem satisfies_is_ancestor:
  assumes "permissions_ok t" "find_row i t = Some p" "find_row j t = Some q" "0 < i"
  shows "satisfies (i, p) (j, q) t = Inr (perm_above t i j)"
  using assms by (rule satisfies_is_ancestor_aux)


definition sample_authorization :: "nat \<Rightarrow> nat authority" where
  "sample_authorization k = authority_of_key k 0"

definition sample_auth_env :: "nat auth_env" where
  "sample_auth_env = \<lparr>key_which = (\<lambda>_. 0), num_supported_key_types = 2, pending_block_time = 7, max_transaction_delay = 3888000,
     max_authority_depth = 6, fix_linkauth_restriction = True\<rparr>"

definition sample_permissions :: "nat auth_db result" where
  "sample_permissions =
     bind_res (initialize_database empty_auth_db) (\<lambda>db.
     bind_res (create_permission sample_auth_env 5 owner_name 0 (sample_authorization 11) 0 db) (\<lambda>(o5, db).
     bind_res (create_permission sample_auth_env 5 active_name o5 (sample_authorization 12) 0 db) (\<lambda>(a5, db).
     bind_res (create_permission sample_auth_env 5 99 a5 (sample_authorization 13) 0 db) (\<lambda>(_, db). Inr db))))"

definition sample_auth_db :: "nat auth_db" where
  "sample_auth_db = projr sample_permissions"

theorem satisfies_is_ancestor_witness:
  "\<exists>p q. find_row 1 (permission_index sample_auth_db) = Some p \<and> find_row 3 (permission_index sample_auth_db) = Some q \<and>
     satisfies (1, p) (3, q) (permission_index sample_auth_db) = Inr (perm_above (permission_index sample_auth_db) 1 3)"
proof -
  let ?t = "permission_index sample_auth_db"
  have "permissions_ok ?t" "find_row 1 ?t \<noteq> None" "find_row 3 ?t \<noteq> None"
    by code_simp+
  then obtain p q where "find_row 1 ?t = Some p" "find_row 3 ?t = Some q"
    by blast
  then show ?thesis
    using satisfies_is_ancestor[OF \<open>permissions_ok ?t\<close>, of 1 p 3 q] by simp
qed

section \<open>The operations keep the invariant\<close>

lemma auth_okD:
  assumes "auth_ok db"
  shows "permissions_ok (permission_index db)" "usages_ok db" "table_ok [by_owner] (permission_index db)"
    "table_ok usage_keys (permission_usage_index db)" "table_ok [by_action_name] (permission_link_index db)"
    "find_row 0 (permission_index db) = Some reserved_permission" "0 < next_row (permission_index db)"
proof -
  show p: "permissions_ok (permission_index db)" and "usages_ok db" "table_ok [by_action_name] (permission_link_index db)"
    using assms by (simp_all add: auth_ok_def)
  then show "table_ok [by_owner] (permission_index db)" "table_ok usage_keys (permission_usage_index db)"
    and z: "find_row 0 (permission_index db) = Some reserved_permission"
    by (simp_all add: permissions_ok_def usages_ok_def)
  show "0 < next_row (permission_index db)"
    using permissions_ok_parent(4)[OF p z] by simp
qed

lemma used_ids_row: "u \<in> set (used_ids t) \<longleftrightarrow> (\<exists>i p. (i, p) \<in> set (rows t) \<and> 0 < i \<and> usage_id p = u)"
  by (force simp: used_ids_def)

definition new_permission :: "'k auth_env \<Rightarrow> 64 word \<Rightarrow> 64 word \<Rightarrow> nat \<Rightarrow> 'k authority \<Rightarrow> int \<Rightarrow> 'k auth_db \<Rightarrow> 'k permission_object" where
  "new_permission env account pname par a tm db =
     \<lparr>usage_id = next_row (permission_usage_index db), parent = par, owner = account, perm_name = pname,
      last_updated = (if tm = 0 then pending_block_time env else tm), auth = a\<rparr>"

lemma create_permission_Inr:
  assumes "create_permission env account pname par a tm db = Inr (i, db')"
  shows "i = next_row (permission_index db)"
    "\<exists>us. create usage_keys (\<lambda>_. us) (permission_usage_index db) = Inr (permission_usage_index db')"
    "create [by_owner] (\<lambda>_. new_permission env account pname par a tm db) (permission_index db) = Inr (permission_index db')"
    "permission_link_index db' = permission_link_index db"
  using assms by (auto simp: create_permission_def new_permission_def Let_def result_simps)

lemma permissions_ok_add:
  assumes ok: "permissions_ok t" and t': "create [by_owner] (\<lambda>_. p) t = Inr t'"
    and p: "owner p \<noteq> 0" "perm_name p \<noteq> 0" "parent p = 0 \<longleftrightarrow> perm_name p = owner_name"
    and par: "find_row (parent p) t = Some q" "parent p \<noteq> 0 \<longrightarrow> owner q = owner p"
  shows "permissions_ok t'"
proof -
  have tok: "table_ok [by_owner] t"
    using ok by (simp add: permissions_ok_def)
  note c = create_table_ok[OF tok t']
  have lt: "parent p < next_row t" "0 < next_row t"
    using permissions_ok_parent(4)[OF ok par(1)] by auto
  show ?thesis
    unfolding permissions_alt
  proof (intro conjI allI impI)
    fix i r assume i: "0 < i" "find_row i t' = Some r"
    have "owner r \<noteq> 0 \<and> perm_name r \<noteq> 0 \<and> (parent r = 0 \<longleftrightarrow> perm_name r = owner_name) \<and> parent r < i \<and>
        (\<exists>q. find_row (parent r) t = Some q \<and> (parent r \<noteq> 0 \<longrightarrow> owner q = owner r))"
    proof (cases "i = next_row t")
      case True
      then show ?thesis using i c(2) p par lt by auto
    next
      case False
      then have "find_row i t = Some r" using i c(2) by simp
      then show ?thesis using ok i(1) unfolding permissions_alt by blast
    qed
    moreover have "find_row j t' = Some x" if "find_row j t = Some x" for j x
      using that permissions_ok_parent(4)[OF ok that] c(2) by simp
    ultimately show "owner r \<noteq> 0" "perm_name r \<noteq> 0" "(parent r = 0) = (perm_name r = owner_name)" "parent r < i"
      "\<exists>q. find_row (parent r) t' = Some q \<and> (parent r \<noteq> 0 \<longrightarrow> owner q = owner r)"
      by blast+
  next
    show "find_row 0 t' = Some reserved_permission"
      using c(2)[of 0] lt ok by (simp add: permissions_ok_def)
  qed (rule c(1))
qed

lemma create_permission_ok:
  assumes ok: "auth_ok db" and c: "create_permission env account pname par a tm db = Inr (i, db')"
    and p: "account \<noteq> 0" "pname \<noteq> 0" "par = 0 \<longleftrightarrow> pname = owner_name"
    and par: "find_row par (permission_index db) = Some q" "par \<noteq> 0 \<longrightarrow> owner q = account"
  shows "auth_ok db'" "i = next_row (permission_index db)" "0 < i" "permission_link_index db' = permission_link_index db"
    "\<exists>p. owner p = account \<and> perm_name p = pname \<and> rows (permission_index db') = rows (permission_index db) @ [(i, p)] \<and>
       find_row i (permission_index db') = Some p"
proof -
  note d = auth_okD[OF ok]
  define np where "np = new_permission env account pname par a tm db"
  obtain us where us: "create usage_keys (\<lambda>_. us) (permission_usage_index db) = Inr (permission_usage_index db')"
    using create_permission_Inr(2)[OF c] by blast
  have np: "usage_id np = next_row (permission_usage_index db)" "parent np = par" "owner np = account" "perm_name np = pname"
    by (simp_all add: np_def new_permission_def)
  note ps = create_permission_Inr(3)[OF c, folded np_def] and l = create_permission_Inr(4)[OF c]
  show i: "i = next_row (permission_index db)" "0 < i"
    using create_permission_Inr(1)[OF c] d(7) by simp_all
  show "permission_link_index db' = permission_link_index db" by (rule l)
  have rows': "rows (permission_index db') = rows (permission_index db) @ [(i, np)]"
    using ps i(1) by (auto simp: create_Inr)
  then show "\<exists>p. owner p = account \<and> perm_name p = pname \<and> rows (permission_index db') = rows (permission_index db) @ [(i, p)] \<and>
       find_row i (permission_index db') = Some p"
    using np create_table_ok(2)[OF d(3) ps, of i] i(1) by auto
  note cu = create_table_ok[OF d(4) us]
  have ids: "used_ids (permission_index db') = used_ids (permission_index db) @ [next_row (permission_usage_index db)]"
    using rows' np(1) i(2) by (simp add: used_ids_def)
  have old: "find_row u (permission_usage_index db) \<noteq> None \<and> u < next_row (permission_usage_index db)" if "u \<in> set (used_ids (permission_index db))" for u
  proof -
    have "find_row u (permission_usage_index db) \<noteq> None"
      using that d(2) by (simp add: usages_ok_def list_all_iff)
    then show ?thesis
      using tab.look_fresh[OF d(4), of u] by blast
  qed
  have "usages_ok db'"
    unfolding usages_ok_def ids
  proof (intro conjI)
    show "distinct (used_ids (permission_index db) @ [next_row (permission_usage_index db)])"
      using d(2) old by (auto simp: usages_ok_def)
    show "list_all (\<lambda>u. find_row u (permission_usage_index db') \<noteq> None) (used_ids (permission_index db) @ [next_row (permission_usage_index db)])"
      using old cu(2) by (auto simp: list_all_iff)
  qed (rule cu(1))
  moreover have "permissions_ok (permission_index db')"
    using permissions_ok_add[OF d(1) ps] np p par by simp
  ultimately show "auth_ok db'"
    using d(5) l by (simp add: auth_ok_def)
qed


lemma permissions_ok_change:
  assumes ok: "permissions_ok t" and i: "0 < i" and t': "modify_row [by_owner] i m t = Inr t'"
    and m: "\<And>p. owner (m p) = owner p \<and> perm_name (m p) = perm_name p \<and> parent (m p) = parent p"
  shows "permissions_ok t'"
proof -
  have tok: "table_ok [by_owner] t"
    using ok by (simp add: permissions_ok_def)
  note c = modify_row_table_ok[OF tok t']
  obtain v where v: "find_row i t = Some v" "\<forall>j. find_row j t' = (if j = i then Some (m v) else find_row j t)"
    using c(2) by blast
  have same: "find_row j t' = Some r \<Longrightarrow> \<exists>r'. find_row j t = Some r' \<and> owner r' = owner r \<and> perm_name r' = perm_name r \<and> parent r' = parent r" for j r
    using v m by (cases "j = i") auto
  have keep: "find_row j t = Some r \<Longrightarrow> \<exists>r'. find_row j t' = Some r' \<and> owner r' = owner r" for j r
    using v m by (cases "j = i") auto
  show ?thesis
    unfolding permissions_alt
  proof (intro conjI allI impI)
    fix j r assume j: "0 < j" "find_row j t' = Some r"
    obtain r' where r': "find_row j t = Some r'" "owner r' = owner r" "perm_name r' = perm_name r" "parent r' = parent r"
      using same[OF j(2)] by blast
    then have "owner r \<noteq> 0 \<and> perm_name r \<noteq> 0 \<and> (parent r = 0 \<longleftrightarrow> perm_name r = owner_name) \<and> parent r < j \<and>
        (\<exists>q. find_row (parent r) t = Some q \<and> (parent r \<noteq> 0 \<longrightarrow> owner q = owner r))"
      using ok j(1) unfolding permissions_alt by metis
    then show "owner r \<noteq> 0" "perm_name r \<noteq> 0" "(parent r = 0) = (perm_name r = owner_name)" "parent r < j"
      "\<exists>q. find_row (parent r) t' = Some q \<and> (parent r \<noteq> 0 \<longrightarrow> owner q = owner r)"
      using keep by fastforce+
  next
    show "find_row 0 t' = Some reserved_permission"
      using v(2) i ok by (simp add: permissions_ok_def)
  qed (rule c(1))
qed

lemma used_ids_column: "used_ids t = map snd (filter (\<lambda>r. fst r \<noteq> 0) (map (\<lambda>r. (fst r, usage_id (snd r))) (rows t)))"
  by (simp add: used_ids_def filter_map o_def)

lemma modify_permission_ok:
  assumes ok: "auth_ok db" and i: "0 < i" and m: "modify_permission env i a db = Inr db'"
  shows "auth_ok db'" "permission_link_index db' = permission_link_index db"
    "map (\<lambda>r. by_owner (snd r)) (rows (permission_index db')) = map (\<lambda>r. by_owner (snd r)) (rows (permission_index db))"
proof -
  note d = auth_okD[OF ok]
  obtain ps where ps: "modify_row [by_owner] i (\<lambda>po. po\<lparr>auth := a, last_updated := pending_block_time env\<rparr>) (permission_index db) = Inr ps"
    and db': "db' = db\<lparr>permission_index := ps\<rparr>"
    using m by (auto simp: modify_permission_def result_simps)
  have "used_ids ps = used_ids (permission_index db)"
    unfolding used_ids_column using modify_row_column[OF ps d(3), of usage_id] by simp
  moreover have "permissions_ok ps"
    by (rule permissions_ok_change[OF d(1) i ps]) simp
  ultimately show "auth_ok db'"
    using d by (simp add: db' auth_ok_def usages_ok_def)
  show "permission_link_index db' = permission_link_index db"
    by (simp add: db')
  show "map (\<lambda>r. by_owner (snd r)) (rows (permission_index db')) = map (\<lambda>r. by_owner (snd r)) (rows (permission_index db))"
    using arg_cong[OF modify_row_column[OF ps d(3), of by_owner], of "map snd"] by (simp add: db' by_owner_def o_def)
qed

lemma permissions_ok_remove:
  assumes ok: "permissions_ok t" and i: "0 < i" and leaf: "\<And>j q. (j, q) \<in> set (rows t) \<Longrightarrow> parent q \<noteq> i"
  shows "permissions_ok (remove_row i t)"
proof -
  have tok: "table_ok [by_owner] t"
    using ok by (simp add: permissions_ok_def)
  note c = remove_row_table_ok[OF tok]
  show ?thesis
    unfolding permissions_alt
  proof (intro conjI allI impI)
    fix j r assume j: "0 < j" "find_row j (remove_row i t) = Some r"
    then have r: "find_row j t = Some r"
      using c(2)[of j i] by (simp split: if_splits)
    moreover have "parent r \<noteq> i"
      using leaf r by (simp add: find_row_mem[OF tok])
    ultimately show "owner r \<noteq> 0" "perm_name r \<noteq> 0" "(parent r = 0) = (perm_name r = owner_name)" "parent r < j"
      "\<exists>q. find_row (parent r) (remove_row i t) = Some q \<and> (parent r \<noteq> 0 \<longrightarrow> owner q = owner r)"
      using ok j(1) c(2)[of "parent r" i] unfolding permissions_alt by (auto split: if_splits)
  next
    show "find_row 0 (remove_row i t) = Some reserved_permission"
      using c(2)[of 0 i] i ok by (simp add: permissions_ok_def)
  qed (rule c(1))
qed

lemma remove_permission_ok:
  assumes ok: "auth_ok db" and p: "find_row i (permission_index db) = Some p" "0 < i" and r: "remove_permission (i, p) db = Inr db'"
  shows "auth_ok db'" "permission_link_index db' = permission_link_index db"
    "rows (permission_index db') = filter (\<lambda>r. fst r \<noteq> i) (rows (permission_index db))"
proof -
  note d = auth_okD[OF ok]
  have leaf: "list_all (\<lambda>q. parent (snd q) \<noteq> i) (rows (permission_index db))"
    and db': "db' = db\<lparr>permission_usage_index := remove_row (usage_id p) (permission_usage_index db),
             permission_index := remove_row i (permission_index db)\<rparr>"
    using r by (auto simp: remove_permission_def result_simps)
  show "permission_link_index db' = permission_link_index db" "rows (permission_index db') = filter (\<lambda>r. fst r \<noteq> i) (rows (permission_index db))"
    by (simp_all add: db' remove_row_def)
  have "permissions_ok (permission_index db')"
    using permissions_ok_remove[OF d(1) p(2)] leaf by (force simp: db' list_all_iff)
  moreover have "usages_ok db'"
  proof -
    let ?rs = "filter (\<lambda>r. fst r \<noteq> 0) (rows (permission_index db))"
    have ids: "used_ids (permission_index db') = map (\<lambda>r. usage_id (snd r)) (filter (\<lambda>r. fst r \<noteq> i) ?rs)"
      by (simp add: db' used_ids_def remove_row_def conj_commute)
    have dist: "distinct (map (\<lambda>r. usage_id (snd r)) ?rs)"
      using d(2) by (simp add: usages_ok_def used_ids_def)
    have mem: "(i, p) \<in> set ?rs"
      using p by (simp add: find_row_mem[OF d(3)])
    have "u \<noteq> usage_id p \<and> u \<in> set (used_ids (permission_index db))" if u: "u \<in> set (used_ids (permission_index db'))" for u
    proof -
      obtain r where r: "r \<in> set ?rs" "fst r \<noteq> i" "u = usage_id (snd r)"
        using u unfolding ids by auto
      then have "usage_id (snd r) \<noteq> usage_id p"
        using inj_onD[OF conjunct2[OF dist[unfolded distinct_map]], of r "(i, p)"] mem by auto
      then show ?thesis
        using r by (auto simp: used_ids_def)
    qed
    then show ?thesis
      using d(2) remove_row_table_ok[OF d(4)] distinct_map_filter[OF dist] unfolding ids usages_ok_def
      by (auto simp: list_all_iff db')
  qed
  ultimately show "auth_ok db'"
    using d by (simp add: auth_ok_def db')
qed


section \<open>What an accepted transaction guarantees\<close>

lemma require_satisfies_Inr:
  assumes "permissions_ok (permission_index db)" "require_satisfies declared (get_permission l db) db = Inr u"
  shows "\<exists>i p j q. get_permission declared db = Inr (i, p) \<and> get_permission l db = Inr (j, q) \<and> perm_above (permission_index db) i j"
proof -
  obtain i p j q where g: "get_permission declared db = Inr (i, p)" "get_permission l db = Inr (j, q)"
    "satisfies (i, p) (j, q) (permission_index db) = Inr True"
    using assms(2) by (auto simp: require_satisfies_def result_simps)
  moreover have "satisfies (i, p) (j, q) (permission_index db) = Inr (perm_above (permission_index db) i j)"
    using get_permission_row[OF assms(1) g(1)] get_permission_row[OF assms(1) g(2)] by (intro satisfies_is_ancestor_aux[OF assms(1)])
  ultimately show ?thesis by auto
qed

lemma fold_res_all: "fold_res f xs s = Inr t \<Longrightarrow> x \<in> set xs \<Longrightarrow> \<exists>s t. f x s = Inr t"
  by (induction xs arbitrary: s) (auto simp: result_simps)

text \<open>
  C27. When a transaction passes the check, every authorization declared on an action that is not one of the
  five native permission actions exists as a permission, and it is the permission that the account linked to that
  action (its active permission by default) or an ancestor of it, unless the action is linked to \<open>dcd.any\<close>.
\<close>

theorem check_authorization_sound:
  assumes ok: "permissions_ok (permission_index db)"
    and c: "check_authorization env gtrxs actions ks ps delay allow sat db = Inr u"
    and act: "act \<in> set actions" "declared \<in> set (authorization act)"
    and ordinary: "act_account act \<noteq> system_account_name \<or> act_name act \<notin> set unlinkable_names"
    and min: "lookup_minimum_permission (actor declared) (act_account act) (act_name act) db = Inr (Some pn)"
  shows "\<exists>i p j q. get_permission declared db = Inr (i, p) \<and>
     get_permission \<lparr>actor = actor declared, permission = pn\<rparr> db = Inr (j, q) \<and> perm_above (permission_index db) i j"
proof -
  obtain m m' where a: "check_action env gtrxs (effective_delay env delay) sat db act m = Inr m'"
    using c fold_res_all[OF _ act(1)] by (fastforce simp: check_authorization_def Let_def result_simps)
  obtain d where n: "check_native_action env gtrxs act (effective_delay env delay) db = Inr (False, d)"
    using a ordinary by (auto simp: check_action_def check_native_action_def unlinkable_names_def result_simps split: if_splits)
  obtain n n' where "check_declared False act d sat db declared n = Inr n'"
    using a n fold_res_all[OF _ act(2)] by (fastforce simp: check_action_def)
  then obtain j q where g: "get_permission \<lparr>actor = actor declared, permission = pn\<rparr> db = Inr (j, q)"
    "require_satisfies declared (Inr (j, q)) db = Inr ()"
    using min by (auto simp: check_declared_def result_simps)
  then show ?thesis
    using require_satisfies_Inr[OF ok, of declared "\<lparr>actor = actor declared, permission = pn\<rparr>"] by simp
qed

definition sample_action :: "64 word \<Rightarrow> nat action" where
  "sample_action perm = \<lparr>act_account = 7, act_name = 8, authorization = [\<lparr>actor = 5, permission = perm\<rparr>], act_data = Other_data\<rparr>"

lemma sample_check: "check_authorization sample_auth_env [] [sample_action owner_name] [] [] 0 False [] sample_auth_db = Inr ()"
  by code_simp

lemma sample_permissions_ok: "permissions_ok (permission_index sample_auth_db)"
  by code_simp

theorem check_authorization_sound_witness:
  "\<exists>i p j q. get_permission \<lparr>actor = 5, permission = owner_name\<rparr> sample_auth_db = Inr (i, p) \<and>
     get_permission \<lparr>actor = 5, permission = active_name\<rparr> sample_auth_db = Inr (j, q) \<and>
     perm_above (permission_index sample_auth_db) i j"
proof -
  have "lookup_minimum_permission 5 7 8 sample_auth_db = Inr (Some active_name)" "7 \<noteq> system_account_name"
    by code_simp+
  then show ?thesis
    using check_authorization_sound[OF sample_permissions_ok sample_check, of "sample_action owner_name" "\<lparr>actor = 5, permission = owner_name\<rparr>"]
    by (simp add: sample_action_def)
qed


end
