(* ===== verification/Block_Timestamp.thy ===== *)
theory Block_Timestamp
  imports Chain_Prelude
begin

text \<open>
  Block timestamps (\<^verbatim>\<open>libraries/chain/include/dcd/chain/block_timestamp.hpp\<close>): a 32-bit count of
  half-second slots since the epoch of the year 2000. Times are microseconds since 1970 in a
  signed 64-bit word; the subtraction of the epoch is done in unsigned 64-bit arithmetic and the
  quotient is cut to 32 bits, as in the source.
\<close>

unbundle bit_operations_syntax

section \<open>The class\<close>

type_synonym slot = "32 word"

definition block_interval_ms :: "64 word" where
  "block_interval_ms = 500"

definition block_timestamp_epoch :: "64 word" where
  "block_timestamp_epoch = 946684800000"

definition timestamp_maximum :: slot where
  "timestamp_maximum = 0xffff"

definition timestamp_min :: slot where
  "timestamp_min = 0"

definition next_slot :: "slot \<Rightarrow> slot result" where
  "next_slot s = bind_res (assert_res (1 \<le> 0xffffffff - s) Overflow_exception) (\<lambda>_. Inr (s + 1))"

definition to_time_point :: "slot \<Rightarrow> int" where
  "to_time_point s = (let msec = sint (ucast s * block_interval_ms + block_timestamp_epoch :: 64 word) in msec * 1000)"

text \<open>The quotient of two signed integers is truncated towards zero.\<close>

definition quot_int :: "int \<Rightarrow> int \<Rightarrow> int" where
  "quot_int a b = sgn a * sgn b * (\<bar>a\<bar> div \<bar>b\<bar>)"

definition set_time_point :: "int \<Rightarrow> slot" where
  "set_time_point t =
     (let msec_since_epoch = word_of_int (quot_int t 1000) :: 64 word in
      ucast ((msec_since_epoch - block_timestamp_epoch) div block_interval_ms))"

definition set_time_point_sec :: "32 word \<Rightarrow> slot" where
  "set_time_point_sec t = ucast ((ucast t * 1000 - block_timestamp_epoch :: 64 word) div block_interval_ms)"

section \<open>Slots and times\<close>

lemma slot_less: "uint (s :: slot) < 2 ^ 32"
  using unsigned_less[of s, where 'a = int] by simp

lemma uint_slot_time: "uint (ucast (s :: slot) * block_interval_ms + block_timestamp_epoch) = uint s * 500 + 946684800000"
proof -
  have "uint (ucast s :: 64 word) = uint s"
    by (simp add: unsigned_ucast_eq take_bit_int_eq_self_iff slot_less order_less_trans[OF slot_less])
  then show ?thesis
    using slot_less[of s] by (simp add: uint_word_ariths block_interval_ms_def block_timestamp_epoch_def)
qed

lemma to_time_point_value: "to_time_point s = (uint s * 500 + 946684800000) * 1000"
proof -
  have "0 \<le> uint s" by simp
  then have "signed_take_bit 63 (uint s * 500 + 946684800000) = uint s * 500 + 946684800000"
    using slot_less[of s] by (intro signed_take_bit_int_eq_self) simp_all
  then show ?thesis
    using uint_slot_time[of s] by (simp add: to_time_point_def Let_def sint_uint)
qed

lemma set_time_point_value:
  assumes "946684800000 \<le> t div 1000" "t div 1000 < 946684800000 + 500 * 2 ^ 32"
  shows "uint (set_time_point t) = (t div 1000 - 946684800000) div 500"
proof -
  have "0 \<le> t"
    using assms(1) by linarith
  then have q: "quot_int t 1000 = t div 1000"
    by (cases "t = 0") (simp_all add: quot_int_def)
  have u: "uint (word_of_int (t div 1000) - block_timestamp_epoch :: 64 word) = t div 1000 - 946684800000"
    using assms by (simp add: uint_word_ariths block_timestamp_epoch_def unsigned_of_int take_bit_int_eq_self_iff take_bit_eq_mod)
  then have "uint ((word_of_int (t div 1000) - block_timestamp_epoch :: 64 word) div block_interval_ms) = (t div 1000 - 946684800000) div 500"
    by (simp add: uint_div block_interval_ms_def)
  moreover have "0 \<le> (t div 1000 - 946684800000) div 500" "(t div 1000 - 946684800000) div 500 < 2 ^ 32"
    using assms by linarith+
  ultimately show ?thesis
    by (simp add: set_time_point_def Let_def q unsigned_ucast_eq take_bit_int_eq_self_iff)
qed

text \<open>
  Every slot is recovered from its time, and later slots have later times.
\<close>

theorem timestamp_roundtrip:
  "set_time_point (to_time_point s) = s \<and> (to_time_point s < to_time_point s' \<longleftrightarrow> s < s')"
proof -
  have "uint (set_time_point (to_time_point s)) = uint s"
    unfolding to_time_point_value using slot_less[of s] by (subst set_time_point_value) auto
  then have "set_time_point (to_time_point s) = s"
    by (rule unsigned_word_eqI)
  then show ?thesis
    by (simp add: to_time_point_value word_less_def)
qed

text \<open>
  A time from the epoch on that is within the range of slots is rounded down to the start of its slot.
\<close>

theorem timestamp_floor:
  assumes "946684800000000 \<le> t" "t < 946684800000000 + 500000 * 2 ^ 32"
  shows "to_time_point (set_time_point t) \<le> t \<and> t < to_time_point (set_time_point t) + 500000"
proof -
  have "uint (set_time_point t) = (t div 1000 - 946684800000) div 500"
    using assms by (intro set_time_point_value) linarith+
  then show ?thesis
    unfolding to_time_point_value using assms by simp linarith
qed

theorem timestamp_floor_witness:
  "to_time_point (set_time_point 1600000000123456) \<le> 1600000000123456 \<and>
   1600000000123456 < to_time_point (set_time_point 1600000000123456) + 500000"
  by (rule timestamp_floor) simp_all

end
