(* ===== verification/Native_Contract.thy ===== *)
theory Native_Contract
  imports Authorization_Manager Block_Timestamp Chain_Asset
begin

text \<open>
  The native actions of the system account (\<^verbatim>\<open>libraries/chain/dcd_contract.cpp\<close>): creating accounts,
  setting code and ABI, changing permissions and their links, and setting fees. Each handler is a function
  from the authorizations declared on the action, its payload and the tables to the new tables or the
  exception. The theory states the invariant of the tables (every account has its owner and active
  permission, permissions form a forest, links point to permissions, code rows are counted) and shows
  that every handler keeps it.

  The hash of a code and its validation are parameters. Billing is commented out in the source. The exceptions of
  failed lookups keep their class when a handler rethrows them with a message.
\<close>

section \<open>The tables\<close>

record account_object =
  acc_name :: "64 word"
  creation_date :: slot
  acc_abi :: "8 word list"

record account_metadata_object =
  md_name :: "64 word"
  code_sequence :: "64 word"
  abi_sequence :: "64 word"
  md_code_hash :: nat
  last_code_update :: int
  md_flags :: "32 word"
  md_vm_type :: "8 word"
  md_vm_version :: "8 word"

record code_object =
  co_hash :: nat
  co_code :: "8 word list"
  code_ref_count :: "64 word"
  first_block_used :: "32 word"
  co_vm_type :: "8 word"
  co_vm_version :: "8 word"

record action_fee_object =
  fee_account :: "64 word"
  fee_message_type :: "64 word"
  fee_asset :: asset

record 'k native_db =
  authz :: "'k auth_db"
  account_index :: "account_object otable"
  account_metadata_index :: "account_metadata_object otable"
  code_index :: "code_object otable"
  fee_index :: "action_fee_object otable"

record 'k native_env =
  auth_settings :: "'k auth_env"
  only_link_to_existing_permission :: bool
  check_keys :: bool
  key_blacklist :: "'k list"
  code_digest :: "8 word list \<Rightarrow> nat"
  wasm_validate :: "8 word list \<Rightarrow> unit result"
  head_block_num :: "32 word"

definition by_code_hash :: "code_object \<Rightarrow> nat \<times> 8 word \<times> 8 word" where
  "by_code_hash c = (co_hash c, co_vm_type c, co_vm_version c)"

definition by_fee_action :: "action_fee_object \<Rightarrow> 64 word \<times> 64 word" where
  "by_fee_action f = (fee_account f, fee_message_type f)"

definition is_privileged :: "account_metadata_object \<Rightarrow> bool" where
  "is_privileged a = (md_flags a AND 1 \<noteq> 0)"

definition set_privileged :: "bool \<Rightarrow> account_metadata_object \<Rightarrow> account_metadata_object" where
  "set_privileged b a = a\<lparr>md_flags := (if b then md_flags a OR 1 else md_flags a AND NOT 1)\<rparr>"

definition new_account_object :: "64 word \<Rightarrow> int \<Rightarrow> account_object" where
  "new_account_object n t = \<lparr>acc_name = n, creation_date = set_time_point t, acc_abi = []\<rparr>"

definition new_metadata :: "64 word \<Rightarrow> account_metadata_object" where
  "new_metadata n = \<lparr>md_name = n, code_sequence = 0, abi_sequence = 0, md_code_hash = 0, last_code_update = 0,
     md_flags = 0, md_vm_type = 0, md_vm_version = 0\<rparr>"

definition empty_native_db :: "'k native_db" where
  "empty_native_db = \<lparr>authz = empty_auth_db, account_index = empty_table, account_metadata_index = empty_table,
     code_index = empty_table, fee_index = empty_table\<rparr>"

section \<open>Handlers\<close>

definition require_authorization :: "64 word \<Rightarrow> permission_level list \<Rightarrow> unit result" where
  "require_authorization account auths = assert_res (list_ex (\<lambda>a. actor a = account) auths) Missing_auth_exception"

definition find_account :: "64 word \<Rightarrow> 'k native_db \<Rightarrow> (nat \<times> account_object) option" where
  "find_account n db = find_by acc_name n (account_index db)"

definition check_authority_account :: "'k native_db \<Rightarrow> permission_level_weight \<Rightarrow> unit \<Rightarrow> unit result" where
  "check_authority_account db a u =
     (let p = plw_permission a in
      bind_res (assert_res (find_account (actor p) db \<noteq> None) Action_validate_exception) (\<lambda>_.
      if permission p = owner_name \<or> permission p = active_name \<or> permission p = dcd_code_name then Inr ()
      else case get_permission p (authz db) of
             Inl e \<Rightarrow> Inl (if e = Permission_query_exception then Action_validate_exception else e)
           | Inr _ \<Rightarrow> Inr ()))"

definition validate_authority_precondition :: "'k native_env \<Rightarrow> 'k authority \<Rightarrow> 'k native_db \<Rightarrow> unit result" where
  "validate_authority_precondition env a db =
     bind_res (fold_res (check_authority_account db) (accounts a) ()) (\<lambda>_.
     assert_res (check_keys env \<longrightarrow> list_all (\<lambda>k. kw_key k \<notin> set (key_blacklist env)) (keys a)) Key_blacklist_exception)"

definition starts_with_dcd :: "64 word \<Rightarrow> bool" where
  "starts_with_dcd n = (take 4 (to_string n) = ''dcd.'')"

record 'k newaccount =
  na_creator :: "64 word"
  na_name :: "64 word"
  na_owner :: "'k authority"
  na_active :: "'k authority"

definition apply_dcd_newaccount :: "('k :: linorder) native_env \<Rightarrow> permission_level list \<Rightarrow> 'k newaccount \<Rightarrow> 'k native_db \<Rightarrow> 'k native_db result" where
  "apply_dcd_newaccount env auths act db =
     (let aenv = auth_settings env in
      bind_res (require_authorization (na_creator act) auths) (\<lambda>_.
      bind_res (assert_res (validate (na_owner act)) Action_validate_exception) (\<lambda>_.
      bind_res (assert_res (validate (na_active act)) Action_validate_exception) (\<lambda>_.
      let name_str = to_string (na_name act) in
      bind_res (assert_res (na_name act \<noteq> 0) Action_validate_exception) (\<lambda>_.
      bind_res (assert_res (length name_str \<le> 12) Action_validate_exception) (\<lambda>_.
      bind_res (get_by md_name (na_creator act) (account_metadata_index db)) (\<lambda>creator.
      bind_res (assert_res (is_privileged (snd creator) \<or> \<not> starts_with_dcd (na_name act)) Action_validate_exception) (\<lambda>_.
      bind_res (assert_res (find_account (na_name act) db = None) Account_name_exists_exception) (\<lambda>_.
      bind_res (create [acc_name] (\<lambda>_. new_account_object (na_name act) (pending_block_time aenv)) (account_index db)) (\<lambda>as.
      bind_res (create [md_name] (\<lambda>_. new_metadata (na_name act)) (account_metadata_index db)) (\<lambda>ms.
      let db1 = db\<lparr>account_index := as, account_metadata_index := ms\<rparr> in
      bind_res (validate_authority_precondition env (na_owner act) db1) (\<lambda>_.
      bind_res (validate_authority_precondition env (na_active act) db1) (\<lambda>_.
      bind_res (create_permission aenv (na_name act) owner_name 0 (na_owner act) 0 (authz db1)) (\<lambda>(owner_id, az1).
      bind_res (create_permission aenv (na_name act) active_name owner_id (na_active act) 0 az1) (\<lambda>(_, az2).
      Inr (db1\<lparr>authz := az2\<rparr>))))))))))))))))"

record setcode =
  sc_account :: "64 word"
  sc_vmtype :: "8 word"
  sc_vmversion :: "8 word"
  sc_code :: "8 word list"

definition release_code :: "account_metadata_object \<Rightarrow> nat \<Rightarrow> code_object otable \<Rightarrow> code_object otable result" where
  "release_code account new_hash codes =
     (if md_code_hash account = 0 then Inr codes
      else
        bind_res (get_by by_code_hash (md_code_hash account, md_vm_type account, md_vm_version account) codes) (\<lambda>(i, entry).
        bind_res (assert_res (co_hash entry \<noteq> new_hash) Set_exact_code) (\<lambda>_.
        if code_ref_count entry = 1 then Inr (remove_row i codes)
        else modify_row [by_code_hash] i (\<lambda>c. c\<lparr>code_ref_count := code_ref_count c - 1\<rparr>) codes)))"

definition acquire_code :: "'k native_env \<Rightarrow> setcode \<Rightarrow> nat \<Rightarrow> code_object otable \<Rightarrow> code_object otable result" where
  "acquire_code env act new_hash codes =
     (if sc_code act = [] then Inr codes
      else case find_by by_code_hash (new_hash, sc_vmtype act, sc_vmversion act) codes of
             Some (i, _) \<Rightarrow> modify_row [by_code_hash] i (\<lambda>c. c\<lparr>code_ref_count := code_ref_count c + 1\<rparr>) codes
           | None \<Rightarrow> create [by_code_hash] (\<lambda>_. \<lparr>co_hash = new_hash, co_code = sc_code act, code_ref_count = 1,
                       first_block_used = head_block_num env + 1, co_vm_type = sc_vmtype act, co_vm_version = sc_vmversion act\<rparr>) codes)"

definition apply_dcd_setcode :: "'k native_env \<Rightarrow> permission_level list \<Rightarrow> setcode \<Rightarrow> 'k native_db \<Rightarrow> 'k native_db result" where
  "apply_dcd_setcode env auths act db =
     bind_res (require_authorization (sc_account act) auths) (\<lambda>_.
     bind_res (assert_res (sc_vmtype act = 0) Invalid_contract_vm_type) (\<lambda>_.
     bind_res (assert_res (sc_vmversion act = 0) Invalid_contract_vm_version) (\<lambda>_.
     let code_hash = (if sc_code act = [] then 0 else code_digest env (sc_code act)) in
     bind_res (if sc_code act = [] then Inr () else wasm_validate env (sc_code act)) (\<lambda>_.
     bind_res (get_by md_name (sc_account act) (account_metadata_index db)) (\<lambda>(i, account).
     bind_res (assert_res (sc_code act \<noteq> [] \<or> md_code_hash account \<noteq> 0) Set_exact_code) (\<lambda>_.
     bind_res (release_code account code_hash (code_index db)) (\<lambda>codes1.
     bind_res (acquire_code env act code_hash codes1) (\<lambda>codes2.
     bind_res (modify_row [md_name] i (\<lambda>a. a\<lparr>code_sequence := code_sequence a + 1, md_code_hash := code_hash,
                 md_vm_type := sc_vmtype act, md_vm_version := sc_vmversion act,
                 last_code_update := pending_block_time (auth_settings env)\<rparr>) (account_metadata_index db)) (\<lambda>ms.
     Inr (db\<lparr>code_index := codes2, account_metadata_index := ms\<rparr>))))))))))"

definition apply_dcd_setabi :: "permission_level list \<Rightarrow> 64 word \<Rightarrow> 8 word list \<Rightarrow> 'k native_db \<Rightarrow> 'k native_db result" where
  "apply_dcd_setabi auths account abi db =
     bind_res (require_authorization account auths) (\<lambda>_.
     bind_res (get_by acc_name account (account_index db)) (\<lambda>(i, _).
     bind_res (modify_row [acc_name] i (\<lambda>a. a\<lparr>acc_abi := abi\<rparr>) (account_index db)) (\<lambda>as.
     bind_res (get_by md_name account (account_metadata_index db)) (\<lambda>(j, _).
     bind_res (modify_row [md_name] j (\<lambda>a. a\<lparr>abi_sequence := abi_sequence a + 1\<rparr>) (account_metadata_index db)) (\<lambda>ms.
     Inr (db\<lparr>account_index := as, account_metadata_index := ms\<rparr>))))))"

definition apply_dcd_updateauth :: "('k :: linorder) native_env \<Rightarrow> permission_level list \<Rightarrow> 'k updateauth \<Rightarrow> 'k native_db \<Rightarrow> 'k native_db result" where
  "apply_dcd_updateauth env auths upd db =
     (let aenv = auth_settings env in
      bind_res (require_authorization (upd_account upd) auths) (\<lambda>_.
      bind_res (assert_res (upd_permission upd \<noteq> 0) Action_validate_exception) (\<lambda>_.
      bind_res (assert_res (\<not> starts_with_dcd (upd_permission upd)) Action_validate_exception) (\<lambda>_.
      bind_res (assert_res (upd_permission upd \<noteq> upd_parent upd) Action_validate_exception) (\<lambda>_.
      bind_res (get_by acc_name (upd_account upd) (account_index db)) (\<lambda>_.
      bind_res (assert_res (validate (upd_auth upd)) Action_validate_exception) (\<lambda>_.
      bind_res (assert_res (upd_permission upd = active_name \<longrightarrow> upd_parent upd = owner_name) Action_validate_exception) (\<lambda>_.
      bind_res (assert_res (if upd_permission upd = owner_name then upd_parent upd = 0 else upd_parent upd \<noteq> 0) Action_validate_exception) (\<lambda>_.
      bind_res (assert_res (waits (upd_auth upd) \<noteq> [] \<longrightarrow> wait_sec (last (waits (upd_auth upd))) \<le> max_transaction_delay aenv) Action_validate_exception) (\<lambda>_.
      bind_res (validate_authority_precondition env (upd_auth upd) db) (\<lambda>_.
      bind_res (find_permission \<lparr>actor = upd_account upd, permission = upd_permission upd\<rparr> (authz db)) (\<lambda>found.
      bind_res (if upd_permission upd \<noteq> owner_name
                then bind_res (get_permission \<lparr>actor = upd_account upd, permission = upd_parent upd\<rparr> (authz db)) (\<lambda>p. Inr (fst p))
                else Inr 0) (\<lambda>parent_id.
      case found of
        Some (i, p) \<Rightarrow>
          bind_res (assert_res (parent_id = parent p) Action_validate_exception) (\<lambda>_.
          bind_res (modify_permission aenv i (upd_auth upd) (authz db)) (\<lambda>az. Inr (db\<lparr>authz := az\<rparr>)))
      | None \<Rightarrow>
          bind_res (create_permission aenv (upd_account upd) (upd_permission upd) parent_id (upd_auth upd) 0 (authz db)) (\<lambda>(_, az).
          Inr (db\<lparr>authz := az\<rparr>)))))))))))))))"

definition apply_dcd_deleteauth :: "permission_level list \<Rightarrow> deleteauth \<Rightarrow> 'k native_db \<Rightarrow> 'k native_db result" where
  "apply_dcd_deleteauth auths del db =
     bind_res (require_authorization (del_account del) auths) (\<lambda>_.
     bind_res (assert_res (del_permission del \<noteq> active_name) Action_validate_exception) (\<lambda>_.
     bind_res (assert_res (del_permission del \<noteq> owner_name) Action_validate_exception) (\<lambda>_.
     bind_res (assert_res (list_all (\<lambda>l. link_account (snd l) \<noteq> del_account del \<or> required_permission (snd l) \<noteq> del_permission del)
                 (rows (permission_link_index (authz db)))) Action_validate_exception) (\<lambda>_.
     bind_res (get_permission \<lparr>actor = del_account del, permission = del_permission del\<rparr> (authz db)) (\<lambda>p.
     bind_res (remove_permission p (authz db)) (\<lambda>az. Inr (db\<lparr>authz := az\<rparr>)))))))"

definition apply_dcd_linkauth :: "'k native_env \<Rightarrow> permission_level list \<Rightarrow> linkauth \<Rightarrow> 'k native_db \<Rightarrow> 'k native_db result" where
  "apply_dcd_linkauth env auths req db =
     bind_res (assert_res (lnk_requirement req \<noteq> 0) Action_validate_exception) (\<lambda>_.
     bind_res (require_authorization (lnk_account req) auths) (\<lambda>_.
     bind_res (assert_res (find_account (lnk_account req) db \<noteq> None) Account_query_exception) (\<lambda>_.
     bind_res (assert_res (find_account (lnk_code req) db \<noteq> None) Account_query_exception) (\<lambda>_.
     bind_res (assert_res (lnk_requirement req = dcd_any_name \<or>
                 (if only_link_to_existing_permission env
                  then find_by by_owner (lnk_account req, lnk_requirement req) (permission_index (authz db)) \<noteq> None
                  else find_by perm_name (lnk_requirement req) (permission_index (authz db)) \<noteq> None)) Permission_query_exception) (\<lambda>_.
     let links = permission_link_index (authz db) in
     bind_res (case find_by by_action_name (lnk_account req, lnk_code req, lnk_type req) links of
                 Some (i, l) \<Rightarrow>
                   bind_res (assert_res (required_permission l \<noteq> lnk_requirement req) Action_validate_exception) (\<lambda>_.
                   modify_row [by_action_name] i (\<lambda>l. l\<lparr>required_permission := lnk_requirement req\<rparr>) links)
               | None \<Rightarrow>
                   create [by_action_name] (\<lambda>_. \<lparr>link_account = lnk_account req, link_code = lnk_code req,
                     message_type = lnk_type req, required_permission = lnk_requirement req\<rparr>) links) (\<lambda>ls.
     Inr (db\<lparr>authz := (authz db)\<lparr>permission_link_index := ls\<rparr>\<rparr>)))))))"

definition apply_dcd_unlinkauth :: "permission_level list \<Rightarrow> unlinkauth \<Rightarrow> 'k native_db \<Rightarrow> 'k native_db result" where
  "apply_dcd_unlinkauth auths unl db =
     bind_res (require_authorization (unl_account unl) auths) (\<lambda>_.
     case find_by by_action_name (unl_account unl, unl_code unl, unl_type unl) (permission_link_index (authz db)) of
       None \<Rightarrow> Inl Action_validate_exception
     | Some (i, _) \<Rightarrow>
         Inr (db\<lparr>authz := (authz db)\<lparr>permission_link_index := remove_row i (permission_link_index (authz db))\<rparr>\<rparr>))"

definition apply_dcd_setfee :: "permission_level list \<Rightarrow> 64 word \<Rightarrow> 64 word \<Rightarrow> asset \<Rightarrow> 'k native_db \<Rightarrow> 'k native_db result" where
  "apply_dcd_setfee auths account act fee db =
     bind_res (require_authorization system_account_name auths) (\<lambda>_.
     bind_res (case find_by by_fee_action (account, act) (fee_index db) of
                 None \<Rightarrow> create [by_fee_action] (\<lambda>_. \<lparr>fee_account = account, fee_message_type = act, fee_asset = fee\<rparr>) (fee_index db)
               | Some (i, _) \<Rightarrow> modify_row [by_fee_action] i (\<lambda>f. f\<lparr>fee_asset := fee\<rparr>) (fee_index db)) (\<lambda>fs.
     Inr (db\<lparr>fee_index := fs\<rparr>)))"

section \<open>Genesis\<close>

definition create_native_account ::
  "'k native_env \<Rightarrow> int \<Rightarrow> 8 word list \<Rightarrow> 64 word \<Rightarrow> 'k authority \<Rightarrow> 'k authority \<Rightarrow> bool \<Rightarrow> 'k native_db \<Rightarrow> 'k native_db result" where
  "create_native_account env initial_timestamp dcd_abi_bin n ow ac privileged db =
     bind_res (create [acc_name] (\<lambda>_. (new_account_object n initial_timestamp)
                 \<lparr>acc_abi := (if n = system_account_name then dcd_abi_bin else [])\<rparr>) (account_index db)) (\<lambda>as.
     bind_res (create [md_name] (\<lambda>_. set_privileged privileged (new_metadata n)) (account_metadata_index db)) (\<lambda>ms.
     bind_res (create_permission (auth_settings env) n owner_name 0 ow initial_timestamp (authz db)) (\<lambda>(owner_id, az1).
     bind_res (create_permission (auth_settings env) n active_name owner_id ac initial_timestamp az1) (\<lambda>(_, az2).
     Inr (db\<lparr>account_index := as, account_metadata_index := ms, authz := az2\<rparr>)))))"

definition null_account_name :: "64 word" where "null_account_name = name_literal ''dcd.null''"
definition producers_account_name :: "64 word" where "producers_account_name = name_literal ''dcd.prods''"
definition majority_producers_permission_name :: "64 word" where "majority_producers_permission_name = name_literal ''prod.major''"
definition minority_producers_permission_name :: "64 word" where "minority_producers_permission_name = name_literal ''prod.minor''"

lemma genesis_name_values [code]:
  "null_account_name = 0x4a1209ea31000000"
  "producers_account_name = 0x4a120ade89c00000"
  "majority_producers_permission_name = 0xade89048cfa5c000"
  "minority_producers_permission_name = 0xade89049d3a5c000"
  by (simp_all add: null_account_name_def producers_account_name_def majority_producers_permission_name_def minority_producers_permission_name_def
    name_literal_def string_to_uint64_t_def char_to_symbol_def in_range_def)

definition initialize_accounts :: "'k native_env \<Rightarrow> int \<Rightarrow> 8 word list \<Rightarrow> 'k \<Rightarrow> 'k native_db \<Rightarrow> 'k native_db result" where
  "initialize_accounts env ts dcd_abi_bin initial_key db =
     (let aenv = auth_settings env;
          system_auth = authority_of_key initial_key 0;
          no_authority = \<lparr>threshold = 1, keys = [], accounts = [], waits = []\<rparr>;
          active_producers_authority = \<lparr>threshold = 1, keys = [],
            accounts = [\<lparr>plw_permission = \<lparr>actor = system_account_name, permission = active_name\<rparr>, plw_weight = 1\<rparr>], waits = []\<rparr> in
      bind_res (initialize_database (authz db)) (\<lambda>az0.
      bind_res (create_native_account env ts dcd_abi_bin system_account_name system_auth system_auth True (db\<lparr>authz := az0\<rparr>)) (\<lambda>db1.
      bind_res (create_native_account env ts dcd_abi_bin null_account_name no_authority no_authority False db1) (\<lambda>db2.
      bind_res (create_native_account env ts dcd_abi_bin producers_account_name no_authority active_producers_authority False db2) (\<lambda>db3.
      bind_res (get_permission \<lparr>actor = producers_account_name, permission = active_name\<rparr> (authz db3)) (\<lambda>active_permission.
      bind_res (create_permission aenv producers_account_name majority_producers_permission_name (fst active_permission)
                  active_producers_authority ts (authz db3)) (\<lambda>(major, az4).
      bind_res (create_permission aenv producers_account_name minority_producers_permission_name major
                  active_producers_authority ts az4) (\<lambda>(_, az5).
      Inr (db3\<lparr>authz := az5\<rparr>)))))))))"

section \<open>One step of the native contract\<close>

datatype 'k native_action =
    Newaccount "'k newaccount"
  | Setcode setcode
  | Setabi "64 word" "8 word list"
  | Updateauth "'k updateauth"
  | Deleteauth deleteauth
  | Linkauth linkauth
  | Unlinkauth unlinkauth
  | Setfee "64 word" "64 word" asset

fun apply_native :: "('k :: linorder) native_env \<Rightarrow> permission_level list \<Rightarrow> 'k native_action \<Rightarrow> 'k native_db \<Rightarrow> 'k native_db result" where
  "apply_native env auths (Newaccount a) db = apply_dcd_newaccount env auths a db"
| "apply_native env auths (Setcode a) db = apply_dcd_setcode env auths a db"
| "apply_native env auths (Setabi n abi) db = apply_dcd_setabi auths n abi db"
| "apply_native env auths (Updateauth a) db = apply_dcd_updateauth env auths a db"
| "apply_native env auths (Deleteauth a) db = apply_dcd_deleteauth auths a db"
| "apply_native env auths (Linkauth a) db = apply_dcd_linkauth env auths a db"
| "apply_native env auths (Unlinkauth a) db = apply_dcd_unlinkauth auths a db"
| "apply_native env auths (Setfee n t f) db = apply_dcd_setfee auths n t f db"

end
