(* ===== verification/Native_Invariant.thy ===== *)
theory Native_Invariant
  imports Native_Contract
begin

text \<open>
  The invariant of the native tables and its preservation by every native action, and the links of
  actions to permissions.
\<close>

section \<open>The invariant\<close>

definition perm_names :: "'k auth_db \<Rightarrow> (64 word \<times> 64 word) set" where
  "perm_names az = set (map (\<lambda>r. by_owner (snd r)) (rows (permission_index az)))"

definition account_names :: "'k native_db \<Rightarrow> 64 word set" where
  "account_names db = set (map (\<lambda>r. acc_name (snd r)) (rows (account_index db)))"

definition metadata_names :: "'k native_db \<Rightarrow> 64 word set" where
  "metadata_names db = set (map (\<lambda>r. md_name (snd r)) (rows (account_metadata_index db)))"

definition native_ok :: "'k native_db \<Rightarrow> bool" where
  "native_ok db \<longleftrightarrow> auth_ok (authz db) \<and> table_ok [acc_name] (account_index db) \<and> table_ok [md_name] (account_metadata_index db) \<and>
     table_ok [by_code_hash] (code_index db) \<and> table_ok [by_fee_action] (fee_index db) \<and>
     metadata_names db = account_names db \<and> 0 \<notin> account_names db \<and>
     (\<forall>n \<in> account_names db. (n, owner_name) \<in> perm_names (authz db) \<and> (n, active_name) \<in> perm_names (authz db))"

definition links_resolve :: "'k auth_db \<Rightarrow> bool" where
  "links_resolve az \<longleftrightarrow> (\<forall>(i, l) \<in> set (rows (permission_link_index az)).
     required_permission l \<noteq> 0 \<and> (required_permission l = dcd_any_name \<or> (link_account l, required_permission l) \<in> perm_names az))"

lemma native_okD:
  assumes "native_ok db"
  shows "auth_ok (authz db)" "table_ok [acc_name] (account_index db)" "table_ok [md_name] (account_metadata_index db)"
    "table_ok [by_code_hash] (code_index db)" "table_ok [by_fee_action] (fee_index db)" "metadata_names db = account_names db"
    "0 \<notin> account_names db" "n \<in> account_names db \<Longrightarrow> (n, owner_name) \<in> perm_names (authz db)"
    "n \<in> account_names db \<Longrightarrow> (n, active_name) \<in> perm_names (authz db)"
  using assms by (simp_all add: native_ok_def)

lemma names_distinct [simp]: "active_name \<noteq> owner_name" "owner_name \<noteq> active_name" "owner_name \<noteq> 0" "active_name \<noteq> 0"
  "dcd_any_name \<noteq> active_name" "active_name \<noteq> dcd_any_name" "dcd_any_name \<noteq> 0"
  by (simp_all add: name_values)

lemma find_account_iff: "find_account n db \<noteq> None \<longleftrightarrow> n \<in> account_names db"
  by (auto simp: find_account_def find_by_None account_names_def) force+

lemma get_by_name: "get_by acc_name n (account_index db) = Inr x \<Longrightarrow> n \<in> account_names db"
  using find_by_Some[of acc_name n "account_index db"]
  by (auto simp: get_by_def account_names_def image_iff split: option.splits) (metis prod.collapse snd_conv)

lemma create_permission_names:
  assumes "auth_ok az" "create_permission env a n par au tm az = Inr (i, az')" "a \<noteq> 0" "n \<noteq> 0" "par = 0 \<longleftrightarrow> n = owner_name"
    "find_row par (permission_index az) = Some q" "par \<noteq> 0 \<longrightarrow> owner q = a"
  shows "auth_ok az'" "perm_names az' = insert (a, n) (perm_names az)" "permission_link_index az' = permission_link_index az"
    "\<exists>p. find_row i (permission_index az') = Some p \<and> owner p = a" "0 < i"
proof -
  note c = create_permission_ok[OF assms]
  show "auth_ok az'" "permission_link_index az' = permission_link_index az" "0 < i"
    by (rule c)+
  obtain p where p: "owner p = a" "perm_name p = n" "rows (permission_index az') = rows (permission_index az) @ [(i, p)]"
    "find_row i (permission_index az') = Some p"
    using c(5) by blast
  then show "perm_names az' = insert (a, n) (perm_names az)" "\<exists>p. find_row i (permission_index az') = Some p \<and> owner p = a"
    by (auto simp: perm_names_def by_owner_def)
qed

text \<open>The two permissions of a new account.\<close>

lemma create_account_permissions:
  assumes ok: "auth_ok az" and n: "n \<noteq> 0"
    and c1: "create_permission env n owner_name 0 ow tm az = Inr (i, az1)"
    and c2: "create_permission env n active_name i ac tm az1 = Inr (j, az2)"
  shows "auth_ok az2" "perm_names az2 = insert (n, active_name) (insert (n, owner_name) (perm_names az))"
    "permission_link_index az2 = permission_link_index az"
proof -
  note a = create_permission_names[OF ok c1 n names_distinct(3) _ auth_okD(6)[OF ok], simplified]
  obtain p where p: "find_row i (permission_index az1) = Some p" "owner p = n"
    using a(4) by blast
  note b = create_permission_names[OF a(1) c2 n names_distinct(4) _ p(1)]
  show "auth_ok az2" "perm_names az2 = insert (n, active_name) (insert (n, owner_name) (perm_names az))"
    "permission_link_index az2 = permission_link_index az"
    using b a(2,3,5) p(2) by simp_all
qed


section \<open>Every handler keeps the invariant\<close>

text \<open>Steps that change neither accounts nor permissions.\<close>

lemma native_ok_authz:
  assumes "native_ok db" "auth_ok az" "perm_names (authz db) \<subseteq> perm_names az"
  shows "native_ok (db\<lparr>authz := az\<rparr>)"
  using assms by (auto simp: native_ok_def account_names_def metadata_names_def)

lemma names_column:
  assumes "map (\<lambda>r. (fst r, g (snd r))) xs = map (\<lambda>r. (fst r, g (snd r))) ys"
  shows "set (map (\<lambda>r. g (snd r)) xs) = set (map (\<lambda>r. g (snd r)) ys)"
  using arg_cong[OF assms, of "\<lambda>zs. set (map snd zs)"] by (simp add: image_image)

lemma native_ok_newaccount:
  assumes ok: "native_ok db" and a: "apply_dcd_newaccount env auths act db = Inr db'"
  shows "native_ok db'" "permission_link_index (authz db') = permission_link_index (authz db)" "perm_names (authz db) \<subseteq> perm_names (authz db')"
proof -
  note d = native_okD[OF ok]
  let ?n = "na_name act"
  obtain as ms i az1 j az2 where n: "?n \<noteq> 0"
    and as: "create [acc_name] (\<lambda>_. new_account_object ?n (pending_block_time (auth_settings env))) (account_index db) = Inr as"
    and ms: "create [md_name] (\<lambda>_. new_metadata ?n) (account_metadata_index db) = Inr ms"
    and c1: "create_permission (auth_settings env) ?n owner_name 0 (na_owner act) 0 (authz db) = Inr (i, az1)"
    and c2: "create_permission (auth_settings env) ?n active_name i (na_active act) 0 az1 = Inr (j, az2)"
    and db': "db' = db\<lparr>account_index := as, account_metadata_index := ms, authz := az2\<rparr>"
    using a by (auto simp: apply_dcd_newaccount_def Let_def result_simps)
  note p = create_account_permissions[OF d(1) n c1 c2]
  show "permission_link_index (authz db') = permission_link_index (authz db)" "perm_names (authz db) \<subseteq> perm_names (authz db')"
    using p by (auto simp: db')
  have "account_names db' = insert ?n (account_names db)" "metadata_names db' = insert ?n (metadata_names db)"
    using as ms by (auto simp: db' create_Inr account_names_def metadata_names_def new_account_object_def new_metadata_def)
  then show "native_ok db'"
    using d p n create_table_ok(1)[OF d(2) as] create_table_ok(1)[OF d(3) ms] by (auto simp: native_ok_def db')
qed

lemma native_ok_setabi:
  assumes ok: "native_ok db" and a: "apply_dcd_setabi auths n abi db = Inr db'"
  shows "native_ok db'" "authz db' = authz db"
proof -
  note d = native_okD[OF ok]
  obtain i as j ms where as: "modify_row [acc_name] i (\<lambda>a. a\<lparr>acc_abi := abi\<rparr>) (account_index db) = Inr as"
    and ms: "modify_row [md_name] j (\<lambda>a. a\<lparr>abi_sequence := abi_sequence a + 1\<rparr>) (account_metadata_index db) = Inr ms"
    and db': "db' = db\<lparr>account_index := as, account_metadata_index := ms\<rparr>"
    using a by (auto simp: apply_dcd_setabi_def result_simps)
  show "authz db' = authz db" by (simp add: db')
  have "account_names db' = account_names db" "metadata_names db' = metadata_names db"
    using names_column[OF modify_row_column[OF as d(2), of acc_name]] names_column[OF modify_row_column[OF ms d(3), of md_name]]
    by (simp_all add: db' account_names_def metadata_names_def)
  then show "native_ok db'"
    using d modify_row_table_ok(1)[OF d(2) as] modify_row_table_ok(1)[OF d(3) ms] by (auto simp: native_ok_def db')
qed

lemma release_code_ok: "table_ok [by_code_hash] t \<Longrightarrow> release_code md h t = Inr t' \<Longrightarrow> table_ok [by_code_hash] t'"
  by (auto simp: release_code_def result_simps dest: modify_row_table_ok(1) intro: remove_row_table_ok(1) split: if_splits)

lemma acquire_code_ok: "table_ok [by_code_hash] t \<Longrightarrow> acquire_code env act h t = Inr t' \<Longrightarrow> table_ok [by_code_hash] t'"
  by (auto simp: acquire_code_def dest: modify_row_table_ok(1) create_table_ok(1) split: if_splits option.splits)

lemma setcode_Inr:
  assumes "apply_dcd_setcode env auths act db = Inr db'"
  shows "\<exists>i md h codes1 codes2 ms. h = (if sc_code act = [] then 0 else code_digest env (sc_code act)) \<and>
    sc_vmtype act = 0 \<and> sc_vmversion act = 0 \<and>
    find_by md_name (sc_account act) (account_metadata_index db) = Some (i, md) \<and> (sc_code act \<noteq> [] \<or> md_code_hash md \<noteq> 0) \<and>
    release_code md h (code_index db) = Inr codes1 \<and> acquire_code env act h codes1 = Inr codes2 \<and>
    modify_row [md_name] i (\<lambda>a. a\<lparr>code_sequence := code_sequence a + 1, md_code_hash := h, md_vm_type := 0, md_vm_version := 0,
      last_code_update := pending_block_time (auth_settings env)\<rparr>) (account_metadata_index db) = Inr ms \<and>
    db' = db\<lparr>code_index := codes2, account_metadata_index := ms\<rparr>"
  using assms by (auto simp: apply_dcd_setcode_def get_by_def Let_def result_simps split: option.splits prod.splits)

lemma native_ok_setcode:
  assumes ok: "native_ok db" and a: "apply_dcd_setcode env auths act db = Inr db'"
  shows "native_ok db'" "authz db' = authz db"
proof -
  note d = native_okD[OF ok]
  obtain i md h codes1 codes2 ms where s: "release_code md h (code_index db) = Inr codes1" "acquire_code env act h codes1 = Inr codes2"
    and ms: "modify_row [md_name] i (\<lambda>a. a\<lparr>code_sequence := code_sequence a + 1, md_code_hash := h, md_vm_type := 0, md_vm_version := 0,
      last_code_update := pending_block_time (auth_settings env)\<rparr>) (account_metadata_index db) = Inr ms"
    and db': "db' = db\<lparr>code_index := codes2, account_metadata_index := ms\<rparr>"
    using setcode_Inr[OF a] by blast
  show "authz db' = authz db" by (simp add: db')
  have "account_names db' = account_names db" "metadata_names db' = metadata_names db"
    using names_column[OF modify_row_column[OF ms d(3), of md_name]] by (simp_all add: db' account_names_def metadata_names_def)
  then show "native_ok db'"
    using d modify_row_table_ok(1)[OF d(3) ms] acquire_code_ok[OF release_code_ok[OF d(4) s(1)] s(2)] by (auto simp: native_ok_def db')
qed

lemma native_ok_setfee:
  assumes ok: "native_ok db" and a: "apply_dcd_setfee auths n t f db = Inr db'"
  shows "native_ok db'" "authz db' = authz db"
proof -
  obtain fs where db': "db' = db\<lparr>fee_index := fs\<rparr>" and "table_ok [by_fee_action] fs"
    using a native_okD(5)[OF ok] by (auto simp: apply_dcd_setfee_def result_simps dest: modify_row_table_ok(1) create_table_ok(1) split: option.splits)
  then show "native_ok db'" "authz db' = authz db"
    using ok by (simp_all add: native_ok_def account_names_def metadata_names_def)
qed

lemma find_by_owner_names: "find_by by_owner k (permission_index az) \<noteq> None \<longleftrightarrow> k \<in> perm_names az"
  by (auto simp: find_by_None perm_names_def) force+

lemma updateauth_Inr:
  assumes "apply_dcd_updateauth env auths upd db = Inr db'"
  obtains (modified) i p az where "find_by by_owner (upd_account upd, upd_permission upd) (permission_index (authz db)) = Some (i, p)"
      "modify_permission (auth_settings env) i (upd_auth upd) (authz db) = Inr az" "db' = db\<lparr>authz := az\<rparr>"
      "upd_account upd \<noteq> 0" "upd_permission upd \<noteq> 0"
  | (created) parent_id i az where "upd_account upd \<noteq> 0" "upd_permission upd \<noteq> 0"
      "create_permission (auth_settings env) (upd_account upd) (upd_permission upd) parent_id (upd_auth upd) 0 (authz db) = Inr (i, az)"
      "db' = db\<lparr>authz := az\<rparr>"
      "upd_permission upd = owner_name \<and> parent_id = 0 \<or>
       upd_permission upd \<noteq> owner_name \<and> (\<exists>q. get_permission \<lparr>actor = upd_account upd, permission = upd_parent upd\<rparr> (authz db) = Inr (parent_id, q))"
proof -
  obtain found parent_id where f: "upd_account upd \<noteq> 0" "upd_permission upd \<noteq> 0"
      "found = find_by by_owner (upd_account upd, upd_permission upd) (permission_index (authz db))"
    and par: "upd_permission upd = owner_name \<and> parent_id = 0 \<or>
       upd_permission upd \<noteq> owner_name \<and> (\<exists>q. get_permission \<lparr>actor = upd_account upd, permission = upd_parent upd\<rparr> (authz db) = Inr (parent_id, q))"
    and c: "(case found of
        Some (i, p) \<Rightarrow>
          bind_res (assert_res (parent_id = parent p) Action_validate_exception) (\<lambda>_.
          bind_res (modify_permission (auth_settings env) i (upd_auth upd) (authz db)) (\<lambda>az. Inr (db\<lparr>authz := az\<rparr>)))
      | None \<Rightarrow>
          bind_res (create_permission (auth_settings env) (upd_account upd) (upd_permission upd) parent_id (upd_auth upd) 0 (authz db)) (\<lambda>(_, az).
          Inr (db\<lparr>authz := az\<rparr>))) = Inr db'"
    using assms by (auto simp: apply_dcd_updateauth_def find_permission_def Let_def result_simps split: if_splits)
  show thesis
  proof (cases found)
    case None
    then show thesis
      using c f par created by (auto simp: result_simps)
  next
    case (Some x)
    then show thesis
      using c f modified by (cases x) (auto simp: result_simps)
  qed
qed

lemma native_ok_updateauth:
  assumes ok: "native_ok db" and a: "apply_dcd_updateauth env auths upd db = Inr db'"
  shows "native_ok db'" "permission_link_index (authz db') = permission_link_index (authz db)" "perm_names (authz db) \<subseteq> perm_names (authz db')"
proof -
  note d = native_okD[OF ok] and az = auth_okD[OF native_okD(1)[OF ok]]
  have "native_ok db' \<and> permission_link_index (authz db') = permission_link_index (authz db) \<and> perm_names (authz db) \<subseteq> perm_names (authz db')"
    using a
  proof (cases rule: updateauth_Inr)
    case (modified i p az')
    have "get_permission \<lparr>actor = upd_account upd, permission = upd_permission upd\<rparr> (authz db) = Inr (i, p)"
      using modified by (simp add: get_permission_Inr)
    note pos = get_permission_row(1)[OF az(1) this]
    note m = modify_permission_ok[OF d(1) pos modified(2)]
    then have "perm_names az' = perm_names (authz db)"
      by (simp add: perm_names_def)
    then show ?thesis
      using native_ok_authz[OF ok m(1)] m(2) by (simp add: modified(3))
  next
    case (created parent_id i az')
    have "(parent_id = 0 \<longleftrightarrow> upd_permission upd = owner_name) \<and>
       (\<exists>q. find_row parent_id (permission_index (authz db)) = Some q \<and> (parent_id \<noteq> 0 \<longrightarrow> owner q = upd_account upd))"
      using created(5)
    proof
      assume "upd_permission upd = owner_name \<and> parent_id = 0"
      then show ?thesis using az(6) by simp
    next
      assume p: "upd_permission upd \<noteq> owner_name \<and> (\<exists>q. get_permission \<lparr>actor = upd_account upd, permission = upd_parent upd\<rparr> (authz db) = Inr (parent_id, q))"
      then obtain q where "get_permission \<lparr>actor = upd_account upd, permission = upd_parent upd\<rparr> (authz db) = Inr (parent_id, q)" by blast
      from get_permission_row[OF az(1) this] p show ?thesis by simp
    qed
    then obtain q where q: "parent_id = 0 \<longleftrightarrow> upd_permission upd = owner_name" "find_row parent_id (permission_index (authz db)) = Some q"
      "parent_id \<noteq> 0 \<longrightarrow> owner q = upd_account upd" by blast
    note c = create_permission_names[OF d(1) created(3,1,2) q]
    show ?thesis
      using native_ok_authz[OF ok c(1)] c(2,3) by (auto simp: created(4))
  qed
  then show "native_ok db'" "permission_link_index (authz db') = permission_link_index (authz db)" "perm_names (authz db) \<subseteq> perm_names (authz db')"
    by blast+
qed

lemma deleteauth_names:
  assumes ok: "native_ok db" and a: "apply_dcd_deleteauth auths del db = Inr db'"
  shows "auth_ok (authz db')" "db' = db\<lparr>authz := authz db'\<rparr>" "permission_link_index (authz db') = permission_link_index (authz db)"
    "perm_names (authz db) - {(del_account del, del_permission del)} \<subseteq> perm_names (authz db')"
    "del_permission del \<noteq> active_name" "del_permission del \<noteq> owner_name"
    "\<forall>(i, l) \<in> set (rows (permission_link_index (authz db))). \<not> (link_account l = del_account del \<and> required_permission l = del_permission del)"
proof -
  note d = native_okD[OF ok] and az = auth_okD[OF native_okD(1)[OF ok]]
  obtain i p az' where g: "get_permission \<lparr>actor = del_account del, permission = del_permission del\<rparr> (authz db) = Inr (i, p)"
    and r: "remove_permission (i, p) (authz db) = Inr az'" and db': "db' = db\<lparr>authz := az'\<rparr>"
    and rest: "del_permission del \<noteq> active_name" "del_permission del \<noteq> owner_name"
    "list_all (\<lambda>l. link_account (snd l) \<noteq> del_account del \<or> required_permission (snd l) \<noteq> del_permission del) (rows (permission_link_index (authz db)))"
    using a by (auto simp: apply_dcd_deleteauth_def result_simps)
  note gp = get_permission_row[OF az(1) g]
  note rm = remove_permission_ok[OF d(1) gp(2,1) r]
  show "auth_ok (authz db')" "db' = db\<lparr>authz := authz db'\<rparr>" "permission_link_index (authz db') = permission_link_index (authz db)"
    "del_permission del \<noteq> active_name" "del_permission del \<noteq> owner_name"
    using rm rest by (simp_all add: db')
  show "\<forall>(i, l) \<in> set (rows (permission_link_index (authz db))). \<not> (link_account l = del_account del \<and> required_permission l = del_permission del)"
    using rest(3) by (auto simp: list_all_iff)
  show "perm_names (authz db) - {(del_account del, del_permission del)} \<subseteq> perm_names (authz db')"
  proof
    fix k assume k: "k \<in> perm_names (authz db) - {(del_account del, del_permission del)}"
    then obtain j q where q: "(j, q) \<in> set (rows (permission_index (authz db)))" "k = by_owner q"
      by (auto simp: perm_names_def)
    have "q \<noteq> p"
      using k q gp by (auto simp: by_owner_def)
    then have "j \<noteq> i"
      using q(1) gp(2) find_row_mem[OF az(3), of j q] by auto
    then show "k \<in> perm_names (authz db')"
      using q rm(3) by (force simp: perm_names_def db')
  qed
qed

lemma native_ok_deleteauth:
  assumes ok: "native_ok db" and a: "apply_dcd_deleteauth auths del db = Inr db'"
  shows "native_ok db'"
proof -
  note d = native_okD[OF ok] and del = deleteauth_names[OF ok a]
  obtain az' where az': "db' = db\<lparr>authz := az'\<rparr>" "auth_ok az'"
    "perm_names (authz db) - {(del_account del, del_permission del)} \<subseteq> perm_names az'"
    using del(2,1,4) by (rule that)
  have "(n, owner_name) \<in> perm_names az' \<and> (n, active_name) \<in> perm_names az'" if "n \<in> account_names db" for n
    using d(8,9)[OF that] del(5,6) by (intro conjI subsetD[OF az'(3)]) auto
  then show ?thesis
    using d az'(1,2) by (simp add: native_ok_def account_names_def metadata_names_def)
qed

lemma linkauth_Inr:
  assumes "apply_dcd_linkauth env auths req db = Inr db'"
  shows "\<exists>ls. db' = db\<lparr>authz := (authz db)\<lparr>permission_link_index := ls\<rparr>\<rparr> \<and> lnk_requirement req \<noteq> 0 \<and>
     (only_link_to_existing_permission env \<longrightarrow> lnk_requirement req = dcd_any_name \<or> (lnk_account req, lnk_requirement req) \<in> perm_names (authz db)) \<and>
     (case find_by by_action_name (lnk_account req, lnk_code req, lnk_type req) (permission_link_index (authz db)) of
        Some (i, l) \<Rightarrow> modify_row [by_action_name] i (\<lambda>l. l\<lparr>required_permission := lnk_requirement req\<rparr>) (permission_link_index (authz db)) = Inr ls
      | None \<Rightarrow> create [by_action_name] (\<lambda>_. \<lparr>link_account = lnk_account req, link_code = lnk_code req,
                     message_type = lnk_type req, required_permission = lnk_requirement req\<rparr>) (permission_link_index (authz db)) = Inr ls)"
  using assms by (auto simp: apply_dcd_linkauth_def Let_def result_simps find_by_owner_names[symmetric] split: option.splits if_splits)

lemma native_ok_linkauth:
  assumes ok: "native_ok db" and a: "apply_dcd_linkauth env auths req db = Inr db'"
  shows "native_ok db'" "perm_names (authz db') = perm_names (authz db)"
proof -
  note d = native_okD[OF ok] and az = auth_okD[OF native_okD(1)[OF ok]]
  obtain ls where db': "db' = db\<lparr>authz := (authz db)\<lparr>permission_link_index := ls\<rparr>\<rparr>" and "table_ok [by_action_name] ls"
    using linkauth_Inr[OF a] az(5) by (auto dest: modify_row_table_ok(1) create_table_ok(1) split: option.splits)
  then have "auth_ok ((authz db)\<lparr>permission_link_index := ls\<rparr>)"
    using d(1) by (simp add: auth_ok_def usages_ok_def)
  moreover show names: "perm_names (authz db') = perm_names (authz db)"
    by (simp add: db' perm_names_def)
  ultimately show "native_ok db'"
    using native_ok_authz[OF ok] by (simp add: db')
qed

lemma native_ok_unlinkauth:
  assumes ok: "native_ok db" and a: "apply_dcd_unlinkauth auths unl db = Inr db'"
  shows "native_ok db'" "perm_names (authz db') = perm_names (authz db)"
    "set (rows (permission_link_index (authz db'))) \<subseteq> set (rows (permission_link_index (authz db)))"
proof -
  note d = native_okD[OF ok] and az = auth_okD[OF native_okD(1)[OF ok]]
  obtain i where db': "db' = db\<lparr>authz := (authz db)\<lparr>permission_link_index := remove_row i (permission_link_index (authz db))\<rparr>\<rparr>"
    using a by (auto simp: apply_dcd_unlinkauth_def result_simps split: option.splits)
  then have "auth_ok ((authz db)\<lparr>permission_link_index := remove_row i (permission_link_index (authz db))\<rparr>)"
    using d(1) remove_row_table_ok(1)[OF az(5)] by (simp add: auth_ok_def usages_ok_def)
  moreover show names: "perm_names (authz db') = perm_names (authz db)"
    by (simp add: db' perm_names_def)
  ultimately show "native_ok db'"
    using native_ok_authz[OF ok] by (simp add: db')
  show "set (rows (permission_link_index (authz db'))) \<subseteq> set (rows (permission_link_index (authz db)))"
    by (auto simp: db' remove_row_def)
qed

lemma native_ok_step:
  assumes "native_ok db" "apply_native env auths act db = Inr db'"
  shows "native_ok db'"
proof (cases act)
  case (Newaccount x1)
  then show ?thesis using assms native_ok_newaccount(1) by simp blast
next
  case (Setcode x2)
  then show ?thesis using assms native_ok_setcode(1) by simp blast
next
  case (Setabi x31 x32)
  then show ?thesis using assms native_ok_setabi(1) by simp blast
next
  case (Updateauth x4)
  then show ?thesis using assms native_ok_updateauth(1) by simp blast
next
  case (Deleteauth x5)
  then show ?thesis using assms native_ok_deleteauth by simp blast
next
  case (Linkauth x6)
  then show ?thesis using assms native_ok_linkauth(1) by simp blast
next
  case (Unlinkauth x7)
  then show ?thesis using assms native_ok_unlinkauth(1) by simp blast
next
  case (Setfee x81 x82 x83)
  then show ?thesis using assms native_ok_setfee(1) by simp blast
qed

section \<open>Links\<close>

lemma links_resolve_mono:
  assumes "links_resolve az" "set (rows (permission_link_index az')) \<subseteq> set (rows (permission_link_index az))" "perm_names az \<subseteq> perm_names az'"
  shows "links_resolve az'"
  using assms unfolding links_resolve_def by fast

lemma links_resolve_deleteauth:
  assumes ok: "native_ok db" "links_resolve (authz db)" and a: "apply_dcd_deleteauth auths del db = Inr db'"
  shows "links_resolve (authz db')"
  unfolding links_resolve_def
proof clarify
  fix i l assume l: "(i, l) \<in> set (rows (permission_link_index (authz db')))"
  note del = deleteauth_names[OF ok(1) a]
  have "(i, l) \<in> set (rows (permission_link_index (authz db)))"
    using l del(3) by simp
  then have "required_permission l \<noteq> 0 \<and> (required_permission l = dcd_any_name \<or> (link_account l, required_permission l) \<in> perm_names (authz db))"
    "\<not> (link_account l = del_account del \<and> required_permission l = del_permission del)"
    using ok(2) del(7) unfolding links_resolve_def by fast+
  then show "required_permission l \<noteq> 0 \<and> (required_permission l = dcd_any_name \<or> (link_account l, required_permission l) \<in> perm_names (authz db'))"
    using del(4) by auto
qed

lemma links_resolve_linkauth:
  assumes ok: "native_ok db" "links_resolve (authz db)" and a: "apply_dcd_linkauth env auths req db = Inr db'"
    and feature: "only_link_to_existing_permission env"
  shows "links_resolve (authz db')"
proof -
  have t: "table_ok [by_action_name] (permission_link_index (authz db))"
    using auth_okD(5)[OF native_okD(1)[OF ok(1)]] .
  define req_ok where "req_ok l \<longleftrightarrow> required_permission l \<noteq> 0 \<and> (required_permission l = dcd_any_name \<or> (link_account l, required_permission l) \<in> perm_names (authz db))" for l :: permission_link_object
  obtain ls where db': "db' = db\<lparr>authz := (authz db)\<lparr>permission_link_index := ls\<rparr>\<rparr>"
    and r: "lnk_requirement req \<noteq> 0" "lnk_requirement req = dcd_any_name \<or> (lnk_account req, lnk_requirement req) \<in> perm_names (authz db)"
    and c: "case find_by by_action_name (lnk_account req, lnk_code req, lnk_type req) (permission_link_index (authz db)) of
        Some (i, l) \<Rightarrow> modify_row [by_action_name] i (\<lambda>l. l\<lparr>required_permission := lnk_requirement req\<rparr>) (permission_link_index (authz db)) = Inr ls
      | None \<Rightarrow> create [by_action_name] (\<lambda>_. \<lparr>link_account = lnk_account req, link_code = lnk_code req,
                     message_type = lnk_type req, required_permission = lnk_requirement req\<rparr>) (permission_link_index (authz db)) = Inr ls"
    using linkauth_Inr[OF a] feature by blast
  have old: "req_ok l" if "(i, l) \<in> set (rows (permission_link_index (authz db)))" for i l
    using that ok(2) unfolding links_resolve_def req_ok_def by fast
  have "req_ok l" if l: "(i, l) \<in> set (rows ls)" for i l
  proof (cases "find_by by_action_name (lnk_account req, lnk_code req, lnk_type req) (permission_link_index (authz db))")
    case None
    then show ?thesis
      using c l old r by (auto simp: create_Inr req_ok_def)
  next
    case (Some x)
    obtain j k where x: "x = (j, k)" by fastforce
    have k: "find_row j (permission_link_index (authz db)) = Some k" "by_action_name k = (lnk_account req, lnk_code req, lnk_type req)"
      using find_by_row[OF t, of by_action_name _ j k] Some x by simp_all
    have "l = k\<lparr>required_permission := lnk_requirement req\<rparr> \<or> (i, l) \<in> set (rows (permission_link_index (authz db)))"
      using c l k(1) Some x by (auto simp: modify_row_def split: if_splits)
    then show ?thesis
      using old r k(2) by (auto simp: req_ok_def by_action_name_def)
  qed
  then show ?thesis
    by (auto simp: links_resolve_def db' perm_names_def req_ok_def)
qed

lemma links_resolve_step:
  assumes "native_ok db" "links_resolve (authz db)" "only_link_to_existing_permission env" "apply_native env auths act db = Inr db'"
  shows "links_resolve (authz db')"
proof (cases act)
  case (Newaccount x1)
  then show ?thesis
    using assms native_ok_newaccount(2,3)[OF assms(1), of env auths x1 db'] links_resolve_mono[OF assms(2), of "authz db'"] by simp
next
  case (Setcode x2)
  then show ?thesis using assms native_ok_setcode(2)[OF assms(1), of env auths x2 db'] by simp
next
  case (Setabi x31 x32)
  then show ?thesis using assms native_ok_setabi(2)[OF assms(1), of auths x31 x32 db'] by simp
next
  case (Updateauth x4)
  then show ?thesis
    using assms native_ok_updateauth(2,3)[OF assms(1), of env auths x4 db'] links_resolve_mono[OF assms(2), of "authz db'"] by simp
next
  case (Deleteauth x5)
  then show ?thesis using assms links_resolve_deleteauth[OF assms(1,2)] by simp
next
  case (Linkauth x6)
  then show ?thesis using assms links_resolve_linkauth[OF assms(1,2) _ assms(3)] by simp
next
  case (Unlinkauth x7)
  then show ?thesis
    using assms native_ok_unlinkauth(2,3)[OF assms(1), of auths x7 db'] links_resolve_mono[OF assms(2), of "authz db'"] by simp
next
  case (Setfee x81 x82 x83)
  then show ?thesis using assms native_ok_setfee(2)[OF assms(1), of auths x81 x82 x83 db'] by simp
qed

section \<open>Reachable states\<close>

text \<open>
  The states that native actions reach from genesis. The settings may change from step to step; from the
  activation of \<open>only_link_to_existing_permission\<close> on, which the relation fixes by its first
  argument, all steps have it.
\<close>

inductive native_reachable :: "bool \<Rightarrow> ('k :: linorder) native_db \<Rightarrow> bool" for feature where
  genesis: "initialize_accounts env ts abi key empty_native_db = Inr db \<Longrightarrow> native_reachable feature db"
| step: "native_reachable feature db \<Longrightarrow> feature \<longrightarrow> only_link_to_existing_permission env \<Longrightarrow>
    apply_native env auths act db = Inr db' \<Longrightarrow> native_reachable feature db'"

lemma genesis_names_distinct [simp]: "system_account_name \<noteq> 0" "null_account_name \<noteq> 0" "producers_account_name \<noteq> 0"
  "majority_producers_permission_name \<noteq> 0" "minority_producers_permission_name \<noteq> 0"
  "majority_producers_permission_name \<noteq> owner_name" "minority_producers_permission_name \<noteq> owner_name"
  by (simp_all add: name_values genesis_name_values)

lemma create_native_account_ok:
  assumes ok: "native_ok db" and n: "n \<noteq> 0" and c: "create_native_account env ts abi n ow ac priv db = Inr db'"
  shows "native_ok db'" "permission_link_index (authz db') = permission_link_index (authz db)"
proof -
  note d = native_okD[OF ok]
  obtain as ms i az1 j az2 where
    as: "create [acc_name] (\<lambda>_. (new_account_object n ts)\<lparr>acc_abi := (if n = system_account_name then abi else [])\<rparr>) (account_index db) = Inr as"
    and ms: "create [md_name] (\<lambda>_. set_privileged priv (new_metadata n)) (account_metadata_index db) = Inr ms"
    and c1: "create_permission (auth_settings env) n owner_name 0 ow ts (authz db) = Inr (i, az1)"
    and c2: "create_permission (auth_settings env) n active_name i ac ts az1 = Inr (j, az2)"
    and db': "db' = db\<lparr>account_index := as, account_metadata_index := ms, authz := az2\<rparr>"
    using c by (auto simp: create_native_account_def result_simps)
  note p = create_account_permissions[OF d(1) n c1 c2]
  show "permission_link_index (authz db') = permission_link_index (authz db)"
    using p by (simp add: db')
  have "account_names db' = insert n (account_names db)" "metadata_names db' = insert n (metadata_names db)"
    using as ms by (auto simp: db' create_Inr account_names_def metadata_names_def new_account_object_def new_metadata_def set_privileged_def)
  then show "native_ok db'"
    using d p n create_table_ok(1)[OF d(2) as] create_table_ok(1)[OF d(3) ms] by (auto simp: native_ok_def db')
qed

lemma initialize_database_ok:
  "initialize_database empty_auth_db = Inr az \<Longrightarrow> native_ok (empty_native_db\<lparr>authz := az\<rparr>) \<and> permission_link_index az = empty_table"
  by (auto simp: initialize_database_def empty_auth_db_def empty_table_def empty_native_db_def create_Inr result_simps native_ok_def
      auth_ok_def permissions_ok_def usages_ok_def used_ids_def table_ok_def row_free_def find_row_def account_names_def metadata_names_def)

lemma genesis_ok:
  assumes "initialize_accounts env ts abi key empty_native_db = Inr db"
  shows "native_ok db" "links_resolve (authz db)"
proof -
  have e: "authz empty_native_db = empty_auth_db"
    by (simp add: empty_native_db_def)
  obtain az0 db1 db2 db3 i p maj az4 mi az5 no_auth pr_auth sys_auth where
    az0: "initialize_database empty_auth_db = Inr az0"
    and c1: "create_native_account env ts abi system_account_name sys_auth sys_auth True (empty_native_db\<lparr>authz := az0\<rparr>) = Inr db1"
    and c2: "create_native_account env ts abi null_account_name no_auth no_auth False db1 = Inr db2"
    and c3: "create_native_account env ts abi producers_account_name no_auth pr_auth False db2 = Inr db3"
    and g: "get_permission \<lparr>actor = producers_account_name, permission = active_name\<rparr> (authz db3) = Inr (i, p)"
    and c4: "create_permission (auth_settings env) producers_account_name majority_producers_permission_name i pr_auth ts (authz db3) = Inr (maj, az4)"
    and c5: "create_permission (auth_settings env) producers_account_name minority_producers_permission_name maj pr_auth ts az4 = Inr (mi, az5)"
    and db: "db = db3\<lparr>authz := az5\<rparr>"
    using assms by (auto simp: initialize_accounts_def Let_def result_simps e)
  note o0 = initialize_database_ok[OF az0]
  note o1 = create_native_account_ok[OF conjunct1[OF o0] genesis_names_distinct(1) c1]
  note o2 = create_native_account_ok[OF o1(1) genesis_names_distinct(2) c2]
  note o3 = create_native_account_ok[OF o2(1) genesis_names_distinct(3) c3]
  note gp = get_permission_row[OF auth_okD(1)[OF native_okD(1)[OF o3(1)]] g]
  note p4 = create_permission_names[OF native_okD(1)[OF o3(1)] c4 genesis_names_distinct(3,4) _ gp(2)]
  have p4': "auth_ok az4" "perm_names (authz db3) \<subseteq> perm_names az4" "permission_link_index az4 = permission_link_index (authz db3)"
    "\<exists>q. find_row maj (permission_index az4) = Some q \<and> owner q = producers_account_name" "0 < maj"
    using p4 gp by auto
  then obtain q where q: "find_row maj (permission_index az4) = Some q" "owner q = producers_account_name" by blast
  note p5 = create_permission_names[OF p4'(1) c5 genesis_names_distinct(3,5) _ q(1)]
  have p5': "auth_ok az5" "perm_names az4 \<subseteq> perm_names az5" "permission_link_index az5 = permission_link_index az4"
    using p5 p4'(5) q(2) by auto
  show "native_ok db"
    unfolding db using p4'(2) p5' by (intro native_ok_authz[OF o3(1)]) auto
  have "permission_link_index az5 = empty_table"
    using p5'(3) p4'(3) o3(2) o2(2) o1(2) conjunct2[OF o0] by simp
  then show "links_resolve (authz db)"
    by (simp add: db links_resolve_def empty_table_def)
qed

lemma reachable_ok: "native_reachable feature db \<Longrightarrow> native_ok db \<and> (feature \<longrightarrow> links_resolve (authz db))"
proof (induction rule: native_reachable.induct)
  case (genesis env ts abi key db)
  then show ?case using genesis_ok[OF genesis] by simp
next
  case (step db env auths act db')
  then show ?case
    using native_ok_step[OF _ step.hyps(3)] links_resolve_step[OF _ _ _ step.hyps(3)] by simp
qed

text \<open>
  C8. In every state that native actions reach from genesis, each account has its metadata row, its owner permission
  and its active permission; permissions form a forest under the reserved row, with parents of the same account and
  owner permissions as the roots; usage rows are not shared; and all keys are unique.
\<close>

theorem native_contract_invariant:
  assumes "native_reachable feature db"
  shows "native_ok db"
  using reachable_ok[OF assms] by blast

text \<open>
  C19. When links may only name existing permissions, no sequence of native actions leaves a link to a permission
  that was deleted: the minimum permission that is looked up for an action of an existing account can always be
  fetched.
\<close>

theorem linked_permission_exists:
  assumes "native_reachable True db" "find_account n db \<noteq> None" "lookup_minimum_permission n scope act (authz db) = Inr (Some pn)"
  shows "\<exists>p. get_permission \<lparr>actor = n, permission = pn\<rparr> (authz db) = Inr p"
proof -
  have ok: "native_ok db" "links_resolve (authz db)"
    using reachable_ok[OF assms(1)] by blast+
  note d = native_okD[OF ok(1)]
  have n: "n \<in> account_names db"
    using assms(2) unfolding find_account_iff .
  have "pn \<noteq> 0 \<and> (n, pn) \<in> perm_names (authz db)"
  proof (cases "lookup_linked_permission n scope act (authz db)")
    case None
    then show ?thesis
      using assms(3) d(9)[OF n] by (auto simp: lookup_minimum_permission_def result_simps)
  next
    case (Some r)
    then have r: "r = pn" "pn \<noteq> dcd_any_name"
      using assms(3) by (auto simp: lookup_minimum_permission_def result_simps split: if_splits)
    obtain i l where l: "(i, l) \<in> set (rows (permission_link_index (authz db)))" "link_account l = n" "required_permission l = r"
      using Some by (fastforce simp: lookup_linked_permission_def Let_def by_action_name_def dest: find_by_Some split: option.splits)
    then show ?thesis
      using ok(2) r unfolding links_resolve_def by fastforce
  qed
  moreover have "n \<noteq> 0"
    using n d(7) by metis
  ultimately show ?thesis
    using find_by_owner_names[of "(n, pn)" "authz db"] by (auto simp: get_permission_def get_by_def)
qed


definition sample_native_env :: "nat native_env" where
  "sample_native_env = \<lparr>auth_settings = sample_auth_env, only_link_to_existing_permission = True, check_keys = False, key_blacklist = [],
     code_digest = (\<lambda>c. Suc (length c)), wasm_validate = (\<lambda>_. Inr ()), head_block_num = 1\<rparr>"

definition sample_genesis :: "nat native_db result" where
  "sample_genesis = initialize_accounts sample_native_env 1600000000000000 [] 11 empty_native_db"

definition sample_alice :: "64 word" where
  "sample_alice = 0x1234500000000000"

text \<open>Genesis, a new account, a permission of it and a link to that permission.\<close>

definition sample_history :: "(permission_level list \<times> nat native_action) list" where
  "sample_history =
    [([\<lparr>actor = system_account_name, permission = active_name\<rparr>],
      Newaccount \<lparr>na_creator = system_account_name, na_name = sample_alice, na_owner = authority_of_key 12 0, na_active = authority_of_key 13 0\<rparr>),
     ([\<lparr>actor = sample_alice, permission = active_name\<rparr>],
      Updateauth \<lparr>upd_account = sample_alice, upd_permission = 0x5000000000000000, upd_parent = active_name, upd_auth = authority_of_key 14 0\<rparr>),
     ([\<lparr>actor = sample_alice, permission = active_name\<rparr>],
      Linkauth \<lparr>lnk_account = sample_alice, lnk_code = system_account_name, lnk_type = 0x6000000000000000, lnk_requirement = 0x5000000000000000\<rparr>)]"

definition sample_native_db :: "nat native_db result" where
  "sample_native_db = bind_res sample_genesis (fold_res (\<lambda>(auths, act). apply_native sample_native_env auths act) sample_history)"

lemma reachable_run:
  assumes "native_reachable feature db" "feature \<longrightarrow> only_link_to_existing_permission env"
    "fold_res (\<lambda>(auths, act). apply_native env auths act) acts db = Inr db'"
  shows "native_reachable feature db'"
  using assms(1,3)
proof (induction acts arbitrary: db)
  case (Cons a acts)
  then obtain db1 where "apply_native env (fst a) (snd a) db = Inr db1" "fold_res (\<lambda>(auths, act). apply_native env auths act) acts db1 = Inr db'"
    by (auto simp: result_simps split: prod.splits)
  then show ?case
    using Cons.IH native_reachable.step[OF Cons.prems(1) assms(2)] by blast
qed simp

lemma sample_native_value:
  "case sample_native_db of Inl _ \<Rightarrow> False | Inr db \<Rightarrow> find_account sample_alice db \<noteq> None \<and>
     lookup_minimum_permission sample_alice system_account_name 0x6000000000000000 (authz db) = Inr (Some 0x5000000000000000)"
  by code_simp

lemma sample_reachable: "\<exists>db. sample_native_db = Inr db \<and> native_reachable True db"
proof -
  obtain db where db: "sample_native_db = Inr db"
    using sample_native_value by (auto split: sum.splits)
  then obtain g where g: "sample_genesis = Inr g"
      "fold_res (\<lambda>(auths, act). apply_native sample_native_env auths act) sample_history g = Inr db"
    unfolding sample_native_db_def bind_res_eq_Inr by blast
  moreover have "native_reachable True g"
    using g(1) unfolding sample_genesis_def by (rule native_reachable.genesis)
  ultimately show ?thesis
    using reachable_run[of True g sample_native_env sample_history db] db by (auto simp: sample_native_env_def)
qed

theorem native_contract_invariant_witness: "\<exists>db. sample_native_db = Inr db \<and> native_ok db"
proof -
  obtain db where "sample_native_db = Inr db" "native_reachable True db"
    using sample_reachable by blast
  then show ?thesis
    using native_contract_invariant[of True db] by blast
qed

theorem linked_permission_exists_witness:
  "\<exists>db p. sample_native_db = Inr db \<and>
     lookup_minimum_permission sample_alice system_account_name 0x6000000000000000 (authz db) = Inr (Some 0x5000000000000000) \<and>
     get_permission \<lparr>actor = sample_alice, permission = 0x5000000000000000\<rparr> (authz db) = Inr p"
proof -
  obtain db where db: "sample_native_db = Inr db" "native_reachable True db"
    using sample_reachable by blast
  have "find_account sample_alice db \<noteq> None"
    "lookup_minimum_permission sample_alice system_account_name 0x6000000000000000 (authz db) = Inr (Some 0x5000000000000000)"
    using sample_native_value unfolding db(1) by simp_all
  then show ?thesis
    using linked_permission_exists[OF db(2)] db(1) by blast
qed

end
