(* ===== verification/Native_Code.thy ===== *)
theory Native_Code
  imports Native_Invariant
begin

text \<open>
  The reference counts of contract code: \<open>setcode\<close> releases the code an account runs and acquires the new one.
  The theory shows that the counts are exact, so that no code is freed while an account runs it and none stays behind.
\<close>

section \<open>Reference counts of code\<close>

type_synonym code_key = "nat \<times> 8 word \<times> 8 word"

definition md_key :: "account_metadata_object \<Rightarrow> code_key" where
  "md_key a = (md_code_hash a, md_vm_type a, md_vm_version a)"

definition code_users :: "account_metadata_object otable \<Rightarrow> code_key \<Rightarrow> nat" where
  "code_users t k = length (filter (\<lambda>r. md_key (snd r) = k) (rows t))"

definition code_count :: "code_object otable \<Rightarrow> code_key \<Rightarrow> nat" where
  "code_count t k = (case find_by by_code_hash k t of None \<Rightarrow> 0 | Some (i, c) \<Rightarrow> unat (code_ref_count c))"

text \<open>Every code row counts the accounts that run it, is used by at least one, and every code in use has a row.\<close>

definition counts_ok :: "'k native_db \<Rightarrow> bool" where
  "counts_ok db \<longleftrightarrow> (\<forall>k. fst k \<noteq> 0 \<longrightarrow> code_count (code_index db) k = code_users (account_metadata_index db) k) \<and>
     (\<forall>i c. find_row i (code_index db) = Some c \<longrightarrow> code_ref_count c \<noteq> 0)"

lemma code_users_modify:
  assumes "table_ok ks t" "modify_row ks i m t = Inr t'" "find_row i t = Some v"
  shows "code_users t' k + (if md_key v = k then 1 else 0) = code_users t k + (if md_key (m v) = k then 1 else 0)"
proof -
  have t': "rows t' = map (\<lambda>p. if fst p = i then (i, m v) else p) (rows t)"
    using assms(2,3) by (auto simp: modify_row_def split: if_splits)
  have "length (filter (\<lambda>r. md_key (snd r) = k) (map (\<lambda>p. if fst p = i then (i, m v) else p) xs)) + (if md_key v = k then 1 else 0) =
      length (filter (\<lambda>r. md_key (snd r) = k) xs) + (if md_key (m v) = k then 1 else 0)"
    if "distinct (map fst xs)" "(i, v) \<in> set xs" for xs
    using that
  proof (induction xs)
    case (Cons x xs)
    show ?case
    proof (cases "fst x = i")
      case True
      then have "x = (i, v)" and "i \<notin> fst ` set xs"
        using Cons.prems by (auto simp: image_iff)
      moreover have "map (\<lambda>p. if fst p = i then (i, m v) else p) xs = xs"
        using \<open>i \<notin> fst ` set xs\<close> by (intro map_idI) auto
      ultimately show ?thesis by simp
    next
      case False
      then have "(i, v) \<in> set xs"
        using Cons.prems(2) by auto
      then show ?thesis
        using Cons False by auto
    qed
  qed simp
  then show ?thesis
    using assms(1,3) find_row_mem[OF assms(1), of i v] by (simp add: code_users_def t' table_ok_def)
qed

lemma release_code_count:
  assumes t: "table_ok [by_code_hash] t" and r: "release_code md h t = Inr t'" and pos: "\<And>i c. find_row i t = Some c \<Longrightarrow> code_ref_count c \<noteq> 0"
  shows "code_count t' k = code_count t k - (if md_code_hash md \<noteq> 0 \<and> md_key md = k then 1 else 0)"
    "\<And>i c. find_row i t' = Some c \<Longrightarrow> code_ref_count c \<noteq> 0"
    "md_code_hash md \<noteq> 0 \<Longrightarrow> md_code_hash md \<noteq> h"
proof -
  have "code_count t' k = code_count t k - (if md_code_hash md \<noteq> 0 \<and> md_key md = k then 1 else 0) \<and>
    (\<forall>i c. find_row i t' = Some c \<longrightarrow> code_ref_count c \<noteq> 0) \<and> (md_code_hash md \<noteq> 0 \<longrightarrow> md_code_hash md \<noteq> h)"
  proof (cases "md_code_hash md = 0")
    case True
    then show ?thesis using r pos by (simp add: release_code_def)
  next
    case False
    obtain i c where f: "find_by by_code_hash (md_key md) t = Some (i, c)" and h: "co_hash c \<noteq> h"
      and t': "(if code_ref_count c = 1 then Inr (remove_row i t)
        else modify_row [by_code_hash] i (\<lambda>c. c\<lparr>code_ref_count := code_ref_count c - 1\<rparr>) t) = Inr t'"
      using r False by (auto simp: release_code_def md_key_def get_by_def result_simps split: option.splits)
    have c: "find_row i t = Some c" "by_code_hash c = md_key md"
      using find_by_row[OF t f] by simp_all
    have nh: "md_code_hash md \<noteq> h"
      using c(2) h by (simp add: by_code_hash_def md_key_def)
    show ?thesis
    proof (cases "code_ref_count c = 1")
      case True
      then have t'_def: "t' = remove_row i t" using t' by simp
      have "find_row j t' = Some d \<Longrightarrow> code_ref_count d \<noteq> 0" for j d
        using pos remove_row_table_ok(2)[OF t, of j i] unfolding t'_def by (auto split: if_splits)
      then show ?thesis
        using find_by_remove[OF t c(1), of k] f c(2) True False nh unfolding t'_def by (auto simp: code_count_def)
    next
      case False
      let ?m = "\<lambda>c. c\<lparr>code_ref_count := code_ref_count c - 1\<rparr>"
      have m: "modify_row [by_code_hash] i ?m t = Inr t'" using t' False by simp
      have key: "by_code_hash (?m c) = by_code_hash c" by (simp add: by_code_hash_def)
      have "code_ref_count c - 1 \<noteq> 0" "unat (code_ref_count c - 1) = unat (code_ref_count c) - 1"
        using False pos[OF c(1)] by (simp_all add: unat_minus_one)
      moreover have "find_row j t' = (if j = i then Some (?m c) else find_row j t)" for j
        using modify_row_table_ok(2)[OF t m] c(1) by auto
      ultimately show ?thesis
        using find_by_modify[OF t m c(1) key, of k] f c(2) \<open>md_code_hash md \<noteq> 0\<close> nh pos by (auto simp: code_count_def)
    qed
  qed
  then show "code_count t' k = code_count t k - (if md_code_hash md \<noteq> 0 \<and> md_key md = k then 1 else 0)"
    "\<And>i c. find_row i t' = Some c \<Longrightarrow> code_ref_count c \<noteq> 0" "md_code_hash md \<noteq> 0 \<Longrightarrow> md_code_hash md \<noteq> h"
    by blast+
qed

lemma acquire_code_count:
  assumes t: "table_ok [by_code_hash] t" and a: "acquire_code env act h t = Inr t'" and pos: "\<And>i c. find_row i t = Some c \<Longrightarrow> code_ref_count c \<noteq> 0"
    and small: "code_count t (h, sc_vmtype act, sc_vmversion act) < 2 ^ 64 - 1"
  shows "code_count t' k = code_count t k + (if sc_code act \<noteq> [] \<and> k = (h, sc_vmtype act, sc_vmversion act) then 1 else 0)"
    "\<And>i c. find_row i t' = Some c \<Longrightarrow> code_ref_count c \<noteq> 0"
proof -
  let ?key = "(h, sc_vmtype act, sc_vmversion act)"
  have "code_count t' k = code_count t k + (if sc_code act \<noteq> [] \<and> k = ?key then 1 else 0) \<and>
    (\<forall>i c. find_row i t' = Some c \<longrightarrow> code_ref_count c \<noteq> 0)"
  proof (cases "sc_code act = []")
    case True
    then show ?thesis using a pos by (simp add: acquire_code_def)
  next
    case False
    show ?thesis
    proof (cases "find_by by_code_hash ?key t")
      case None
      let ?c = "\<lparr>co_hash = h, co_code = sc_code act, code_ref_count = 1, first_block_used = head_block_num env + 1,
        co_vm_type = sc_vmtype act, co_vm_version = sc_vmversion act\<rparr>"
      have c: "create [by_code_hash] (\<lambda>_. ?c) t = Inr t'"
        using a False None by (simp add: acquire_code_def)
      show ?thesis
        using find_by_create[OF t c, of k] create_table_ok(2)[OF t c] None False pos by (auto simp: code_count_def by_code_hash_def)
    next
      case (Some x)
      obtain i c where x: "x = (i, c)" by fastforce
      let ?m = "\<lambda>c. c\<lparr>code_ref_count := code_ref_count c + 1\<rparr>"
      have c: "find_row i t = Some c" "by_code_hash c = ?key"
        using find_by_row[OF t, of by_code_hash ?key i c] Some x by simp_all
      have m: "modify_row [by_code_hash] i ?m t = Inr t'"
        using a False Some x by (simp add: acquire_code_def)
      have key: "by_code_hash (?m c) = by_code_hash c" by (simp add: by_code_hash_def)
      have "unat (code_ref_count c) < 2 ^ 64 - 1"
        using small Some x by (simp add: code_count_def)
      then have u: "unat (code_ref_count c + 1) = unat (code_ref_count c) + 1"
        by (simp add: unat_word_ariths)
      then have "code_ref_count c + 1 \<noteq> 0"
        by (metis Suc_eq_plus1 nat.distinct(1) unsigned_0)
      moreover have "find_row j t' = (if j = i then Some (?m c) else find_row j t)" for j
        using modify_row_table_ok(2)[OF t m] c(1) by auto
      ultimately show ?thesis
        using find_by_modify[OF t m c(1) key, of k] Some x c(2) u False pos by (auto simp: code_count_def)
    qed
  qed
  then show "code_count t' k = code_count t k + (if sc_code act \<noteq> [] \<and> k = ?key then 1 else 0)"
    "\<And>i c. find_row i t' = Some c \<Longrightarrow> code_ref_count c \<noteq> 0"
    by blast+
qed

lemma code_users_le: "code_users t k \<le> length (rows t)"
  by (simp add: code_users_def)

lemma setcode_counts:
  assumes ok: "native_ok db" "counts_ok db" and few: "length (rows (account_metadata_index db)) < 2 ^ 64 - 1"
    and digest: "\<And>c. code_digest env c \<noteq> 0" and a: "apply_dcd_setcode env auths act db = Inr db'"
  shows "counts_ok db'"
proof -
  note d = native_okD[OF ok(1)]
  obtain i md h codes1 codes2 ms where h: "h = (if sc_code act = [] then 0 else code_digest env (sc_code act))"
    and vm: "sc_vmtype act = 0" "sc_vmversion act = 0"
    and md: "find_by md_name (sc_account act) (account_metadata_index db) = Some (i, md)"
    and r: "release_code md h (code_index db) = Inr codes1" and q: "acquire_code env act h codes1 = Inr codes2"
    and ms: "modify_row [md_name] i (\<lambda>a. a\<lparr>code_sequence := code_sequence a + 1, md_code_hash := h, md_vm_type := 0, md_vm_version := 0,
      last_code_update := pending_block_time (auth_settings env)\<rparr>) (account_metadata_index db) = Inr ms"
    and db': "db' = db\<lparr>code_index := codes2, account_metadata_index := ms\<rparr>"
    using setcode_Inr[OF a] by blast
  have counts: "code_count (code_index db) k = code_users (account_metadata_index db) k" if "fst k \<noteq> 0" for k
    using ok(2) that unfolding counts_ok_def by blast
  have pos: "find_row i (code_index db) = Some c \<Longrightarrow> code_ref_count c \<noteq> 0" for i c
    using ok(2) unfolding counts_ok_def by blast
  have row: "find_row i (account_metadata_index db) = Some md"
    using find_by_row[OF d(3) md] by simp
  note rc = release_code_count[OF d(4) r pos]
  have hz: "h = 0 \<longleftrightarrow> sc_code act = []"
    using h digest by simp
  have small: "code_count codes1 (h, sc_vmtype act, sc_vmversion act) < 2 ^ 64 - 1 \<or> sc_code act = []"
    using counts[of "(h, 0, 0)"] rc(1)[where k = "(h, 0, 0)"] code_users_le[of "account_metadata_index db" "(h, 0, 0)"] few hz vm
    by (cases "sc_code act = []") (auto split: if_splits)
  have "(\<forall>k. code_count codes2 k = code_count codes1 k + (if sc_code act \<noteq> [] \<and> k = (h, 0, 0) then 1 else 0)) \<and>
    (\<forall>j c. find_row j codes2 = Some c \<longrightarrow> code_ref_count c \<noteq> 0)"
  proof (cases "sc_code act = []")
    case True
    then have "codes2 = codes1"
      using q by (simp add: acquire_code_def)
    then show ?thesis
      using True rc(2) by simp
  next
    case False
    then have sm: "code_count codes1 (h, sc_vmtype act, sc_vmversion act) < 2 ^ 64 - 1"
      using small by simp
    show ?thesis
      using acquire_code_count[OF release_code_ok[OF d(4) r] q rc(2) sm] False vm by simp
  qed
  then have ac: "code_count codes2 k = code_count codes1 k + (if sc_code act \<noteq> [] \<and> k = (h, 0, 0) then 1 else 0)"
    "find_row j codes2 = Some c \<Longrightarrow> code_ref_count c \<noteq> 0" for k j c
    by blast+
  have "code_count codes2 k = code_users ms k" if k: "fst k \<noteq> 0" for k
  proof -
    have users: "code_users ms k + (if md_key md = k then 1 else 0) =
        code_users (account_metadata_index db) k + (if (h, 0, 0) = k then 1 else 0)"
      using code_users_modify[OF d(3) ms row, of k] by (simp add: md_key_def)
    have "md_key md = k \<Longrightarrow> 0 < code_users (account_metadata_index db) k"
      using row find_row_mem[OF d(3), of i md] by (force simp: code_users_def filter_empty_conv)
    moreover have "md_key md = k \<Longrightarrow> md_code_hash md \<noteq> 0"
      using k by (auto simp: md_key_def)
    moreover have "(h, 0, 0) = k \<Longrightarrow> sc_code act \<noteq> []"
      using k hz by auto
    ultimately show ?thesis
      using users ac(1)[of k] rc(1)[where k = k] counts[OF k] by (auto split: if_splits)
  qed
  then show ?thesis
    using ac(2) by (simp add: counts_ok_def db')
qed

lemma counts_ok_same:
  assumes "counts_ok db" "code_index db' = code_index db" "\<And>k. fst k \<noteq> 0 \<Longrightarrow> code_users (account_metadata_index db') k = code_users (account_metadata_index db) k"
  shows "counts_ok db'"
  using assms by (simp add: counts_ok_def)

text \<open>
  C20. Every native action keeps the reference counts of code exact: each code row counts the accounts that run it and has at
  least one, and the code of every account has a row. The digest of a code is assumed never to be all zeros, which
  stands for no code, and the accounts to be fewer than \<open>2 ^ 64 - 1\<close>.
\<close>

theorem code_counts_exact:
  assumes "native_ok db" "counts_ok db" "length (rows (account_metadata_index db)) < 2 ^ 64 - 1" "\<forall>c. code_digest env c \<noteq> 0"
    "apply_native env auths act db = Inr db'"
  shows "counts_ok db'"
proof (cases act)
  case (Setcode a)
  then have "apply_dcd_setcode env auths a db = Inr db'"
    using assms(5) by simp
  from setcode_counts[OF assms(1,2,3) _ this] assms(4) show ?thesis
    by blast
next
  case (Newaccount a)
  then obtain as ms az where "create [md_name] (\<lambda>_. new_metadata (na_name a)) (account_metadata_index db) = Inr ms"
    and db': "db' = db\<lparr>account_index := as, account_metadata_index := ms, authz := az\<rparr>"
    using assms(5) by (auto simp: apply_dcd_newaccount_def Let_def result_simps)
  then have "code_users ms k = code_users (account_metadata_index db) k" if "fst k \<noteq> 0" for k
    using that by (auto simp: create_Inr code_users_def md_key_def new_metadata_def)
  then show ?thesis
    using db' by (intro counts_ok_same[OF assms(2)]) simp_all
next
  case (Setabi n abi)
  then obtain i as j ms where ms: "modify_row [md_name] j (\<lambda>a. a\<lparr>abi_sequence := abi_sequence a + 1\<rparr>) (account_metadata_index db) = Inr ms"
    and db': "db' = db\<lparr>account_index := as, account_metadata_index := ms\<rparr>"
    using assms(5) by (auto simp: apply_dcd_setabi_def result_simps)
  obtain v where v: "find_row j (account_metadata_index db) = Some v"
    using modify_row_table_ok(2)[OF native_okD(3)[OF assms(1)] ms] by blast
  have "code_users ms k = code_users (account_metadata_index db) k" for k
    using code_users_modify[OF native_okD(3)[OF assms(1)] ms v, of k] by (simp add: md_key_def)
  then show ?thesis
    using db' by (intro counts_ok_same[OF assms(2)]) simp_all
next
  case (Updateauth a)
  then show ?thesis
    using assms(5) by (intro counts_ok_same[OF assms(2)]) (auto elim!: updateauth_Inr)
next
  case (Deleteauth a)
  then show ?thesis
    using assms(5) by (intro counts_ok_same[OF assms(2)]) (auto simp: apply_dcd_deleteauth_def result_simps)
next
  case (Linkauth a)
  then show ?thesis
    using assms(5) linkauth_Inr by (intro counts_ok_same[OF assms(2)]) fastforce+
next
  case (Unlinkauth a)
  then show ?thesis
    using assms(5) by (intro counts_ok_same[OF assms(2)]) (auto simp: apply_dcd_unlinkauth_def result_simps split: option.splits)
next
  case (Setfee n t f)
  then show ?thesis
    using assms(5) by (intro counts_ok_same[OF assms(2)]) (auto simp: apply_dcd_setfee_def result_simps)
qed

definition code_sample_run :: "(nat native_db \<times> nat native_db) result" where
  "code_sample_run =
     bind_res sample_genesis (\<lambda>g.
     bind_res (apply_native sample_native_env [\<lparr>actor = system_account_name, permission = active_name\<rparr>]
       (Setcode \<lparr>sc_account = system_account_name, sc_vmtype = 0, sc_vmversion = 0, sc_code = [1, 2]\<rparr>) g) (\<lambda>db.
     Inr (g, db)))"

theorem code_counts_exact_witness:
  "\<exists>g db. code_sample_run = Inr (g, db) \<and> counts_ok g \<and> counts_ok db \<and> code_count (code_index db) (3, 0, 0) = 1"
proof -
  have v: "case code_sample_run of Inl _ \<Rightarrow> False | Inr (g, db) \<Rightarrow> rows (code_index g) = [] \<and>
      list_all (\<lambda>r. md_code_hash (snd r) = 0) (rows (account_metadata_index g)) \<and> length (rows (account_metadata_index g)) \<le> 3 \<and>
      code_count (code_index db) (3, 0, 0) = 1"
    by code_simp
  then obtain g db where r: "code_sample_run = Inr (g, db)"
    by (auto split: sum.splits)
  have g: "sample_genesis = Inr g"
    and step: "apply_native sample_native_env [\<lparr>actor = system_account_name, permission = active_name\<rparr>]
       (Setcode \<lparr>sc_account = system_account_name, sc_vmtype = 0, sc_vmversion = 0, sc_code = [1, 2]\<rparr>) g = Inr db"
    using r unfolding code_sample_run_def by (auto simp: result_simps)
  have vals: "rows (code_index g) = []" "list_all (\<lambda>r. md_code_hash (snd r) = 0) (rows (account_metadata_index g))"
    "length (rows (account_metadata_index g)) < 2 ^ 64 - 1" "code_count (code_index db) (3, 0, 0) = 1"
    using v unfolding r by auto
  have "native_ok g"
    by (rule genesis_ok(1)[OF g[unfolded sample_genesis_def]])
  moreover have "counts_ok g"
    using vals(1,2) unfolding counts_ok_def code_count_def code_users_def find_by_def find_row_def
    by (auto simp: list_all_iff filter_empty_conv md_key_def)
  moreover have "\<forall>c. code_digest sample_native_env c \<noteq> 0"
    by (simp add: sample_native_env_def)
  ultimately show ?thesis
    using code_counts_exact[OF _ _ vals(3) _ step] r vals(4) by blast
qed

end
