(* ===== verification/Fork_Database.thy ===== *)
theory Fork_Database
  imports Chain_Prelude "HOL-Library.Product_Lexorder" "HOL-Library.Multiset"
begin

text \<open>
  The fork database (\<^verbatim>\<open>libraries/chain/fork_database.cpp\<close>): the tree of blocks above the last
  irreversible block, its root, and the head, which is the best validated block.

  A block state is the part of it that the class reads: id, previous id, block number, the number of the
  last irreversible block it implies, its timestamp, the features active after it, the features its header
  activates if it has that extension, and the validated flag. The shared pointers \<open>root\<close> and \<open>head\<close>
  hold the block they point to; the code never reads the validated flag through them. The
  container is the list of its blocks in insertion order, and its ordered view \<open>by_lib_block_num\<close> is that list
  sorted. Loops that follow the previous ids, or that grow the queue of blocks to remove, are given as much
  fuel as the container has blocks; running out of it, which only a cyclic container can
  cause, gives \<open>Undefined_behaviour\<close>, as does reading through a null root or head. \<open>advance_root\<close>, which
  mutates before it may throw, returns the state with the exception.
\<close>

section \<open>The container\<close>

record block_state =
  bid :: nat
  previous :: nat
  block_num :: nat
  dpos_irreversible_blocknum :: nat
  timestamp :: nat
  activated_protocol_features :: "nat list"
  header_exts :: "nat list option"
  validated :: bool

record fork_db =
  index :: "block_state list"
  root :: "block_state option"
  head :: "block_state option"

definition empty_fork_db :: fork_db where
  "empty_fork_db = \<lparr>index = [], root = None, head = None\<rparr>"

definition first_preferred :: "block_state \<Rightarrow> block_state \<Rightarrow> bool" where
  "first_preferred lhs rhs \<longleftrightarrow>
     (dpos_irreversible_blocknum rhs, block_num rhs) < (dpos_irreversible_blocknum lhs, block_num lhs)"

text \<open>The order of the view: validated first, then the larger irreversible number, the larger block number, the smaller id.\<close>

definition lib_order :: "block_state \<Rightarrow> bool \<times> int \<times> int \<times> nat" where
  "lib_order b = (\<not> validated b, - int (dpos_irreversible_blocknum b), - int (block_num b), bid b)"

definition by_lib_block_num :: "fork_db \<Rightarrow> block_state list" where
  "by_lib_block_num db = sort_key lib_order (index db)"

definition get_block :: "fork_db \<Rightarrow> nat \<Rightarrow> block_state option" where
  "get_block db i = find (\<lambda>b. bid b = i) (index db)"

definition root_or_block :: "block_state \<Rightarrow> fork_db \<Rightarrow> nat \<Rightarrow> block_state option" where
  "root_or_block r db i = (if bid r = i then Some r else get_block db i)"

definition get_block_header :: "fork_db \<Rightarrow> nat \<Rightarrow> block_state option result" where
  "get_block_header db i =
     (case root db of None \<Rightarrow> Inl Undefined_behaviour | Some r \<Rightarrow> Inr (root_or_block r db i))"

section \<open>Operations\<close>

definition reset :: "block_state \<Rightarrow> fork_db \<Rightarrow> fork_db" where
  "reset root_bhs db = (let r = root_bhs\<lparr>validated := True\<rparr> in \<lparr>index = [], root = Some r, head = Some r\<rparr>)"

definition rollback_head_to_root :: "fork_db \<Rightarrow> fork_db" where
  "rollback_head_to_root db = db\<lparr>index := map (\<lambda>b. b\<lparr>validated := False\<rparr>) (index db), head := root db\<rparr>"

text \<open>
  The argument \<open>validator\<close> gets the timestamp of the block, the features active before it and those it
  activates; whatever it throws is rethrown as a fork database exception.
\<close>

type_synonym feature_validator = "nat \<Rightarrow> nat list \<Rightarrow> nat list \<Rightarrow> unit result"

definition validate_block :: "feature_validator \<Rightarrow> block_state \<Rightarrow> block_state \<Rightarrow> unit result" where
  "validate_block validator prev_bh n =
     (case header_exts n of
        None \<Rightarrow> Inr ()
      | Some new_features \<Rightarrow>
          (case validator (timestamp n) (activated_protocol_features prev_bh) new_features of
             Inl _ \<Rightarrow> Inl Fork_database_exception
           | Inr _ \<Rightarrow> Inr ()))"

definition add_impl ::
  "bool \<Rightarrow> bool \<Rightarrow> feature_validator \<Rightarrow> block_state \<Rightarrow> fork_db \<Rightarrow> fork_db result" where
  "add_impl ignore_duplicate validate validator n db =
     bind_res (assert_res (root db \<noteq> None) Fork_database_exception) (\<lambda>_.
     bind_res (get_block_header db (previous n)) (\<lambda>prev_bh.
     case prev_bh of
       None \<Rightarrow> Inl Unlinkable_block_exception
     | Some prev_bh \<Rightarrow>
         bind_res (if validate then validate_block validator prev_bh n else Inr ()) (\<lambda>_.
         if get_block db (bid n) \<noteq> None
         then (if ignore_duplicate then Inr db else Inl Fork_database_exception)
         else
           (let db1 = db\<lparr>index := index db @ [n]\<rparr>; candidate = hd (by_lib_block_num db1) in
            Inr (if validated candidate then db1\<lparr>head := Some candidate\<rparr> else db1)))))"

definition add :: "block_state \<Rightarrow> bool \<Rightarrow> fork_db \<Rightarrow> fork_db result" where
  "add n ignore_duplicate db = add_impl ignore_duplicate False (\<lambda>_ _ _. Inr ()) n db"

definition mark_valid :: "block_state \<Rightarrow> fork_db \<Rightarrow> fork_db result" where
  "mark_valid h db =
     (if validated h then Inr db
      else
        bind_res (assert_res (get_block db (bid h) \<noteq> None) Fork_database_exception) (\<lambda>_.
        let db1 = db\<lparr>index := map (\<lambda>b. if bid b = bid h then b\<lparr>validated := True\<rparr> else b) (index db)\<rparr>;
            candidate = hd (by_lib_block_num db1) in
        case head db of
          None \<Rightarrow> Inl Undefined_behaviour
        | Some hd_block \<Rightarrow> Inr (if first_preferred candidate hd_block then db1\<lparr>head := Some candidate\<rparr> else db1)))"

definition pending_head :: "fork_db \<Rightarrow> block_state option result" where
  "pending_head db =
     (case filter (\<lambda>b. \<not> validated b) (by_lib_block_num db) of
        [] \<Rightarrow> Inr (head db)
      | b # _ \<Rightarrow>
          (case head db of
             None \<Rightarrow> Inl Undefined_behaviour
           | Some h \<Rightarrow> Inr (if first_preferred b h then Some b else head db)))"

fun collect_queue :: "nat \<Rightarrow> block_state list \<Rightarrow> nat \<Rightarrow> nat list \<Rightarrow> nat list \<Rightarrow> nat list result" where
  "collect_queue fuel idx head_id [] visited = Inr (rev visited)"
| "collect_queue 0 idx head_id (q # queue) visited = Inl Undefined_behaviour"
| "collect_queue (Suc fuel) idx head_id (q # queue) visited =
     (if q = head_id then Inl Fork_database_exception
      else collect_queue fuel idx head_id (queue @ map bid (filter (\<lambda>b. previous b = q) idx)) (q # visited))"

definition remove_blocks :: "nat \<Rightarrow> fork_db \<Rightarrow> fork_db result" where
  "remove_blocks i db =
     (case head db of
        None \<Rightarrow> Inl Undefined_behaviour
      | Some h \<Rightarrow>
          bind_res (collect_queue (Suc (length (index db))) (index db) (bid h) [i] []) (\<lambda>queue.
          Inr (db\<lparr>index := filter (\<lambda>b. bid b \<notin> set queue) (index db)\<rparr>)))"

fun ancestor_ids :: "nat \<Rightarrow> fork_db \<Rightarrow> nat \<Rightarrow> block_state \<Rightarrow> nat list result" where
  "ancestor_ids 0 db root_id b = Inl Undefined_behaviour"
| "ancestor_ids (Suc fuel) db root_id b =
     (case get_block db (previous b) of
        None \<Rightarrow> bind_res (assert_res (previous b = root_id) Fork_database_exception) (\<lambda>_. Inr [previous b])
      | Some p \<Rightarrow> bind_res (ancestor_ids fuel db root_id p) (\<lambda>rest. Inr (previous b # rest)))"

fun remove_each :: "nat list \<Rightarrow> fork_db \<Rightarrow> fork_db \<times> unit result" where
  "remove_each [] db = (db, Inr ())"
| "remove_each (i # is) db =
     (case remove_blocks i db of Inl e \<Rightarrow> (db, Inl e) | Inr db' \<Rightarrow> remove_each is db')"

definition advance_root :: "nat \<Rightarrow> fork_db \<Rightarrow> fork_db \<times> unit result" where
  "advance_root i db =
     (case root db of
        None \<Rightarrow> (db, Inl Fork_database_exception)
      | Some r \<Rightarrow>
          case get_block db i of
            None \<Rightarrow> (db, Inl Fork_database_exception)
          | Some new_root \<Rightarrow>
              if \<not> validated new_root then (db, Inl Fork_database_exception)
              else case ancestor_ids (Suc (length (index db))) db (bid r) new_root of
                     Inl e \<Rightarrow> (db, Inl e)
                   | Inr blocks_to_remove \<Rightarrow>
                       let db1 = db\<lparr>index := filter (\<lambda>b. bid b \<noteq> i) (index db)\<rparr> in
                       case remove_each blocks_to_remove db1 of
                         (db2, Inl e) \<Rightarrow> (db2, Inl e)
                       | (db2, Inr _) \<Rightarrow> (db2\<lparr>root := Some new_root\<rparr>, Inr ()))"

fun walk_branch :: "nat \<Rightarrow> fork_db \<Rightarrow> nat \<Rightarrow> block_state list result" where
  "walk_branch 0 db i = (if get_block db i = None then Inr [] else Inl Undefined_behaviour)"
| "walk_branch (Suc fuel) db i =
     (case get_block db i of
        None \<Rightarrow> Inr []
      | Some s \<Rightarrow> bind_res (walk_branch fuel db (previous s)) (\<lambda>rest. Inr (s # rest)))"

definition fetch_branch :: "fork_db \<Rightarrow> nat \<Rightarrow> nat \<Rightarrow> block_state list result" where
  "fetch_branch db h trim_after_block_num =
     bind_res (walk_branch (length (index db)) db h) (\<lambda>bs. Inr (filter (\<lambda>s. block_num s \<le> trim_after_block_num) bs))"

definition search_on_branch :: "fork_db \<Rightarrow> nat \<Rightarrow> nat \<Rightarrow> block_state option result" where
  "search_on_branch db h n =
     bind_res (walk_branch (length (index db)) db h) (\<lambda>bs. Inr (find (\<lambda>s. block_num s = n) bs))"

fun descend_to :: "nat \<Rightarrow> block_state \<Rightarrow> fork_db \<Rightarrow> nat \<Rightarrow> block_state \<Rightarrow> (block_state list \<times> block_state) result" where
  "descend_to 0 r db n b = (if n < block_num b then Inl Undefined_behaviour else Inr ([], b))"
| "descend_to (Suc fuel) r db n b =
     (if n < block_num b then
        (case root_or_block r db (previous b) of
           None \<Rightarrow> Inl Fork_db_block_not_found
         | Some p \<Rightarrow> bind_res (descend_to fuel r db n p) (\<lambda>(bs, c). Inr (b # bs, c)))
      else Inr ([], b))"

fun descend_both ::
  "nat \<Rightarrow> fork_db \<Rightarrow> block_state \<Rightarrow> block_state \<Rightarrow> (block_state list \<times> block_state list) result" where
  "descend_both 0 db a b = (if previous a \<noteq> previous b then Inl Undefined_behaviour else Inr ([a], [b]))"
| "descend_both (Suc fuel) db a b =
     (if previous a \<noteq> previous b then
        (case get_block db (previous a) of
           None \<Rightarrow> Inl Fork_db_block_not_found
         | Some a' \<Rightarrow>
             (case get_block db (previous b) of
                None \<Rightarrow> Inl Fork_db_block_not_found
              | Some b' \<Rightarrow> bind_res (descend_both fuel db a' b') (\<lambda>(as, bs). Inr (a # as, b # bs))))
      else Inr ([a], [b]))"

definition fetch_branch_from :: "fork_db \<Rightarrow> nat \<Rightarrow> nat \<Rightarrow> (block_state list \<times> block_state list) result" where
  "fetch_branch_from db first second =
     (case root db of
        None \<Rightarrow> Inl Undefined_behaviour
      | Some r \<Rightarrow>
          (case (root_or_block r db first, root_or_block r db second) of
             (Some a, Some b) \<Rightarrow>
               bind_res (descend_to (length (index db)) r db (block_num b) a) (\<lambda>(as, a').
               bind_res (descend_to (length (index db)) r db (block_num a') b) (\<lambda>(bs, b').
               if bid a' = bid b' then Inr (as, bs)
               else bind_res (descend_both (length (index db)) db a' b') (\<lambda>(as', bs'). Inr (as @ as', bs @ bs'))))
           | _ \<Rightarrow> Inl Fork_db_block_not_found))"

section \<open>Closing and opening\<close>

text \<open>
  The contents of the file after the magic number and the version: the header state of the root, the blocks in the
  order they are written, the id of the head unless there was none. \<open>close\<close> returns it with the closed database;
  \<open>open_db\<close> gets it if the file exists.
\<close>

record fork_file =
  file_root :: block_state
  file_blocks :: "block_state list"
  file_head :: "nat option"

fun merge_blocks :: "block_state list \<Rightarrow> block_state list \<Rightarrow> block_state list" where
  "merge_blocks us [] = us"
| "merge_blocks [] vs = vs"
| "merge_blocks (u # us) (v # vs) =
     (if first_preferred v u then u # merge_blocks us (v # vs) else v # merge_blocks (u # us) vs)"

definition close :: "fork_db \<Rightarrow> fork_db \<times> fork_file option" where
  "close db =
     (case root db of
        None \<Rightarrow> (db, None)
      | Some r \<Rightarrow>
          (db\<lparr>index := []\<rparr>,
           Some \<lparr>file_root = r,
                 file_blocks = merge_blocks (rev (filter (\<lambda>b. \<not> validated b) (by_lib_block_num db)))
                                 (rev (filter validated (by_lib_block_num db))),
                 file_head = map_option bid (head db)\<rparr>))"

definition check_head :: "fork_db \<Rightarrow> unit result" where
  "check_head db =
     (case (root db, head db) of
        (Some r, Some h) \<Rightarrow>
          (case by_lib_block_num db of
             [] \<Rightarrow> assert_res (bid h = bid r) Fork_database_exception
           | candidate # _ \<Rightarrow>
               if \<not> validated candidate then assert_res (bid h = bid r) Fork_database_exception
               else assert_res (\<not> first_preferred candidate h) Fork_database_exception)
      | _ \<Rightarrow> Inl Undefined_behaviour)"

definition open_db :: "feature_validator \<Rightarrow> fork_file option \<Rightarrow> fork_db \<Rightarrow> fork_db result" where
  "open_db validator file db =
     (case file of
        None \<Rightarrow> Inr db
      | Some f \<Rightarrow>
          bind_res (fold_res (add_impl False True validator) (file_blocks f) (reset (file_root f) db)) (\<lambda>db1.
          case file_head f of
            None \<Rightarrow> Inl Unpack_error
          | Some head_id \<Rightarrow>
              let h = (if bid (file_root f) = head_id then root db1 else get_block db1 head_id);
                  db2 = db1\<lparr>head := h\<rparr> in
              bind_res (assert_res (h \<noteq> None) Fork_database_exception) (\<lambda>_.
              bind_res (check_head db2) (\<lambda>_. Inr db2))))"

end
