(* ===== verification/Fork_Invariant.thy ===== *)
theory Fork_Invariant
  imports Fork_Database
begin

text \<open>
  The invariant of the fork database and its preservation by every operation: the blocks form a tree
  above the root in which numbers grow by one and irreversible numbers never decrease, and the head is the root or a
  validated block that no other validated block is preferred to. The removal of a block is characterised
  exactly, by the set of its descendants.
\<close>

section \<open>The shape of the tree\<close>

definition follows :: "block_state \<Rightarrow> block_state \<Rightarrow> bool" where
  "follows p b \<longleftrightarrow> previous b = bid p \<and> block_num b = Suc (block_num p) \<and>
     dpos_irreversible_blocknum p \<le> dpos_irreversible_blocknum b"

definition fork_shape :: "block_state \<Rightarrow> block_state list \<Rightarrow> bool" where
  "fork_shape r idx \<longleftrightarrow> distinct (map bid idx) \<and> bid r \<notin> bid ` set idx \<and> validated r \<and>
     (\<forall>b\<in>set idx. \<exists>p\<in>insert r (set idx). follows p b)"

definition best_head :: "block_state \<Rightarrow> block_state \<Rightarrow> block_state list \<Rightarrow> bool" where
  "best_head r h idx \<longleftrightarrow> (h = r \<or> h \<in> set idx \<and> validated h) \<and>
     (\<forall>b\<in>set idx. validated b \<longrightarrow> \<not> first_preferred b h)"

definition fork_ok :: "fork_db \<Rightarrow> bool" where
  "fork_ok db \<longleftrightarrow>
     (case (root db, head db) of
        (Some r, Some h) \<Rightarrow> fork_shape r (index db) \<and> best_head r h (index db)
      | _ \<Rightarrow> False)"

lemma fork_okE:
  assumes "fork_ok db"
  obtains r h where "root db = Some r" "head db = Some h" "fork_shape r (index db)" "best_head r h (index db)"
  using assms by (auto simp: fork_ok_def split: option.splits)

lemma fork_okI:
  assumes "root db = Some r" "head db = Some h" "fork_shape r (index db)" "best_head r h (index db)"
  shows "fork_ok db"
  using assms by (simp add: fork_ok_def)

lemma fork_shape_distinct: "fork_shape r idx \<Longrightarrow> distinct (map bid idx)"
  by (simp add: fork_shape_def)

lemma fork_shape_parent:
  assumes "fork_shape r idx" "b \<in> set idx"
  obtains p where "p = r \<or> p \<in> set idx" "follows p b"
  using assms by (auto simp: fork_shape_def)

lemma same_block:
  assumes "distinct (map bid idx)" "a \<in> set idx" "b \<in> set idx" "bid a = bid b"
  shows "a = b"
  using assms by (auto simp: distinct_map inj_on_def)

lemma get_block_Some:
  assumes "get_block db i = Some b"
  shows "b \<in> set (index db)" "bid b = i"
  using assms by (auto simp: get_block_def find_Some_iff)

lemma get_block_None: "get_block db i = None \<longleftrightarrow> i \<notin> bid ` set (index db)"
  by (auto simp: get_block_def find_None_iff)

lemma get_block_in:
  assumes "distinct (map bid (index db))" "b \<in> set (index db)"
  shows "get_block db (bid b) = Some b"
proof -
  have "get_block db (bid b) \<noteq> None"
    using assms(2) by (auto simp: get_block_None)
  then obtain c where c: "get_block db (bid b) = Some c"
    by blast
  show ?thesis
    using same_block[OF assms(1) get_block_Some(1)[OF c] assms(2) get_block_Some(2)[OF c]] c by simp
qed

lemma block_num_above_root:
  assumes shape: "fork_shape r idx" and b: "b \<in> set idx"
  shows "block_num r < block_num b \<and> dpos_irreversible_blocknum r \<le> dpos_irreversible_blocknum b"
  using b
proof (induction "block_num b" arbitrary: b rule: less_induct)
  case less
  obtain p where p: "p = r \<or> p \<in> set idx" "follows p b"
    using fork_shape_parent[OF shape less.prems] .
  show ?case
  proof (cases "p = r")
    case True
    then show ?thesis using p(2) by (simp add: follows_def)
  next
    case False
    then have "block_num r < block_num p \<and> dpos_irreversible_blocknum r \<le> dpos_irreversible_blocknum p"
      using less.hyps[of p] p by (simp add: follows_def)
    then show ?thesis using p(2) by (simp add: follows_def)
  qed
qed

lemma validated_preferred_to_root:
  assumes "fork_shape r idx" "b \<in> set idx"
  shows "first_preferred b r"
  using block_num_above_root[OF assms] by (auto simp: first_preferred_def less_prod_def)

section \<open>The ordered view\<close>

lemma set_by_lib [simp]: "set (by_lib_block_num db) = set (index db)"
  by (simp add: by_lib_block_num_def)

lemma candidate_properties:
  assumes "index db \<noteq> []"
  shows "hd (by_lib_block_num db) \<in> set (index db)"
    and "b \<in> set (index db) \<Longrightarrow> lib_order (hd (by_lib_block_num db)) \<le> lib_order b"
proof -
  let ?xs = "by_lib_block_num db"
  have ne: "?xs \<noteq> []"
    using assms set_by_lib[of db] by (metis set_empty)
  then show "hd ?xs \<in> set (index db)"
    using hd_in_set[of ?xs] by simp
  have sorted: "sorted (map lib_order ?xs)"
    by (simp add: by_lib_block_num_def)
  show "lib_order (hd ?xs) \<le> lib_order b" if "b \<in> set (index db)"
  proof -
    obtain c cs where xs: "?xs = c # cs"
      using ne by (cases ?xs) auto
    have "b \<in> set ?xs"
      using that by simp
    then have "b = c \<or> b \<in> set cs" "\<forall>x\<in>set cs. lib_order c \<le> lib_order x"
      using sorted by (auto simp: xs)
    then show ?thesis
      by (auto simp: xs)
  qed
qed

lemma lib_order_validated:
  assumes "lib_order c \<le> lib_order b" "validated b"
  shows "validated c" "\<not> first_preferred b c"
  using assms by (auto simp: lib_order_def first_preferred_def less_eq_prod_def less_prod_def)

lemma candidate_best:
  assumes "b \<in> set (index db)" "validated b"
  shows "validated (hd (by_lib_block_num db))" "\<not> first_preferred b (hd (by_lib_block_num db))"
proof -
  have ne: "index db \<noteq> []"
    using assms(1) by auto
  show "validated (hd (by_lib_block_num db))" "\<not> first_preferred b (hd (by_lib_block_num db))"
    using lib_order_validated[OF candidate_properties(2)[OF ne assms(1)] assms(2)] by simp_all
qed

lemma first_preferred_trans:
  "first_preferred b h \<Longrightarrow> \<not> first_preferred b c \<Longrightarrow> first_preferred c h"
  by (auto simp: first_preferred_def less_prod_def)

section \<open>Adding and validating\<close>

definition admissible :: "block_state \<Rightarrow> fork_db \<Rightarrow> bool" where
  "admissible n db \<longleftrightarrow>
     (case root db of
        None \<Rightarrow> True
      | Some r \<Rightarrow> bid n \<noteq> bid r \<and>
          (case root_or_block r db (previous n) of None \<Rightarrow> True | Some p \<Rightarrow> follows p n))"

lemma root_or_block_Some:
  assumes "root_or_block r db i = Some p"
  shows "p = r \<or> p \<in> set (index db)" "bid p = i"
  using assms get_block_Some[of db i p] by (auto simp: root_or_block_def split: if_splits)

lemma fork_shape_append:
  assumes "fork_shape r idx" "p = r \<or> p \<in> set idx" "follows p n" "bid n \<noteq> bid r" "bid n \<notin> bid ` set idx"
  shows "fork_shape r (idx @ [n])"
  using assms by (auto simp: fork_shape_def)

definition insert_block :: "block_state \<Rightarrow> fork_db \<Rightarrow> fork_db" where
  "insert_block n db =
     (let db1 = db\<lparr>index := index db @ [n]\<rparr>; candidate = hd (by_lib_block_num db1) in
      if validated candidate then db1\<lparr>head := Some candidate\<rparr> else db1)"

lemma add_impl_unfold:
  assumes "root db = Some r"
  shows "add_impl dup vd validator n db =
    (case root_or_block r db (previous n) of
       None \<Rightarrow> Inl Unlinkable_block_exception
     | Some p \<Rightarrow>
         bind_res (if vd then validate_block validator p n else Inr ()) (\<lambda>_.
         if bid n \<in> bid ` set (index db) then (if dup then Inr db else Inl Fork_database_exception)
         else Inr (insert_block n db)))"
  by (cases "root_or_block r db (previous n)")
     (simp_all add: add_impl_def assms assert_res_def get_block_header_def insert_block_def get_block_None Let_def)

lemma add_impl_Inr:
  assumes "add_impl dup vd validator n db = Inr db'"
  obtains r p where "root db = Some r" "root_or_block r db (previous n) = Some p"
    "db' = db \<or> bid n \<notin> bid ` set (index db) \<and> db' = insert_block n db"
proof -
  obtain r where r: "root db = Some r"
    using assms by (cases "root db") (auto simp: add_impl_def assert_res_def)
  obtain p where p: "root_or_block r db (previous n) = Some p"
    using assms by (cases "root_or_block r db (previous n)") (auto simp: add_impl_unfold[OF r])
  have "db' = db \<or> bid n \<notin> bid ` set (index db) \<and> db' = insert_block n db"
    using assms by (auto simp: add_impl_unfold[OF r] p bind_res_eq_Inr split: if_splits)
  then show ?thesis
    using that[OF r p] by blast
qed

lemma insert_block_fields [simp]:
  "index (insert_block n db) = index db @ [n]"
  "root (insert_block n db) = root db"
  by (simp_all add: insert_block_def Let_def)

lemma best_head_candidate:
  assumes "b \<in> set (index db)" "validated b"
  shows "best_head r (hd (by_lib_block_num db)) (index db)"
proof -
  have ne: "index db \<noteq> []"
    using assms(1) by auto
  show ?thesis
    using candidate_properties(1)[OF ne] candidate_best(1)[OF assms] candidate_best(2)
    by (auto simp: best_head_def)
qed

lemma insert_block_head:
  assumes "head db = Some h" "best_head r h (index db)"
  obtains h' where "head (insert_block n db) = Some h'" "best_head r h' (index db @ [n])"
proof (cases "validated (hd (by_lib_block_num (db\<lparr>index := index db @ [n]\<rparr>)))")
  case True
  let ?db = "db\<lparr>index := index db @ [n]\<rparr>"
  have "hd (by_lib_block_num ?db) \<in> set (index ?db)"
    using candidate_properties(1)[of ?db] by simp
  from best_head_candidate[OF this True, of r] show ?thesis
    using that[of "hd (by_lib_block_num ?db)"] True by (simp add: insert_block_def Let_def)
next
  case False
  let ?db = "db\<lparr>index := index db @ [n]\<rparr>"
  have none: "\<not> validated b" if "b \<in> set (index db @ [n])" for b
    using candidate_best(1)[of b ?db] that False by auto
  have "best_head r h (index db @ [n])"
    using assms(2) none by (auto simp: best_head_def)
  then show ?thesis
    using that[of h] False assms(1) by (simp add: insert_block_def Let_def)
qed

lemma add_impl_fork_ok:
  assumes ok: "fork_ok db" and adm: "admissible n db" and add: "add_impl dup vd validator n db = Inr db'"
  shows "fork_ok db'"
proof -
  obtain r h where rh: "root db = Some r" "head db = Some h" "fork_shape r (index db)" "best_head r h (index db)"
    using fork_okE[OF ok] .
  obtain r' p where p: "root db = Some r'" "root_or_block r' db (previous n) = Some p"
    "db' = db \<or> bid n \<notin> bid ` set (index db) \<and> db' = insert_block n db"
    using add_impl_Inr[OF add] .
  have rr: "r' = r" using rh(1) p(1) by simp
  have fol: "follows p n" "bid n \<noteq> bid r"
    using adm p(2) rh(1) by (simp_all add: admissible_def rr)
  show ?thesis
  proof (cases "db' = db")
    case False
    then have new: "bid n \<notin> bid ` set (index db)" "db' = insert_block n db"
      using p(3) by simp_all
    obtain h' where h': "head db' = Some h'" "best_head r h' (index db @ [n])"
      using insert_block_head[OF rh(2,4), of n] new(2) by metis
    show ?thesis
      using fork_okI[of db' r h'] h' new(2) rh(1)
        fork_shape_append[OF rh(3) root_or_block_Some(1)[OF p(2)[unfolded rr]] fol new(1)] by simp
  qed (use ok in simp)
qed

definition set_valid :: "nat \<Rightarrow> block_state list \<Rightarrow> block_state list" where
  "set_valid i idx = map (\<lambda>b. if bid b = i then b\<lparr>validated := True\<rparr> else b) idx"

lemma follows_validated [simp]:
  "follows (p\<lparr>validated := v\<rparr>) b = follows p b" "follows p (b\<lparr>validated := v\<rparr>) = follows p b"
  by (simp_all add: follows_def)

lemma first_preferred_validated [simp]:
  "first_preferred (p\<lparr>validated := v\<rparr>) b = first_preferred p b"
  "first_preferred p (b\<lparr>validated := v\<rparr>) = first_preferred p b"
  by (simp_all add: first_preferred_def)

lemma fork_shape_map:
  assumes "fork_shape r idx" "\<And>b. \<exists>v. f b = b\<lparr>validated := v\<rparr>"
  shows "fork_shape r (map f idx)"
proof -
  have f: "bid (f b) = bid b" "follows p (f b) = follows p b" "follows (f b) p = follows b p" for b p
    using assms(2)[of b] by auto
  have "map bid (map f idx) = map bid idx" "bid ` set (map f idx) = bid ` set idx"
    by (auto simp: f image_iff)
  moreover have "\<exists>p\<in>insert r (set (map f idx)). follows p b" if b: "b \<in> set (map f idx)" for b
  proof -
    from b obtain c where c: "c \<in> set idx" "b = f c" by auto
    obtain p where "p = r \<or> p \<in> set idx" "follows p c"
      using fork_shape_parent[OF assms(1) c(1)] .
    then show ?thesis using c(2) f by auto
  qed
  ultimately show ?thesis
    using assms(1) unfolding fork_shape_def by metis
qed

lemma set_valid_set:
  assumes "c \<in> set (set_valid i idx)"
  obtains b where "b \<in> set idx" "c = b" "bid b \<noteq> i" | b where "b \<in> set idx" "c = b\<lparr>validated := True\<rparr>" "bid b = i"
  using assms by (auto simp: set_valid_def split: if_splits)

lemma fork_shape_set_valid:
  assumes "fork_shape r idx"
  shows "fork_shape r (set_valid i idx)"
  unfolding set_valid_def
proof (rule fork_shape_map[OF assms])
  show "\<exists>v. (if bid b = i then b\<lparr>validated := True\<rparr> else b) = b\<lparr>validated := v\<rparr>" for b
    by (cases b) auto
qed

lemma mark_valid_unfold:
  assumes "head db = Some h"
  shows "mark_valid b db =
    (if validated b then Inr db
     else if bid b \<notin> bid ` set (index db) then Inl Fork_database_exception
     else let db1 = db\<lparr>index := set_valid (bid b) (index db)\<rparr>; c = hd (by_lib_block_num db1) in
          Inr (if first_preferred c h then db1\<lparr>head := Some c\<rparr> else db1))"
  by (simp add: mark_valid_def assms get_block_None assert_res_def set_valid_def)

lemma mark_valid_fork_ok:
  assumes ok: "fork_ok db" and mark: "mark_valid b db = Inr db'"
  shows "fork_ok db'"
proof (cases "validated b")
  case True
  then show ?thesis using ok mark by (simp add: mark_valid_def)
next
  case False
  obtain r h where rh: "root db = Some r" "head db = Some h" "fork_shape r (index db)" "best_head r h (index db)"
    using fork_okE[OF ok] .
  let ?idx = "set_valid (bid b) (index db)"
  let ?db1 = "db\<lparr>index := ?idx\<rparr>"
  let ?c = "hd (by_lib_block_num ?db1)"
  have mem: "bid b \<in> bid ` set (index db)"
    and db': "db' = (if first_preferred ?c h then ?db1\<lparr>head := Some ?c\<rparr> else ?db1)"
    using mark False by (auto simp: mark_valid_unfold[OF rh(2)] Let_def split: if_splits)
  obtain b' where b': "b' \<in> set (index db)" "bid b' = bid b"
    using mem by auto
  have v: "b'\<lparr>validated := True\<rparr> \<in> set (index ?db1)"
    using b' by (force simp: set_valid_def)
  have best: "best_head r ?c ?idx"
    using best_head_candidate[OF v] by simp
  have h_in: "h = r \<or> h \<in> set ?idx \<and> validated h"
    using rh(4) by (force simp: best_head_def set_valid_def)
  show ?thesis
  proof (cases "first_preferred ?c h")
    case True
    then show ?thesis
      using fork_okI[of db' r ?c] rh(1) fork_shape_set_valid[OF rh(3)] best by (simp add: db')
  next
    case False
    then have "best_head r h ?idx"
      using h_in best first_preferred_trans by (auto simp: best_head_def)
    then show ?thesis
      using fork_okI[of db' r h] rh(1,2) fork_shape_set_valid[OF rh(3)] False by (simp add: db')
  qed
qed

lemma reset_fork_ok: "fork_ok (reset b db)"
  by (simp add: fork_ok_def reset_def Let_def fork_shape_def best_head_def)

lemma rollback_fork_ok:
  assumes "fork_ok db"
  shows "fork_ok (rollback_head_to_root db)"
proof -
  obtain r h where rh: "root db = Some r" "fork_shape r (index db)"
    using fork_okE[OF assms] by metis
  have "fork_shape r (map (\<lambda>b. b\<lparr>validated := False\<rparr>) (index db))"
    by (rule fork_shape_map[OF rh(2)]) blast
  then show ?thesis
    using rh(1) by (simp add: fork_ok_def rollback_head_to_root_def best_head_def)
qed

section \<open>Removing a block and its descendants\<close>

definition kids :: "block_state list \<Rightarrow> (nat \<times> nat) set" where
  "kids idx = {(previous b, bid b) | b. b \<in> set idx}"

definition descendants :: "block_state list \<Rightarrow> nat \<Rightarrow> nat set" where
  "descendants idx i = (kids idx)\<^sup>* `` {i}"

definition acyclic_index :: "block_state list \<Rightarrow> (nat \<Rightarrow> nat) \<Rightarrow> bool" where
  "acyclic_index idx rk \<longleftrightarrow> distinct (map bid idx) \<and> (\<forall>b\<in>set idx. rk (previous b) < rk (bid b))"

lemma descendants_self [simp]: "i \<in> descendants idx i"
  by (simp add: descendants_def)

lemma descendants_step:
  assumes "previous b \<in> descendants idx i" "b \<in> set idx"
  shows "bid b \<in> descendants idx i"
proof -
  have "(previous b, bid b) \<in> kids idx"
    using assms(2) by (auto simp: kids_def)
  then show ?thesis
    using assms(1) by (auto simp: descendants_def intro: rtrancl_into_rtrancl)
qed

lemma descendants_induct [consumes 1, case_names self step]:
  assumes "x \<in> descendants idx i" "P i"
    and "\<And>b. b \<in> set idx \<Longrightarrow> previous b \<in> descendants idx i \<Longrightarrow> P (previous b) \<Longrightarrow> P (bid b)"
  shows "P x"
proof -
  have "(i, x) \<in> (kids idx)\<^sup>*"
    using assms(1) by (simp add: descendants_def)
  then show ?thesis
  proof (induction rule: rtrancl_induct)
    case base
    then show ?case using assms(2) .
  next
    case (step y z)
    then obtain b where "b \<in> set idx" "y = previous b" "z = bid b"
      by (auto simp: kids_def)
    then show ?case
      using assms(3)[of b] step by (simp add: descendants_def)
  qed
qed

lemma descendants_rank:
  assumes "acyclic_index idx rk" "x \<in> descendants idx i"
  shows "rk i \<le> rk x"
  using assms(2)
proof (induction rule: descendants_induct)
  case (step b)
  then show ?case using assms(1) by (force simp: acyclic_index_def)
qed simp

lemma descendants_parent:
  assumes "acyclic_index idx rk" "b \<in> set idx" "bid b \<in> descendants idx i" "bid b \<noteq> i"
  shows "previous b \<in> descendants idx i"
proof -
  have "\<forall>b. b \<in> set idx \<longrightarrow> bid b = x \<longrightarrow> x \<noteq> i \<longrightarrow> previous b \<in> descendants idx i"
    if "x \<in> descendants idx i" for x
    using that
  proof (induction rule: descendants_induct)
    case (step c)
    then show ?case
      using same_block[of idx c] assms(1) unfolding acyclic_index_def by metis
  qed simp
  then show ?thesis using assms by blast
qed

definition queue_inv :: "block_state list \<Rightarrow> nat \<Rightarrow> nat \<Rightarrow> nat list \<Rightarrow> nat list \<Rightarrow> bool" where
  "queue_inv idx head_id i queue visited \<longleftrightarrow>
     distinct (visited @ queue) \<and> i \<in> set (visited @ queue) \<and> set (visited @ queue) \<subseteq> descendants idx i \<and>
     (\<forall>b\<in>set idx. bid b \<in> set (visited @ queue) \<longrightarrow> bid b \<noteq> i \<longrightarrow> previous b \<in> set visited) \<and>
     set (visited @ queue) \<subseteq> insert i (bid ` set idx) \<and>
     (\<forall>b\<in>set idx. previous b \<in> set visited \<longrightarrow> bid b \<in> set (visited @ queue)) \<and>
     head_id \<notin> set visited"

lemma queue_inv_step:
  assumes ac: "acyclic_index idx rk" and inv: "queue_inv idx head_id i (q # queue) visited" and nh: "q \<noteq> head_id"
  shows "queue_inv idx head_id i (queue @ map bid (filter (\<lambda>b. previous b = q) idx)) (q # visited)"
proof -
  let ?k = "map bid (filter (\<lambda>b. previous b = q) idx)"
  have d: "distinct (map bid idx)" and rk: "b \<in> set idx \<Longrightarrow> rk (previous b) < rk (bid b)" for b
    using ac by (auto simp: acyclic_index_def)
  have old: "i \<in> set (visited @ q # queue)" "set (visited @ q # queue) \<subseteq> descendants idx i"
    "\<forall>b\<in>set idx. bid b \<in> set (visited @ q # queue) \<longrightarrow> bid b \<noteq> i \<longrightarrow> previous b \<in> set visited"
    "set (visited @ q # queue) \<subseteq> insert i (bid ` set idx)"
    "\<forall>b\<in>set idx. previous b \<in> set visited \<longrightarrow> bid b \<in> set (visited @ q # queue)"
    "head_id \<notin> set visited"
    using inv unfolding queue_inv_def by - (elim conjE, assumption)+
  have q: "q \<in> descendants idx i" "q \<notin> set visited"
    using inv by (auto simp: queue_inv_def)
  have k: "x \<in> set ?k \<longleftrightarrow> (\<exists>b\<in>set idx. bid b = x \<and> previous b = q)" for x
    by auto
  have fresh: "x \<notin> set (visited @ q # queue)" if xk: "x \<in> set ?k" for x
  proof
    assume x: "x \<in> set (visited @ q # queue)"
    obtain b where b: "b \<in> set idx" "bid b = x" "previous b = q"
      using xk by auto
    have "bid b \<noteq> i"
      using rk[OF b(1)] descendants_rank[OF ac q(1)] b(3) by auto
    then show False
      using inv x b q(2) by (auto simp: queue_inv_def)
  qed
  have dk: "distinct ?k"
    using d by (rule distinct_map_filter)
  have uniq: "previous b = q" if "b \<in> set idx" "bid b \<in> set ?k" for b
    using that k[of "bid b"] same_block[OF d, of b] by metis
  have dj: "distinct ((q # visited) @ queue @ ks)"
    if "distinct (visited @ q # queue)" "distinct ks" "\<And>x. x \<in> set ks \<Longrightarrow> x \<notin> set (visited @ q # queue)" for ks
    using that by auto
  have c1: "distinct ((q # visited) @ queue @ ?k)"
    by (rule dj[OF _ dk fresh]) (use inv in \<open>simp_all only: queue_inv_def\<close>)
  have new: "set ((q # visited) @ queue @ ?k) = set (visited @ q # queue) \<union> set ?k"
    by auto
  have sub: "set ?k \<subseteq> descendants idx i" "set ?k \<subseteq> bid ` set idx"
    using q(1) by (auto intro: descendants_step)
  have c4: "previous b \<in> set (q # visited)"
    if "b \<in> set idx" "bid b \<in> set ((q # visited) @ queue @ ?k)" "bid b \<noteq> i" for b
  proof (cases "bid b \<in> set ?k")
    case True
    then show ?thesis using uniq[OF that(1)] by simp
  next
    case False
    then have "bid b \<in> set (visited @ q # queue)"
      using that(2) unfolding new by blast
    then have "previous b \<in> set visited"
      using old(3) that(1,3) by blast
    then show ?thesis by simp
  qed
  have c6: "bid b \<in> set ((q # visited) @ queue @ ?k)"
    if "b \<in> set idx" "previous b \<in> set (q # visited)" for b
    using that old(5) k[of "bid b"] unfolding new by (cases "previous b = q") auto
  have c: "i \<in> set ((q # visited) @ queue @ ?k)" "set ((q # visited) @ queue @ ?k) \<subseteq> descendants idx i"
    "set ((q # visited) @ queue @ ?k) \<subseteq> insert i (bid ` set idx)"
    unfolding new using old(1,2,4) sub by blast+
  have c7: "head_id \<notin> set (q # visited)"
    using old(6) nh by simp
  show ?thesis
    unfolding queue_inv_def using c1 c c4 c6 c7 by (intro conjI ballI impI) assumption+
qed

lemma queue_inv_length:
  assumes "queue_inv idx head_id i queue visited"
  shows "length (visited @ queue) \<le> Suc (length idx)"
proof -
  have "length (visited @ queue) = card (set (visited @ queue))"
    using assms by (intro distinct_card[symmetric]) (simp only: queue_inv_def)
  also have "\<dots> \<le> card (insert i (bid ` set idx))"
    using assms by (intro card_mono) (auto simp: queue_inv_def)
  also have "\<dots> \<le> Suc (card (bid ` set idx))"
    by (simp add: card_insert_if)
  also have "\<dots> \<le> Suc (length idx)"
    using card_image_le[of "set idx" bid] card_length[of idx] by (simp add: le_trans)
  finally show ?thesis .
qed

lemma collect_queue_result:
  assumes "acyclic_index idx rk" "queue_inv idx head_id i queue visited"
    and "Suc (length idx) \<le> fuel + length visited"
  shows "if head_id \<in> descendants idx i then collect_queue fuel idx head_id queue visited = Inl Fork_database_exception
         else \<exists>ys. collect_queue fuel idx head_id queue visited = Inr ys \<and> set ys = descendants idx i"
  using assms
proof (induction fuel idx head_id queue visited rule: collect_queue.induct)
  case (1 fuel idx head_id visited)
  have "x \<in> set visited" if "x \<in> descendants idx i" for x
    using that
  proof (induction rule: descendants_induct)
    case (step b)
    then show ?case using "1.prems"(2) by (auto simp: queue_inv_def)
  qed (use "1.prems"(2) in \<open>simp add: queue_inv_def\<close>)
  then have "set visited = descendants idx i"
    using "1.prems"(2) by (auto simp: queue_inv_def)
  then show ?case
    using "1.prems"(2) by (simp add: queue_inv_def)
next
  case (2 idx head_id q queue visited)
  then show ?case
    using queue_inv_length[OF "2.prems"(2)] by simp
next
  case (3 fuel idx head_id q queue visited)
  show ?case
  proof (cases "q = head_id")
    case True
    then show ?thesis using "3.prems"(2) by (auto simp: queue_inv_def)
  next
    case False
    then show ?thesis
      using "3.IH"[OF False "3.prems"(1) queue_inv_step[OF "3.prems"(1,2) False]] "3.prems"(3) by simp
  qed
qed

lemma remove_blocks_result:
  assumes ac: "acyclic_index (index db) rk" and h: "head db = Some h"
  shows "remove_blocks i db =
    (if bid h \<in> descendants (index db) i then Inl Fork_database_exception
     else Inr (db\<lparr>index := filter (\<lambda>b. bid b \<notin> descendants (index db) i) (index db)\<rparr>))"
proof -
  have inv: "queue_inv (index db) (bid h) i [i] []"
    by (simp add: queue_inv_def)
  show ?thesis
    using collect_queue_result[OF ac inv, of "Suc (length (index db))"]
    by (auto simp: remove_blocks_def h simp del: collect_queue.simps split: if_splits)
qed

definition num_of :: "block_state \<Rightarrow> block_state list \<Rightarrow> nat \<Rightarrow> nat" where
  "num_of r idx i = (case find (\<lambda>b. bid b = i) (r # idx) of None \<Rightarrow> 0 | Some b \<Rightarrow> block_num b)"

lemma num_of_block:
  assumes "fork_shape r idx" "b = r \<or> b \<in> set idx"
  shows "num_of r idx (bid b) = block_num b"
proof -
  have d: "distinct (map bid (r # idx))"
    using assms(1) by (simp add: fork_shape_def)
  obtain c where c: "find (\<lambda>c. bid c = bid b) (r # idx) = Some c"
    using assms(2) find_None_iff[of "\<lambda>c. bid c = bid b" "r # idx"]
    by (cases "find (\<lambda>c. bid c = bid b) (r # idx)") (auto simp del: find.simps)
  then have "c \<in> set (r # idx)" "bid c = bid b"
    unfolding find_Some_iff using nth_mem by blast+
  then have "c = b"
    using same_block[OF d, of c b] assms(2) by auto
  then show ?thesis using c by (simp add: num_of_def)
qed

lemma fork_shape_acyclic:
  assumes shape: "fork_shape r idx"
  shows "acyclic_index idx (num_of r idx)"
proof -
  have "num_of r idx (previous b) < num_of r idx (bid b)" if b: "b \<in> set idx" for b
  proof -
    obtain p where p: "p = r \<or> p \<in> set idx" "follows p b"
      using fork_shape_parent[OF shape b] .
    then show ?thesis
      using num_of_block[OF shape p(1)] num_of_block[OF shape, of b] b by (simp add: follows_def)
  qed
  then show ?thesis
    using shape by (simp add: acyclic_index_def fork_shape_def)
qed

lemma acyclic_index_filter: "acyclic_index idx rk \<Longrightarrow> acyclic_index (filter P idx) rk"
  by (auto simp: acyclic_index_def distinct_map_filter)

lemma remove_blocks_fork_ok:
  assumes ok: "fork_ok db" and rem: "remove_blocks i db = Inr db'"
  shows "fork_ok db'"
proof -
  obtain r h where rh: "root db = Some r" "head db = Some h" "fork_shape r (index db)" "best_head r h (index db)"
    using fork_okE[OF ok] .
  let ?D = "descendants (index db) i"
  have h: "bid h \<notin> ?D" and db': "db' = db\<lparr>index := filter (\<lambda>b. bid b \<notin> ?D) (index db)\<rparr>"
    using rem by (auto simp: remove_blocks_result[OF fork_shape_acyclic[OF rh(3)] rh(2)] split: if_splits)
  have parent: "\<exists>p\<in>insert r (set (index db')). follows p b" if b: "b \<in> set (index db')" for b
  proof -
    have bi: "b \<in> set (index db)" "bid b \<notin> ?D"
      using b by (simp_all add: db')
    obtain p where p: "p = r \<or> p \<in> set (index db)" "follows p b"
      using fork_shape_parent[OF rh(3) bi(1)] .
    have "bid p \<notin> ?D"
      using descendants_step[of b "index db" i] bi p(2) by (auto simp: follows_def)
    then show ?thesis using p by (auto simp: db')
  qed
  have "fork_shape r (index db')"
    using rh(3) parent by (auto simp: fork_shape_def db' distinct_map_filter)
  moreover have "best_head r h (index db')"
    using rh(4) h by (auto simp: best_head_def db')
  ultimately show ?thesis
    using rh(1,2) by (intro fork_okI) (simp_all add: db')
qed


section \<open>Advancing the root\<close>

lemma descendants_filter:
  assumes closed: "\<And>b. b \<in> set idx \<Longrightarrow> previous b \<in> D \<Longrightarrow> bid b \<in> D"
  shows "descendants (filter (\<lambda>b. bid b \<notin> D) idx) a \<union> D = descendants idx a \<union> D"
proof -
  have "x \<in> descendants idx a" if "x \<in> descendants (filter (\<lambda>b. bid b \<notin> D) idx) a" for x
    using that
  proof (induction rule: descendants_induct)
    case (step b)
    then show ?case using descendants_step[of b idx a] by simp
  qed simp
  moreover have "x \<in> descendants (filter (\<lambda>b. bid b \<notin> D) idx) a \<union> D" if "x \<in> descendants idx a" for x
    using that
  proof (induction rule: descendants_induct)
    case (step b)
    then show ?case
      using closed[OF step(1)] descendants_step[of b "filter (\<lambda>b. bid b \<notin> D) idx" a] by auto
  qed simp
  ultimately show ?thesis by auto
qed

text \<open>
  The loop over the ancestors removes the union of their descendants, unless the head is among these.
\<close>

lemma remove_each_result:
  fixes as :: "nat list"
  assumes "acyclic_index (index db) rk" "head db = Some h"
  defines "D \<equiv> (\<Union>a\<in>set as. descendants (index db) a)"
  shows "if bid h \<in> D then snd (remove_each as db) = Inl Fork_database_exception
         else remove_each as db = (db\<lparr>index := filter (\<lambda>b. bid b \<notin> D) (index db)\<rparr>, Inr ())"
  using assms(1,2) unfolding D_def
proof (induction as arbitrary: db)
  case Nil
  then show ?case by simp
next
  case (Cons a as)
  let ?A = "descendants (index db) a"
  let ?db = "db\<lparr>index := filter (\<lambda>b. bid b \<notin> ?A) (index db)\<rparr>"
  let ?U = "\<lambda>idx. \<Union>a\<in>set as. descendants idx a"
  have un: "descendants (index ?db) x \<union> ?A = descendants (index db) x \<union> ?A" for x
    using descendants_filter[of "index db" ?A x] descendants_step by fastforce
  then have U: "?U (index ?db) \<union> ?A = ?U (index db) \<union> ?A"
    by blast
  note rem = remove_blocks_result[OF Cons.prems, of a]
  show ?case
  proof (cases "bid h \<in> ?A")
    case True
    then show ?thesis using rem by simp
  next
    case False
    have IH: "if bid h \<in> ?U (index ?db) then snd (remove_each as ?db) = Inl Fork_database_exception
       else remove_each as ?db = (?db\<lparr>index := filter (\<lambda>b. bid b \<notin> ?U (index ?db)) (index ?db)\<rparr>, Inr ())"
      using Cons.IH[of ?db] acyclic_index_filter[OF Cons.prems(1)] Cons.prems(2) by simp
    have h: "bid h \<in> ?U (index ?db) \<longleftrightarrow> bid h \<in> ?A \<union> ?U (index db)"
      using U False by blast
    have "filter (\<lambda>b. bid b \<notin> ?U (index ?db)) (index ?db) = filter (\<lambda>b. bid b \<notin> ?A \<union> ?U (index db)) (index db)"
      using U by (auto simp: filter_filter intro!: filter_cong)
    then show ?thesis
      using IH rem False h by simp
  qed
qed

lemma ancestor_ids_result:
  assumes shape: "fork_shape r (index db)" and b: "b \<in> set (index db)"
    and fuel: "block_num b \<le> block_num r + fuel"
  shows "\<exists>as. ancestor_ids fuel db (bid r) b = Inr as \<and> bid r \<in> set as \<and>
    (\<forall>a\<in>set as. num_of r (index db) a < block_num b)"
  using b fuel
proof (induction fuel arbitrary: b)
  case 0
  then show ?case using block_num_above_root[OF shape "0.prems"(1)] by simp
next
  case (Suc fuel)
  obtain p where p: "p = r \<or> p \<in> set (index db)" "follows p b"
    using fork_shape_parent[OF shape Suc.prems(1)] .
  note pn = num_of_block[OF shape p(1)]
  show ?case
  proof (cases "p \<in> set (index db)")
    case True
    then have g: "get_block db (previous b) = Some p"
      using get_block_in[OF fork_shape_distinct[OF shape] True] p(2) by (simp add: follows_def)
    obtain as where "ancestor_ids fuel db (bid r) p = Inr as" "bid r \<in> set as"
      "\<forall>a\<in>set as. num_of r (index db) a < block_num p"
      using Suc.IH[OF True] Suc.prems(2) p(2) by (auto simp: follows_def)
    then show ?thesis
      using g pn p(2) by (auto simp: follows_def)
  next
    case False
    then have "p = r" "get_block db (previous b) = None"
      using p shape by (auto simp: get_block_None follows_def fork_shape_def)
    then show ?thesis
      using pn p(2) by (auto simp: follows_def)
  qed
qed

lemma block_num_bound:
  assumes shape: "fork_shape r idx" and b: "b \<in> set idx"
  shows "block_num b \<le> block_num r + length idx"
proof -
  have "{block_num r <.. block_num b} \<subseteq> block_num ` set idx" if "b \<in> set idx" for b
    using that
  proof (induction "block_num b" arbitrary: b rule: less_induct)
    case less
    obtain p where p: "p = r \<or> p \<in> set idx" "follows p b"
      using fork_shape_parent[OF shape less.prems] .
    have "{block_num r <.. block_num b} = insert (block_num b) {block_num r <.. block_num p}"
      using p(2) block_num_above_root[OF shape less.prems] by (auto simp: follows_def)
    moreover have "{block_num r <.. block_num p} \<subseteq> block_num ` set idx"
      using p less.hyps[of p] by (auto simp: follows_def)
    ultimately show ?case using less.prems by auto
  qed
  from this[OF b] have "card {block_num r <.. block_num b} \<le> card (block_num ` set idx)"
    by (intro card_mono) auto
  also have "\<dots> \<le> length idx"
    using card_image_le[of "set idx" block_num] card_length[of idx] by simp
  finally show ?thesis by simp
qed

text \<open>
  Once the new root is erased, its descendants are exactly the blocks that none of its ancestors reaches.
\<close>

lemma survivors:
  assumes shape: "fork_shape r idx" and n: "n \<in> set idx" and b: "b \<in> set idx" "bid b \<noteq> bid n"
    and as: "bid r \<in> A" "\<And>a. a \<in> A \<Longrightarrow> num_of r idx a < block_num n"
  defines "idx1 \<equiv> filter (\<lambda>b. bid b \<noteq> bid n) idx"
  shows "bid b \<notin> (\<Union>a\<in>A. descendants idx1 a) \<longleftrightarrow> bid b \<in> descendants idx (bid n)"
proof -
  let ?rk = "num_of r idx"
  note ac = fork_shape_acyclic[OF shape]
  have nn: "?rk (bid n) = block_num n"
    using num_of_block[OF shape] n by simp
  have out: "x \<notin> descendants idx (bid n)" if "x \<in> descendants idx1 a" "a \<in> A" for x a
    using that
  proof (induction rule: descendants_induct)
    case self
    then show ?case
      using descendants_rank[OF ac, of a "bid n"] as(2)[of a] nn by auto
  next
    case (step c)
    then show ?case
      using descendants_parent[OF ac, of c "bid n"] by (auto simp: idx1_def)
  qed
  have "bid b \<in> descendants idx1 (bid r)" if "bid b \<notin> descendants idx (bid n)"
    using b(1) that
  proof (induction "block_num b" arbitrary: b rule: less_induct)
    case less
    obtain p where p: "p = r \<or> p \<in> set idx" "follows p b"
      using fork_shape_parent[OF shape less.prems(1)] .
    have pD: "bid p \<notin> descendants idx (bid n)"
      using descendants_step[of b idx "bid n"] less.prems p(2) by (auto simp: follows_def)
    have "bid p \<in> descendants idx1 (bid r)"
      using p less.hyps[of p] pD by (auto simp: follows_def)
    moreover have "b \<in> set idx1"
      using less.prems by (auto simp: idx1_def)
    ultimately show ?case
      using descendants_step[of b idx1 "bid r"] p(2) by (simp add: follows_def)
  qed
  then show ?thesis
    using out as(1) by blast
qed

lemma head_survives:
  assumes shape: "fork_shape r idx" and n: "n \<in> set idx" and h: "h = r \<or> h \<in> set idx"
    and as: "bid r \<in> A" "\<And>a. a \<in> A \<Longrightarrow> num_of r idx a < block_num n"
  defines "idx1 \<equiv> filter (\<lambda>b. bid b \<noteq> bid n) idx"
  shows "bid h \<notin> (\<Union>a\<in>A. descendants idx1 a) \<longleftrightarrow> bid h \<in> descendants idx (bid n)"
proof -
  have nn: "num_of r idx (bid n) = block_num n"
    using num_of_block[OF shape] n by simp
  consider "h = r" | "h \<in> set idx" "bid h = bid n" | "h \<in> set idx" "bid h \<noteq> bid n"
    using h by blast
  then show ?thesis
  proof cases
    case 1
    then show ?thesis
      using descendants_rank[OF fork_shape_acyclic[OF shape], of "bid r" "bid n"] as nn by force
  next
    case 2
    have "x \<noteq> bid n" if "x \<in> descendants idx1 a" "a \<in> A" for x a
      using that
    proof (induction rule: descendants_induct)
      case self
      then show ?case using as(2)[of a] nn by auto
    qed (simp add: idx1_def)
    then show ?thesis using 2 by auto
  next
    case 3
    show ?thesis
      unfolding idx1_def by (rule survivors[OF shape n 3 as])
  qed
qed


end
