(* ===== verification/Fork_Properties.thy ===== *)
theory Fork_Properties
  imports Fork_Invariant
begin

text \<open>
  Properties of the fork database over all sequences of its operations: the head is always a best validated block,
  removal and the advance of the root keep exactly the right subtree, the two branches that a fork switch
  follows end at the nearest common ancestor, and a closed database opens to the same tree.
\<close>

section \<open>Advancing the root\<close>

lemma advance_root_result:
  assumes ok: "fork_ok db" and h: "head db = Some h" and n: "get_block db i = Some n" "validated n"
  shows "if bid h \<in> descendants (index db) i
    then advance_root i db =
      (db\<lparr>index := filter (\<lambda>b. bid b \<noteq> i \<and> bid b \<in> descendants (index db) i) (index db), root := Some n\<rparr>, Inr ())
    else snd (advance_root i db) = Inl Fork_database_exception"
proof -
  obtain r where r: "root db = Some r" "fork_shape r (index db)" "best_head r h (index db)"
    using fork_okE[OF ok] h by (metis option.inject)
  note nb = get_block_Some[OF n(1)]
  obtain as where as: "ancestor_ids (Suc (length (index db))) db (bid r) n = Inr as" "bid r \<in> set as"
    "\<forall>a\<in>set as. num_of r (index db) a < block_num n"
    using ancestor_ids_result[OF r(2) nb(1), of "Suc (length (index db))"] block_num_bound[OF r(2) nb(1)]
    by auto
  let ?idx1 = "filter (\<lambda>b. bid b \<noteq> bid n) (index db)"
  let ?db1 = "db\<lparr>index := ?idx1\<rparr>"
  let ?D = "\<Union>a\<in>set as. descendants ?idx1 a"
  have adv: "advance_root i db =
    (case remove_each as ?db1 of (db2, Inl e) \<Rightarrow> (db2, Inl e) | (db2, Inr _) \<Rightarrow> (db2\<lparr>root := Some n\<rparr>, Inr ()))"
    using as(1) nb(2) by (simp add: advance_root_def r(1) n del: ancestor_ids.simps)
  have rem: "if bid h \<in> ?D then snd (remove_each as ?db1) = Inl Fork_database_exception
      else remove_each as ?db1 = (?db1\<lparr>index := filter (\<lambda>b. bid b \<notin> ?D) ?idx1\<rparr>, Inr ())"
    using remove_each_result[of ?db1 "num_of r (index db)" h as] h
      acyclic_index_filter[OF fork_shape_acyclic[OF r(2)]] by simp
  have hD: "bid h \<notin> ?D \<longleftrightarrow> bid h \<in> descendants (index db) i"
    using head_survives[OF r(2) nb(1) _ as(2), of h] r(3) as(3) nb(2) by (auto simp: best_head_def)
  have idx: "filter (\<lambda>b. bid b \<notin> ?D) ?idx1 =
      filter (\<lambda>b. bid b \<noteq> i \<and> bid b \<in> descendants (index db) i) (index db)"
    unfolding filter_filter
  proof (rule filter_cong[OF refl])
    show "(bid b \<noteq> bid n \<and> bid b \<notin> ?D) = (bid b \<noteq> i \<and> bid b \<in> descendants (index db) i)" if "b \<in> set (index db)" for b
      using survivors[OF r(2) nb(1) that _ as(2)] as(3) nb(2) by auto
  qed
  show ?thesis
  proof (cases "bid h \<in> ?D")
    case True
    then have "snd (remove_each as ?db1) = Inl Fork_database_exception"
      using rem by simp
    then show ?thesis
      using hD True unfolding adv by (cases "remove_each as ?db1") auto
  next
    case False
    then show ?thesis
      using rem hD idx unfolding adv by simp
  qed
qed

lemma advance_root_Inr:
  assumes "advance_root i db = (db', Inr ())"
  obtains n where "get_block db i = Some n" "validated n"
  using assms by (cases "root db"; cases "get_block db i"; cases "validated (the (get_block db i))")
    (auto simp: advance_root_def)

lemma advance_root_fork_ok:
  assumes ok: "fork_ok db" and adv: "advance_root i db = (db', Inr ())"
  shows "fork_ok db'"
proof -
  obtain r h where rh: "root db = Some r" "head db = Some h" "fork_shape r (index db)" "best_head r h (index db)"
    using fork_okE[OF ok] .
  obtain n where n: "get_block db i = Some n" "validated n"
    using advance_root_Inr[OF adv] .
  note nb = get_block_Some[OF n(1)]
  let ?P = "\<lambda>b. bid b \<noteq> i \<and> bid b \<in> descendants (index db) i"
  have hD: "bid h \<in> descendants (index db) i" and
    db': "db' = db\<lparr>index := filter ?P (index db), root := Some n\<rparr>"
    using advance_root_result[OF ok rh(2) n] adv by (auto split: if_splits)
  note ac = fork_shape_acyclic[OF rh(3)]
  have parent: "\<exists>p\<in>insert n (set (filter ?P (index db))). follows p b" if b: "b \<in> set (filter ?P (index db))" for b
  proof -
    obtain p where p: "p = r \<or> p \<in> set (index db)" "follows p b"
      using fork_shape_parent[OF rh(3)] b by auto
    have pD: "bid p \<in> descendants (index db) i"
      using descendants_parent[OF ac, of b i] b p(2) by (auto simp: follows_def)
    have "p \<noteq> r"
      using descendants_rank[OF ac pD] num_of_block[OF rh(3), of r] num_of_block[OF rh(3), of n]
        block_num_above_root[OF rh(3) nb(1)] nb by auto
    then have "p \<in> set (index db)"
      using p(1) by simp
    then show ?thesis
      using pD p(2) nb same_block[OF fork_shape_distinct[OF rh(3)], of p n] by auto
  qed
  have shape: "fork_shape n (filter ?P (index db))"
    using rh(3) parent n(2) nb(2) by (auto simp: fork_shape_def distinct_map_filter)
  have "h \<noteq> r"
    using validated_preferred_to_root[OF rh(3) nb(1)] rh(4) nb(1) n(2) by (auto simp: best_head_def)
  then have "h = n \<or> h \<in> set (filter ?P (index db)) \<and> validated h"
    using rh(4) hD nb same_block[OF fork_shape_distinct[OF rh(3)], of h n] by (auto simp: best_head_def)
  then have "best_head n h (filter ?P (index db))"
    using rh(4) by (auto simp: best_head_def)
  then show ?thesis
    using shape rh(2) by (intro fork_okI) (simp_all add: db')
qed

section \<open>Reachable databases\<close>

text \<open>
  One call of the controller. A block given to \<open>add\<close> succeeds its parent: its number is the next one and its irreversible number
  is not smaller, which \<open>block_header_state::next\<close> guarantees while the schedule stays; its id, which contains its
  number, is not that of the root.
\<close>

inductive fork_step :: "fork_db \<Rightarrow> fork_db \<Rightarrow> bool" where
  add: "admissible n db \<Longrightarrow> add n ignore_duplicate db = Inr db' \<Longrightarrow> fork_step db db'"
| mark_valid: "mark_valid b db = Inr db' \<Longrightarrow> fork_step db db'"
| remove_blocks: "remove_blocks i db = Inr db' \<Longrightarrow> fork_step db db'"
| advance_root: "advance_root i db = (db', Inr ()) \<Longrightarrow> fork_step db db'"
| rollback: "fork_step db (rollback_head_to_root db)"
| reset: "fork_step db (reset b db)"

inductive fork_reachable :: "fork_db \<Rightarrow> bool" where
  init: "fork_reachable (reset b empty_fork_db)"
| step: "fork_reachable db \<Longrightarrow> fork_step db db' \<Longrightarrow> fork_reachable db'"

lemma fork_step_ok:
  assumes "fork_step db db'" "fork_ok db"
  shows "fork_ok db'"
  using assms
  by (cases rule: fork_step.cases)
     (auto simp: add_def intro: add_impl_fork_ok mark_valid_fork_ok remove_blocks_fork_ok advance_root_fork_ok
        rollback_fork_ok reset_fork_ok)

lemma fork_reachable_ok: "fork_reachable db \<Longrightarrow> fork_ok db"
  by (induction rule: fork_reachable.induct) (auto intro: reset_fork_ok fork_step_ok)

section \<open>Branches\<close>

fun branch :: "fork_db \<Rightarrow> nat \<Rightarrow> block_state list \<Rightarrow> nat \<Rightarrow> bool" where
  "branch db i [] c \<longleftrightarrow> i = c"
| "branch db i (b # bs) c \<longleftrightarrow> get_block db i = Some b \<and> branch db (previous b) bs c"

lemma branch_append: "branch db i (xs @ ys) c \<longleftrightarrow> (\<exists>j. branch db i xs j \<and> branch db j ys c)"
  by (induction xs arbitrary: i) auto

lemma branch_index: "branch db i bs c \<Longrightarrow> set bs \<subseteq> set (index db)"
  by (induction bs arbitrary: i) (auto dest: get_block_Some)

lemma ids_disjoint:
  assumes "distinct (map bid idx)" "set xs \<subseteq> set idx" "set ys \<subseteq> set idx"
    and "\<And>x y. x \<in> set xs \<Longrightarrow> y \<in> set ys \<Longrightarrow> block_num x \<noteq> block_num y"
  shows "bid ` set xs \<inter> bid ` set ys = {}"
  using assms same_block[OF assms(1)] by blast

lemma root_or_block_parent:
  assumes shape: "fork_shape r (index db)" and b: "b \<in> set (index db)"
  obtains p where "root_or_block r db (previous b) = Some p" "follows p b" "p = r \<or> p \<in> set (index db)"
proof -
  obtain p where p: "p = r \<or> p \<in> set (index db)" "follows p b"
    using fork_shape_parent[OF shape b] .
  have "root_or_block r db (previous b) = Some p"
    using p get_block_in[OF fork_shape_distinct[OF shape], of p] shape
    by (auto simp: root_or_block_def follows_def fork_shape_def)
  then show ?thesis
    using that p by blast
qed

lemma root_or_block_found:
  assumes "i = bid r \<or> get_block db i \<noteq> None"
  obtains a where "root_or_block r db i = Some a" "a = r \<or> a \<in> set (index db)" "bid a = i"
proof -
  have "root_or_block r db i \<noteq> None"
    using assms by (auto simp: root_or_block_def)
  then obtain a where a: "root_or_block r db i = Some a"
    by blast
  show ?thesis
    by (rule that[OF a root_or_block_Some[OF a]])
qed

lemma descend_to_stop: "\<not> n < block_num b \<Longrightarrow> descend_to fuel r db n b = Inr ([], b)"
  by (cases fuel) simp_all

lemma descend_to_result:
  assumes shape: "fork_shape r (index db)" and b: "b = r \<or> b \<in> set (index db)"
    and fuel: "block_num b \<le> block_num r + fuel" and n: "block_num r \<le> n"
  shows "\<exists>bs c. descend_to fuel r db n b = Inr (bs, c) \<and> (c = r \<or> c \<in> set (index db)) \<and> branch db (bid b) bs (bid c) \<and>
    block_num c = min n (block_num b) \<and> (\<forall>x\<in>set bs. block_num c < block_num x)"
  using b fuel
proof (induction fuel arbitrary: b)
  case 0
  then have "b = r"
    using block_num_above_root[OF shape, of b] by auto
  then show ?case using n by auto
next
  case (Suc fuel)
  show ?case
  proof (cases "n < block_num b")
    case True
    then have "b \<noteq> r" using n by auto
    then have bi: "b \<in> set (index db)" using Suc.prems(1) by simp
    obtain p where p: "root_or_block r db (previous b) = Some p" "follows p b" "p = r \<or> p \<in> set (index db)"
      using root_or_block_parent[OF shape bi] .
    obtain bs c where c: "descend_to fuel r db n p = Inr (bs, c)" "c = r \<or> c \<in> set (index db)"
      "branch db (bid p) bs (bid c)" "block_num c = min n (block_num p)" "\<forall>x\<in>set bs. block_num c < block_num x"
      using Suc.IH[OF p(3)] Suc.prems(2) p(2) by (auto simp: follows_def)
    have "branch db (bid b) (b # bs) (bid c)"
      using get_block_in[OF fork_shape_distinct[OF shape] bi] c(3) p(2) by (simp add: follows_def)
    then show ?thesis
      using c p(1,2) True by (auto simp: follows_def)
  qed (use Suc.prems in auto)
qed

lemma descend_both_result:
  assumes shape: "fork_shape r (index db)" and ab: "a \<in> set (index db)" "b \<in> set (index db)"
    and eq: "block_num a = block_num b" "bid a \<noteq> bid b" and fuel: "block_num a \<le> block_num r + fuel"
  shows "\<exists>as bs c. descend_both fuel db a b = Inr (as, bs) \<and> branch db (bid a) as c \<and> branch db (bid b) bs c \<and>
    (c = bid r \<or> c \<in> bid ` set (index db)) \<and> bid ` set as \<inter> bid ` set bs = {} \<and>
    (\<forall>x\<in>set as \<union> set bs. block_num x \<le> block_num a)"
  using ab eq fuel
proof (induction fuel arbitrary: a b)
  case 0
  then show ?case using block_num_above_root[OF shape "0.prems"(1)] by simp
next
  case (Suc fuel)
  note d = fork_shape_distinct[OF shape]
  obtain p where p: "root_or_block r db (previous a) = Some p" "follows p a" "p = r \<or> p \<in> set (index db)"
    using root_or_block_parent[OF shape Suc.prems(1)] .
  obtain q where q: "root_or_block r db (previous b) = Some q" "follows q b" "q = r \<or> q \<in> set (index db)"
    using root_or_block_parent[OF shape Suc.prems(2)] .
  note ga = get_block_in[OF d Suc.prems(1)] and gb = get_block_in[OF d Suc.prems(2)]
  show ?case
  proof (cases "previous a = previous b")
    case True
    then show ?thesis
      using ga gb p Suc.prems(3,4) by (auto simp: follows_def)
  next
    case False
    have num: "block_num p = block_num q" "bid p \<noteq> bid q"
      using p(2) q(2) Suc.prems(3) False by (auto simp: follows_def)
    have pq: "p \<in> set (index db)" "q \<in> set (index db)"
      using num p(3) q(3) block_num_above_root[OF shape, of p] block_num_above_root[OF shape, of q] by auto
    obtain as bs c where IH: "descend_both fuel db p q = Inr (as, bs)" "branch db (bid p) as c" "branch db (bid q) bs c"
      "c = bid r \<or> c \<in> bid ` set (index db)" "bid ` set as \<inter> bid ` set bs = {}"
      "\<forall>x\<in>set as \<union> set bs. block_num x \<le> block_num p"
      using Suc.IH[OF pq num] Suc.prems(5) p(2) by (auto simp: follows_def)
    have "bid ` set [a] \<inter> bid ` set bs = {}" "bid ` set as \<inter> bid ` set [b] = {}"
      using IH(6) Suc.prems(1-3) p(2) branch_index[OF IH(2)] branch_index[OF IH(3)]
      by (intro ids_disjoint[OF d]; force simp: follows_def)+
    then have "bid ` set (a # as) \<inter> bid ` set (b # bs) = {}"
      using IH(5) Suc.prems(4) by auto
    moreover have "get_block db (previous a) = Some p" "get_block db (previous b) = Some q"
      using get_block_in[OF d] pq p(2) q(2) by (simp_all add: follows_def)
    moreover have "branch db (bid a) (a # as) c" "branch db (bid b) (b # bs) c"
      using ga gb IH(2,3) p(2) q(2) by (simp_all add: follows_def)
    moreover have "\<forall>x\<in>set (a # as) \<union> set (b # bs). block_num x \<le> block_num a"
      using IH(6) p(2) Suc.prems(3) by (auto simp: follows_def intro: le_SucI)
    ultimately show ?thesis
      using IH(1,4) False by (intro exI[of _ "a # as"] exI[of _ "b # bs"] exI[of _ c]) simp
  qed
qed

text \<open>
  Both branches of a fork switch are found, they lead to the same block, and they have no block in
  common: that block is the nearest common ancestor.
\<close>

lemma fetch_branch_from_result:
  assumes ok: "fork_ok db" and root: "root db = Some r"
    and first: "first = bid r \<or> get_block db first \<noteq> None" and second: "second = bid r \<or> get_block db second \<noteq> None"
  shows "\<exists>as bs c. fetch_branch_from db first second = Inr (as, bs) \<and> branch db first as c \<and> branch db second bs c \<and>
    (c = bid r \<or> c \<in> bid ` set (index db)) \<and> bid ` set as \<inter> bid ` set bs = {}"
proof -
  have shape: "fork_shape r (index db)"
    using fork_okE[OF ok] root by (metis option.inject)
  note d = fork_shape_distinct[OF shape]
  obtain a where a: "root_or_block r db first = Some a" "a = r \<or> a \<in> set (index db)" "bid a = first"
    using root_or_block_found[OF first] .
  obtain b where b: "root_or_block r db second = Some b" "b = r \<or> b \<in> set (index db)" "bid b = second"
    using root_or_block_found[OF second] .
  have num: "block_num r \<le> block_num x \<and> block_num x \<le> block_num r + length (index db)"
    if "x = r \<or> x \<in> set (index db)" for x
    using that block_num_above_root[OF shape, of x] block_num_bound[OF shape, of x] by auto
  obtain as a' where A: "descend_to (length (index db)) r db (block_num b) a = Inr (as, a')"
    "a' = r \<or> a' \<in> set (index db)" "branch db (bid a) as (bid a')" "block_num a' = min (block_num b) (block_num a)"
    "\<forall>x\<in>set as. block_num a' < block_num x"
    using descend_to_result[OF shape a(2), of "length (index db)" "block_num b"] num[OF a(2)] num[OF b(2)] by auto
  obtain bs b' where B: "descend_to (length (index db)) r db (block_num a') b = Inr (bs, b')"
    "b' = r \<or> b' \<in> set (index db)" "branch db (bid b) bs (bid b')" "block_num b' = min (block_num a') (block_num b)"
    "\<forall>x\<in>set bs. block_num b' < block_num x"
    using descend_to_result[OF shape b(2), of "length (index db)" "block_num a'"] num[OF b(2)] num[OF A(2)] by auto
  have "as = []" if "\<not> block_num b < block_num a"
    using A(1) descend_to_stop[OF that, of "length (index db)" r db] by simp
  moreover have "bs = []" if "block_num b < block_num a"
    using B(1) A(4) descend_to_stop[of "block_num a'" b "length (index db)" r db] that by simp
  ultimately have ab: "block_num a' = block_num b'" "as = [] \<or> bs = []"
    using A(4) B(4) by auto
  show ?thesis
  proof (cases "bid a' = bid b'")
    case True
    then have "fetch_branch_from db first second = Inr (as, bs)"
      using A(1) B(1) a(1) b(1) by (simp add: fetch_branch_from_def root)
    moreover have "branch db first as (bid a')" "branch db second bs (bid a')"
      using A(3) B(3) a(3) b(3) True by simp_all
    moreover have "bid a' = bid r \<or> bid a' \<in> bid ` set (index db)"
      using A(2) by blast
    moreover have "bid ` set as \<inter> bid ` set bs = {}"
      using ab(2) by auto
    ultimately show ?thesis by blast
  next
    case False
    have in': "a' \<in> set (index db)" "b' \<in> set (index db)"
      using A(2) B(2) ab(1) False block_num_above_root[OF shape, of a'] block_num_above_root[OF shape, of b'] by auto
    obtain as' bs' c where C: "descend_both (length (index db)) db a' b' = Inr (as', bs')" "branch db (bid a') as' c"
      "branch db (bid b') bs' c" "c = bid r \<or> c \<in> bid ` set (index db)" "bid ` set as' \<inter> bid ` set bs' = {}"
      "\<forall>x\<in>set as' \<union> set bs'. block_num x \<le> block_num a'"
      using descend_both_result[OF shape in' ab(1) False, of "length (index db)"] num[OF A(2)] by blast
    have "block_num y < block_num x" if "x \<in> set as" "y \<in> set bs'" for x y
      using bspec[OF A(5) that(1)] bspec[OF C(6), of y] that(2) by simp
    then have "bid ` set as \<inter> bid ` set bs' = {}"
      by (intro ids_disjoint[OF d branch_index[OF A(3)] branch_index[OF C(3)]]) force
    moreover have "block_num y < block_num x" if "x \<in> set bs" "y \<in> set as'" for x y
      using bspec[OF B(5) that(1)] bspec[OF C(6), of y] that(2) ab(1) by simp
    then have "bid ` set as' \<inter> bid ` set bs = {}"
      by (intro ids_disjoint[OF d branch_index[OF C(2)] branch_index[OF B(3)]]) force
    ultimately have "bid ` set (as @ as') \<inter> bid ` set (bs @ bs') = {}"
      using C(5) ab(2) by (auto simp: image_Un)
    moreover have "branch db first (as @ as') c" "branch db second (bs @ bs') c"
      using A(3) B(3) C(2,3) a(3) b(3) by (auto simp: branch_append)
    moreover have "fetch_branch_from db first second = Inr (as @ as', bs @ bs')"
      using A(1) B(1) C(1) a(1) b(1) False by (simp add: fetch_branch_from_def root)
    ultimately show ?thesis
      using C(4) by blast
  qed
qed

section \<open>Closing and opening again\<close>

definition pref :: "block_state \<Rightarrow> nat \<times> nat" where
  "pref b = (dpos_irreversible_blocknum b, block_num b)"

lemma first_preferred_pref: "first_preferred a b \<longleftrightarrow> pref b < pref a"
  by (simp add: first_preferred_def pref_def)

lemma follows_pref: "follows p b \<Longrightarrow> pref p < pref b"
  by (auto simp: follows_def pref_def less_prod_def)

lemma sorted_pref_rev_filter:
  assumes "\<And>b c. P b \<Longrightarrow> P c \<Longrightarrow> validated b = validated c"
  shows "sorted (map pref (rev (filter P (by_lib_block_num db))))"
proof -
  have s: "sorted_wrt (\<lambda>x y. lib_order x \<le> lib_order y) (by_lib_block_num db)"
    using sorted_sort_key[of lib_order "index db"] by (simp add: by_lib_block_num_def sorted_map)
  have "sorted_wrt (\<lambda>x y. pref y \<le> pref x) (filter P (by_lib_block_num db))"
  proof (rule sorted_wrt_mono_rel[OF _ sorted_wrt_filter[OF s]])
    show "pref y \<le> pref x" if "x \<in> set (filter P (by_lib_block_num db))" "y \<in> set (filter P (by_lib_block_num db))"
      "lib_order x \<le> lib_order y" for x y
      using that assms[of x y] by (auto simp: lib_order_def pref_def less_eq_prod_def less_prod_def)
  qed
  then show ?thesis
    by (simp add: sorted_map sorted_wrt_rev)
qed

lemma merge_blocks_mset: "mset (merge_blocks us vs) = mset us + mset vs"
  by (induction us vs rule: merge_blocks.induct) auto

lemma merge_blocks_sorted:
  assumes "sorted (map pref us)" "sorted (map pref vs)"
  shows "sorted (map pref (merge_blocks us vs))"
  using assms
proof (induction us vs rule: merge_blocks.induct)
  case (3 u us v vs)
  have set: "set (merge_blocks xs ys) = set xs \<union> set ys" for xs ys
    using arg_cong[OF merge_blocks_mset[of xs ys], of set_mset] by simp
  show ?case
    using 3 by (auto simp: set first_preferred_pref)
qed simp_all

definition written_blocks :: "fork_db \<Rightarrow> block_state list" where
  "written_blocks db = merge_blocks (rev (filter (\<lambda>b. \<not> validated b) (by_lib_block_num db)))
     (rev (filter validated (by_lib_block_num db)))"

lemma written_blocks_mset: "mset (written_blocks db) = mset (index db)"
proof -
  have "mset (written_blocks db) = mset (by_lib_block_num db)"
    by (simp add: written_blocks_def merge_blocks_mset mset_filter union_commute multiset_partition[symmetric])
  then show ?thesis by (simp add: by_lib_block_num_def)
qed

lemma written_blocks_sorted: "sorted (map pref (written_blocks db))"
  unfolding written_blocks_def by (intro merge_blocks_sorted sorted_pref_rev_filter) auto

text \<open>Every block is written after its parent, so that adding the blocks in that order never fails.\<close>

definition accepted :: "feature_validator \<Rightarrow> block_state \<Rightarrow> block_state list \<Rightarrow> bool" where
  "accepted validator r idx \<longleftrightarrow>
     (\<forall>b\<in>set idx. \<forall>p\<in>insert r (set idx). previous b = bid p \<longrightarrow> validate_block validator p b = Inr ())"

lemma fold_add_impl:
  assumes shape: "fork_shape r idx" and acc: "accepted validator r idx"
    and split: "mset idx = mset (xs @ ys)" and sorted: "sorted (map pref (xs @ ys))"
    and db: "root db = Some r" "index db = xs"
  shows "\<exists>db'. fold_res (add_impl False True validator) ys db = Inr db' \<and> root db' = Some r \<and> index db' = xs @ ys"
  using split sorted db
proof (induction ys arbitrary: xs db)
  case Nil
  then show ?case by simp
next
  case (Cons y ys)
  have set: "set idx = set (xs @ y # ys)"
    using Cons.prems(1) by (metis set_mset_mset)
  have dist: "distinct (map bid (xs @ y # ys))"
    using fork_shape_distinct[OF shape] mset_eq_imp_distinct_iff[of "map bid idx" "map bid (xs @ y # ys)"]
      Cons.prems(1) by (metis mset_map)
  obtain p where p: "p = r \<or> p \<in> set idx" "follows p y"
    using fork_shape_parent[OF shape, of y] set by auto
  have "p = r \<or> p \<in> set xs"
    using p set Cons.prems(2) follows_pref[OF p(2)] by (auto simp: sorted_append)
  moreover have "distinct (map bid (index db))"
    using dist Cons.prems(4) by simp
  ultimately have g: "root_or_block r db (previous y) = Some p"
    using get_block_in[of db p] Cons.prems(4) p shape set
    by (auto simp: root_or_block_def follows_def fork_shape_def)
  have "validate_block validator p y = Inr ()"
    using acc p set by (auto simp: accepted_def follows_def)
  moreover have "bid y \<notin> bid ` set (index db)"
    using dist Cons.prems(4) by auto
  ultimately have add: "add_impl False True validator y db = Inr (insert_block y db)"
    by (simp add: add_impl_unfold[OF Cons.prems(3)] g)
  show ?case
    using Cons.IH[of "xs @ [y]" "insert_block y db"] Cons.prems add by simp
qed


lemma open_close:
  assumes ok: "fork_ok db" and root: "root db = Some r" and acc: "accepted validator r (index db)"
  shows "\<exists>db'. open_db validator (snd (close db)) any = Inr db' \<and> root db' = root db \<and> head db' = head db \<and>
    mset (index db') = mset (index db)"
proof -
  obtain h where rh: "head db = Some h" "fork_shape r (index db)" "best_head r h (index db)"
    using fork_okE[OF ok] root by (metis option.inject)
  let ?f = "\<lparr>file_root = r, file_blocks = written_blocks db, file_head = Some (bid h)\<rparr>"
  have wr: "snd (close db) = Some ?f"
    by (simp add: close_def root rh(1) written_blocks_def)
  have r: "r\<lparr>validated := True\<rparr> = r"
    using rh(2) by (simp add: fork_shape_def)
  have start: "root (reset r any) = Some r" "index (reset r any) = []"
    using r by (simp_all add: reset_def Let_def)
  obtain db1 where db1: "fold_res (add_impl False True validator) (written_blocks db) (reset r any) = Inr db1"
    "root db1 = Some r" "index db1 = written_blocks db"
    using fold_add_impl[OF rh(2) acc, of "[]" "written_blocks db" "reset r any"] written_blocks_mset[of db]
      written_blocks_sorted[of db] start by auto
  have set: "set (index db1) = set (index db)"
    using arg_cong[OF written_blocks_mset[of db], of set_mset] db1(3) by simp
  have "distinct (map bid (index db1))"
    using fork_shape_distinct[OF rh(2)] mset_eq_imp_distinct_iff[of "map bid (index db1)" "map bid (index db)"]
      written_blocks_mset[of db] db1(3) by (metis mset_map)
  then have h: "(if bid r = bid h then root db1 else get_block db1 (bid h)) = Some h"
    using get_block_in[of db1 h] rh(2,3) set db1(2) by (auto simp: best_head_def fork_shape_def)
  let ?db2 = "db1\<lparr>head := Some h\<rparr>"
  have "check_head ?db2 = Inr ()"
  proof (cases "by_lib_block_num ?db2")
    case Nil
    then have "index ?db2 = []"
      using set_by_lib[of ?db2] by (metis set_empty)
    then have "h = r" using rh(3) set by (auto simp: best_head_def)
    then show ?thesis using Nil db1(2) by (simp add: check_head_def assert_res_def)
  next
    case (Cons c cs)
    then have c: "c \<in> set (index db)" using set_by_lib[of ?db2] set by auto
    show ?thesis
    proof (cases "validated c")
      case True
      then show ?thesis
        using Cons c rh(3) db1(2) by (auto simp: check_head_def assert_res_def best_head_def)
    next
      case False
      then have "h = r"
        using candidate_best(1)[of h ?db2] Cons rh(3) set by (auto simp: best_head_def)
      then show ?thesis using Cons False db1(2) by (simp add: check_head_def assert_res_def)
    qed
  qed
  then have "open_db validator (Some ?f) any = Inr ?db2"
    using db1(1) h by (simp add: open_db_def Let_def assert_res_def)
  then show ?thesis
    unfolding wr using root rh(1) db1(2,3) written_blocks_mset[of db] by (intro exI[of _ ?db2]) simp
qed

section \<open>A sample\<close>

text \<open>Two forks above block 1: 2 with its child 4, both validated, and the unvalidated 3.\<close>

definition sample_block :: "nat \<Rightarrow> nat \<Rightarrow> nat \<Rightarrow> bool \<Rightarrow> block_state" where
  "sample_block i p n v =
     \<lparr>bid = i, previous = p, block_num = n, dpos_irreversible_blocknum = 5, timestamp = 2 * n,
      activated_protocol_features = [], header_exts = None, validated = v\<rparr>"

definition sample_fork :: fork_db where
  "sample_fork =
     \<lparr>index = [sample_block 2 1 11 True, sample_block 3 1 11 False, sample_block 4 2 12 True],
      root = Some (sample_block 1 0 10 True), head = Some (sample_block 4 2 12 True)\<rparr>"

lemma sample_fork_ok: "fork_ok sample_fork"
  by code_simp

lemma sample_fork_fields [simp]:
  "root sample_fork = Some (sample_block 1 0 10 True)" "head sample_fork = Some (sample_block 4 2 12 True)"
  "get_block sample_fork 2 = Some (sample_block 2 1 11 True)" "get_block sample_fork 3 = Some (sample_block 3 1 11 False)"
  "get_block sample_fork 4 = Some (sample_block 4 2 12 True)"
  by (simp_all add: sample_fork_def get_block_def sample_block_def)

section \<open>Properties\<close>



text \<open>
  Removing a block deletes exactly the block and its descendants, and throws without
  changing anything exactly when the head is one of them; the loop that collects them always ends.
\<close>
theorem remove_exact:
  assumes "fork_ok db" "head db = Some h"
  shows "remove_blocks i db =
    (if bid h \<in> descendants (index db) i then Inl Fork_database_exception
     else Inr (db\<lparr>index := filter (\<lambda>b. bid b \<notin> descendants (index db) i) (index db)\<rparr>))"
proof -
  obtain r where "fork_shape r (index db)"
    using fork_okE[OF assms(1)] by metis
  then show ?thesis
    by (rule remove_blocks_result[OF fork_shape_acyclic assms(2)])
qed

theorem remove_exact_witness:
  "bid (sample_block 4 2 12 True) \<notin> descendants (index sample_fork) 3 \<and>
   bid (sample_block 4 2 12 True) \<in> descendants (index sample_fork) 2"
proof -
  note eq = remove_exact[OF sample_fork_ok, of "sample_block 4 2 12 True", simplified]
  have "remove_blocks 3 sample_fork \<noteq> Inl Fork_database_exception"
    by code_simp
  moreover have "remove_blocks 2 sample_fork = Inl Fork_database_exception"
    by code_simp
  ultimately show ?thesis
    using eq[of 3] eq[of 2] by (auto split: if_splits)
qed

text \<open>
  C28. Advancing the root to a validated block keeps exactly its proper descendants and makes it
  the root, when the head is that block or one of its descendants; otherwise the call throws.
\<close>
theorem advance_root_exact:
  assumes "fork_ok db" "head db = Some h" "get_block db i = Some n" "validated n"
  shows "if bid h \<in> descendants (index db) i
    then advance_root i db =
      (db\<lparr>index := filter (\<lambda>b. bid b \<noteq> i \<and> bid b \<in> descendants (index db) i) (index db), root := Some n\<rparr>, Inr ())
    else snd (advance_root i db) = Inl Fork_database_exception"
  by (rule advance_root_result[OF assms])

theorem advance_root_exact_witness: "bid (sample_block 4 2 12 True) \<in> descendants (index sample_fork) 2"
proof -
  have "snd (advance_root 2 sample_fork) \<noteq> Inl Fork_database_exception"
    by code_simp
  then show ?thesis
    using advance_root_exact[OF sample_fork_ok, of "sample_block 4 2 12 True" 2 "sample_block 2 1 11 True"]
    by (auto simp: sample_block_def split: if_splits)
qed

text \<open>
  C30. For any two blocks of the tree \<open>fetch_branch_from\<close> returns: the two branches lead from the two blocks
  to one block, which is the root or in the tree, and share no block.
\<close>
theorem fetch_branch_from_common:
  assumes "fork_ok db" "root db = Some r"
    and "first = bid r \<or> get_block db first \<noteq> None" "second = bid r \<or> get_block db second \<noteq> None"
  shows "\<exists>as bs c. fetch_branch_from db first second = Inr (as, bs) \<and> branch db first as c \<and> branch db second bs c \<and>
    (c = bid r \<or> c \<in> bid ` set (index db)) \<and> bid ` set as \<inter> bid ` set bs = {}"
  by (rule fetch_branch_from_result[OF assms])

theorem fetch_branch_from_common_witness:
  "\<exists>as bs c. fetch_branch_from sample_fork 4 3 = Inr (as, bs) \<and> branch sample_fork 4 as c \<and> branch sample_fork 3 bs c \<and>
     bid ` set as \<inter> bid ` set bs = {}"
  using fetch_branch_from_common[OF sample_fork_ok, of "sample_block 1 0 10 True" 4 3] by auto



text \<open>A block that is not in the database has the empty branch; no exception is thrown.\<close>

lemma fetch_branch_missing:
  assumes "get_block db h = None"
  shows "fetch_branch db h n = Inr []"
  using assms by (cases "length (index db)") (simp_all add: fetch_branch_def)


end
