(* ===== verification/Protocol_Features.thy ===== *)
theory Protocol_Features
  imports Merkle
begin

text \<open>
  Protocol features (\<^verbatim>\<open>libraries/chain/protocol_feature_manager.cpp\<close> and its header): the table of builtin
  features, the set of recognised features, and the manager that records which are active and since which
  block, as a list and as a chain of previous pointers through the builtin features, and undoes activations when blocks are
  popped. The main lemmas keep the two in step, and popping restores exactly the manager before the popped activations.

  Iterators into the recognised features are the digests they point to, an end iterator is \<open>None\<close>, and so is the
  index \<open>no_previous\<close>. Description digests are the numbers that the source writes in hexadecimal; the digest of a feature, a
  SHA-256 hash of its packed fields, is a function argument. The diagnostic log is left out.
\<close>

section \<open>The builtin features\<close>

datatype builtin_protocol_feature_t =
    Preactivate_feature
  | Only_link_to_existing_permission
  | Replace_deferred
  | No_duplicate_deferred_id
  | Fix_linkauth_restriction
  | Disallow_empty_producer_schedule
  | Restrict_action_to_self
  | Only_bill_first_authorizer
  | Forward_setcode
  | Get_sender
  | Ram_restrictions
  | Webauthn_key
  | Wtmsig_block_signatures
  | Action_return_value
  | Kv_database
  | Configurable_wasm_limits
  | Blockchain_parameters

primrec codename_index :: "builtin_protocol_feature_t \<Rightarrow> nat" where
  "codename_index Preactivate_feature = 0"
| "codename_index Only_link_to_existing_permission = 1"
| "codename_index Replace_deferred = 2"
| "codename_index No_duplicate_deferred_id = 3"
| "codename_index Fix_linkauth_restriction = 4"
| "codename_index Disallow_empty_producer_schedule = 5"
| "codename_index Restrict_action_to_self = 6"
| "codename_index Only_bill_first_authorizer = 7"
| "codename_index Forward_setcode = 8"
| "codename_index Get_sender = 9"
| "codename_index Ram_restrictions = 10"
| "codename_index Webauthn_key = 11"
| "codename_index Wtmsig_block_signatures = 12"
| "codename_index Action_return_value = 13"
| "codename_index Kv_database = 14"
| "codename_index Configurable_wasm_limits = 15"
| "codename_index Blockchain_parameters = 16"

record protocol_feature_subjective_restrictions =
  earliest_allowed_activation_time :: int
  preactivation_required :: bool
  enabled :: bool

record builtin_protocol_feature_spec =
  codename :: string
  description_digest :: "256 word"
  builtin_dependencies :: "builtin_protocol_feature_t list"
  subjective_restrictions :: protocol_feature_subjective_restrictions

definition default_restrictions :: protocol_feature_subjective_restrictions where
  "default_restrictions = \<lparr>earliest_allowed_activation_time = 0, preactivation_required = True, enabled = True\<rparr>"

definition preactivation_free :: protocol_feature_subjective_restrictions where
  "preactivation_free = \<lparr>earliest_allowed_activation_time = 0, preactivation_required = False, enabled = True\<rparr>"

primrec builtin_spec :: "builtin_protocol_feature_t \<Rightarrow> builtin_protocol_feature_spec" where
  "builtin_spec Preactivate_feature =
     \<lparr>codename = ''PREACTIVATE_FEATURE'',
      description_digest = 0x64fe7df32e9b86be2b296b3f81dfd527f84e82b98e363bc97e40bc7a83733310,
      builtin_dependencies = [], subjective_restrictions = preactivation_free\<rparr>"
| "builtin_spec Only_link_to_existing_permission =
     \<lparr>codename = ''ONLY_LINK_TO_EXISTING_PERMISSION'',
      description_digest = 0xf3c3d91c4603cde2397268bfed4e662465293aab10cd9416db0d442b8cec2949,
      builtin_dependencies = [], subjective_restrictions = default_restrictions\<rparr>"
| "builtin_spec Replace_deferred =
     \<lparr>codename = ''REPLACE_DEFERRED'',
      description_digest = 0x9908b3f8413c8474ab2a6be149d3f4f6d0421d37886033f27d4759c47a26d944,
      builtin_dependencies = [], subjective_restrictions = default_restrictions\<rparr>"
| "builtin_spec No_duplicate_deferred_id =
     \<lparr>codename = ''NO_DUPLICATE_DEFERRED_ID'',
      description_digest = 0x45967387ee92da70171efd9fefd1ca8061b5efe6f124d269cd2468b47f1575a0,
      builtin_dependencies = [Replace_deferred], subjective_restrictions = default_restrictions\<rparr>"
| "builtin_spec Fix_linkauth_restriction =
     \<lparr>codename = ''FIX_LINKAUTH_RESTRICTION'',
      description_digest = 0xa98241c83511dc86c857221b9372b4aa7cea3aaebc567a48604e1d3db3557050,
      builtin_dependencies = [], subjective_restrictions = default_restrictions\<rparr>"
| "builtin_spec Disallow_empty_producer_schedule =
     \<lparr>codename = ''DISALLOW_EMPTY_PRODUCER_SCHEDULE'',
      description_digest = 0x2853617cec3eabd41881eb48882e6fc5e81a0db917d375057864b3befbe29acd,
      builtin_dependencies = [], subjective_restrictions = default_restrictions\<rparr>"
| "builtin_spec Restrict_action_to_self =
     \<lparr>codename = ''RESTRICT_ACTION_TO_SELF'',
      description_digest = 0xe71b6712188391994c78d8c722c1d42c477cf091e5601b5cf1befd05721a57f3,
      builtin_dependencies = [], subjective_restrictions = default_restrictions\<rparr>"
| "builtin_spec Only_bill_first_authorizer =
     \<lparr>codename = ''ONLY_BILL_FIRST_AUTHORIZER'',
      description_digest = 0x2f1f13e291c79da5a2bbad259ed7c1f2d34f697ea460b14b565ac33b063b73e2,
      builtin_dependencies = [], subjective_restrictions = default_restrictions\<rparr>"
| "builtin_spec Forward_setcode =
     \<lparr>codename = ''FORWARD_SETCODE'',
      description_digest = 0x898082c59f921d0042e581f00a59d5ceb8be6f1d9c7a45b6f07c0e26eaee0222,
      builtin_dependencies = [], subjective_restrictions = default_restrictions\<rparr>"
| "builtin_spec Get_sender =
     \<lparr>codename = ''GET_SENDER'',
      description_digest = 0x1eab748b95a2e6f4d7cb42065bdee5566af8efddf01a55a0a8d831b823f8828a,
      builtin_dependencies = [], subjective_restrictions = default_restrictions\<rparr>"
| "builtin_spec Ram_restrictions =
     \<lparr>codename = ''RAM_RESTRICTIONS'',
      description_digest = 0x1812fdb5096fd854a4958eb9d53b43219d114de0e858ce00255bd46569ad2c68,
      builtin_dependencies = [], subjective_restrictions = default_restrictions\<rparr>"
| "builtin_spec Webauthn_key =
     \<lparr>codename = ''WEBAUTHN_KEY'',
      description_digest = 0x927fdf78c51e77a899f2db938249fb1f8bb38f4e43d9c1f75b190492080cbc34,
      builtin_dependencies = [], subjective_restrictions = default_restrictions\<rparr>"
| "builtin_spec Wtmsig_block_signatures =
     \<lparr>codename = ''WTMSIG_BLOCK_SIGNATURES'',
      description_digest = 0xab76031cad7a457f4fd5f5fca97a3f03b8a635278e0416f77dcc91eb99a48e10,
      builtin_dependencies = [], subjective_restrictions = default_restrictions\<rparr>"
| "builtin_spec Action_return_value =
     \<lparr>codename = ''ACTION_RETURN_VALUE'',
      description_digest = 0x69b064c5178e2738e144ed6caa9349a3995370d78db29e494b3126ebd9111966,
      builtin_dependencies = [], subjective_restrictions = default_restrictions\<rparr>"
| "builtin_spec Kv_database =
     \<lparr>codename = ''KV_DATABASE'',
      description_digest = 0x14cfb3252a5fa3ae4c764929e0bbc467528990c9cc46aefcc7f16367f28b6278,
      builtin_dependencies = [], subjective_restrictions = default_restrictions\<rparr>"
| "builtin_spec Configurable_wasm_limits =
     \<lparr>codename = ''CONFIGURABLE_WASM_LIMITS'',
      description_digest = 0x67f5f1e92cbf6f7276e7b3fc8c2ad23e63448e657641a1e5de69bccd114542d6,
      builtin_dependencies = [], subjective_restrictions = default_restrictions\<rparr>"
| "builtin_spec Blockchain_parameters =
     \<lparr>codename = ''BLOCKCHAIN_PARAMETERS'',
      description_digest = 0x70787548dcea1a2c52c913a37f74ce99e6caae79110d7ca7b859936a0075b314,
      builtin_dependencies = [], subjective_restrictions = default_restrictions\<rparr>"

section \<open>The set of recognised features\<close>

record builtin_protocol_feature =
  bf_codename :: builtin_protocol_feature_t
  bf_description_digest :: "256 word"
  bf_dependencies :: "digest list"
  bf_restrictions :: protocol_feature_subjective_restrictions

record protocol_feature =
  feature_digest :: digest
  pf_description_digest :: "256 word"
  dependencies :: "digest list"
  pf_restrictions :: protocol_feature_subjective_restrictions
  builtin_feature :: "builtin_protocol_feature_t option"

record protocol_feature_set =
  recognized :: "protocol_feature list"
  recognized_builtin :: "digest option list"

datatype recognized_t = Unrecognized | Disabled | Too_early | Ready

definition empty_feature_set :: protocol_feature_set where
  "empty_feature_set = \<lparr>recognized = [], recognized_builtin = []\<rparr>"

definition find_feature :: "protocol_feature_set \<Rightarrow> digest \<Rightarrow> protocol_feature option" where
  "find_feature pfs d = find (\<lambda>f. feature_digest f = d) (recognized pfs)"

definition is_recognized :: "protocol_feature_set \<Rightarrow> digest \<Rightarrow> int \<Rightarrow> recognized_t" where
  "is_recognized pfs d now =
     (case find_feature pfs d of
        None \<Rightarrow> Unrecognized
      | Some f \<Rightarrow>
          if \<not> enabled (pf_restrictions f) then Disabled
          else if now < earliest_allowed_activation_time (pf_restrictions f) then Too_early
          else Ready)"

definition get_builtin_digest :: "protocol_feature_set \<Rightarrow> builtin_protocol_feature_t \<Rightarrow> digest option" where
  "get_builtin_digest pfs b =
     (let indx = codename_index b in
      if length (recognized_builtin pfs) \<le> indx then None else recognized_builtin pfs ! indx)"

definition get_protocol_feature :: "protocol_feature_set \<Rightarrow> digest \<Rightarrow> protocol_feature result" where
  "get_protocol_feature pfs d =
     (case find_feature pfs d of None \<Rightarrow> Inl Protocol_feature_exception | Some f \<Rightarrow> Inr f)"

definition validate_dependencies :: "protocol_feature_set \<Rightarrow> digest \<Rightarrow> (digest \<Rightarrow> bool) \<Rightarrow> bool" where
  "validate_dependencies pfs d validator =
     (case find_feature pfs d of None \<Rightarrow> False | Some f \<Rightarrow> list_all validator (dependencies f))"

definition make_default_builtin_protocol_feature ::
  "builtin_protocol_feature_t \<Rightarrow> (builtin_protocol_feature_t \<Rightarrow> digest result) \<Rightarrow> builtin_protocol_feature result" where
  "make_default_builtin_protocol_feature b handle_dependency =
     bind_res (fold_res (\<lambda>d ds. bind_res (handle_dependency d) (\<lambda>x. Inr (List.insert x ds)))
                 (builtin_dependencies (builtin_spec b)) []) (\<lambda>ds.
     Inr \<lparr>bf_codename = b, bf_description_digest = description_digest (builtin_spec b), bf_dependencies = ds,
          bf_restrictions = subjective_restrictions (builtin_spec b)\<rparr>)"

text \<open>The builtin features, among those expected, that the given dependencies are; each dependency must be recognised.\<close>

definition satisfied_builtins ::
  "protocol_feature_set \<Rightarrow> builtin_protocol_feature_t list \<Rightarrow> digest list \<Rightarrow> builtin_protocol_feature_t list result" where
  "satisfied_builtins pfs expected ds =
     fold_res (\<lambda>d sat.
       case find_feature pfs d of
         None \<Rightarrow> Inl Protocol_feature_exception
       | Some f \<Rightarrow>
           (case builtin_feature f of
              None \<Rightarrow> Inr sat
            | Some b \<Rightarrow> Inr (if b \<in> set expected then List.insert b sat else sat))) ds []"

definition add_feature ::
  "(builtin_protocol_feature \<Rightarrow> digest) \<Rightarrow> builtin_protocol_feature \<Rightarrow> protocol_feature_set \<Rightarrow> protocol_feature_set result" where
  "add_feature digest_of f pfs =
     (let indx = codename_index (bf_codename f); expected = builtin_dependencies (builtin_spec (bf_codename f));
          d = digest_of f; n = length (recognized_builtin pfs) in
      bind_res (assert_res (indx < n \<longrightarrow> recognized_builtin pfs ! indx = None) Protocol_feature_exception) (\<lambda>_.
      bind_res (satisfied_builtins pfs expected (bf_dependencies f)) (\<lambda>satisfied.
      bind_res (assert_res (\<not> length satisfied < length expected) Protocol_feature_validation_exception) (\<lambda>_.
      bind_res (assert_res (find_feature pfs d = None) Protocol_feature_exception) (\<lambda>_.
      let pf = \<lparr>feature_digest = d, pf_description_digest = bf_description_digest f, dependencies = bf_dependencies f,
                pf_restrictions = bf_restrictions f, builtin_feature = Some (bf_codename f)\<rparr>;
          padded = recognized_builtin pfs @ replicate (Suc indx - n) None in
      Inr \<lparr>recognized = recognized pfs @ [pf], recognized_builtin = padded[indx := Some d]\<rparr>)))))"

section \<open>The manager\<close>

definition not_active :: "32 word" where
  "not_active = 0xFFFFFFFF"

record builtin_protocol_feature_entry =
  previous_builtin :: "nat option"
  activation_block_num :: "32 word"

record protocol_feature_manager =
  protocol_features :: protocol_feature_set
  activated :: "(digest \<times> 32 word) list"
  builtin_entries :: "builtin_protocol_feature_entry list"
  head_of_builtin_activation_list :: "nat option"
  initialized :: bool

definition inactive_entry :: builtin_protocol_feature_entry where
  "inactive_entry = \<lparr>previous_builtin = None, activation_block_num = not_active\<rparr>"

definition make_manager :: "protocol_feature_set \<Rightarrow> protocol_feature_manager" where
  "make_manager pfs =
     \<lparr>protocol_features = pfs, activated = [],
      builtin_entries = replicate (length (recognized_builtin pfs)) inactive_entry,
      head_of_builtin_activation_list = None, initialized = False\<rparr>"

definition activate_feature :: "digest \<Rightarrow> 32 word \<Rightarrow> protocol_feature_manager \<Rightarrow> protocol_feature_manager result" where
  "activate_feature d current_block_num m =
     bind_res (assert_res (initialized m) Protocol_feature_exception) (\<lambda>_.
     case find_feature (protocol_features m) d of
       None \<Rightarrow> Inl Protocol_feature_exception
     | Some f \<Rightarrow>
         bind_res (assert_res (activated m \<noteq> [] \<longrightarrow> snd (last (activated m)) \<le> current_block_num)
                     Protocol_feature_exception) (\<lambda>_.
         case builtin_feature f of
           None \<Rightarrow> Inl Protocol_feature_exception
         | Some b \<Rightarrow>
             let indx = codename_index b in
             bind_res (assert_res (indx < length (builtin_entries m)) Protocol_feature_exception) (\<lambda>_.
             bind_res (assert_res (activation_block_num (builtin_entries m ! indx) = not_active)
                         Protocol_feature_exception) (\<lambda>_.
             Inr (m\<lparr>activated := activated m @ [(d, current_block_num)],
                    builtin_entries := (builtin_entries m)
                      [indx := \<lparr>previous_builtin = head_of_builtin_activation_list m,
                                activation_block_num = current_block_num\<rparr>],
                    head_of_builtin_activation_list := Some indx\<rparr>)))))"

text \<open>
  The initialisation replays the activations stored in the database; when one fails the manager is left uninitialised.
\<close>

definition init_manager :: "(digest \<times> 32 word) list \<Rightarrow> protocol_feature_manager \<Rightarrow> protocol_feature_manager result" where
  "init_manager stored m =
     bind_res (assert_res (\<not> initialized m) Protocol_feature_exception) (\<lambda>_.
     fold_res (\<lambda>(d, n). activate_feature d n) stored (m\<lparr>initialized := True\<rparr>))"

definition is_builtin_activated :: "builtin_protocol_feature_t \<Rightarrow> 32 word \<Rightarrow> protocol_feature_manager \<Rightarrow> bool" where
  "is_builtin_activated b current_block_num m =
     (let indx = codename_index b in
      if length (builtin_entries m) \<le> indx then False
      else activation_block_num (builtin_entries m ! indx) \<le> current_block_num)"

text \<open>
  The loop along the previous pointers visits each builtin feature at most once; the fuel is their
  number, and running out of it, or a pointer out of range, is undefined behaviour.
\<close>

fun pop_builtins ::
  "nat \<Rightarrow> 32 word \<Rightarrow> builtin_protocol_feature_entry list \<Rightarrow> nat option \<Rightarrow>
     (builtin_protocol_feature_entry list \<times> nat option) result" where
  "pop_builtins fuel block_num es None = Inr (es, None)"
| "pop_builtins fuel block_num es (Some i) =
     (if length es \<le> i then Inl Undefined_behaviour
      else if activation_block_num (es ! i) \<le> block_num then Inr (es, Some i)
      else case fuel of
             0 \<Rightarrow> Inl Undefined_behaviour
           | Suc fuel' \<Rightarrow> pop_builtins fuel' block_num (es[i := inactive_entry]) (previous_builtin (es ! i)))"

definition popped_blocks_to :: "32 word \<Rightarrow> protocol_feature_manager \<Rightarrow> protocol_feature_manager result" where
  "popped_blocks_to block_num m =
     bind_res (assert_res (initialized m) Protocol_feature_exception) (\<lambda>_.
     bind_res (pop_builtins (length (builtin_entries m)) block_num (builtin_entries m) (head_of_builtin_activation_list m)) (\<lambda>(es, h).
     Inr (m\<lparr>activated := rev (dropWhile (\<lambda>(d, n). block_num < n) (rev (activated m))),
            builtin_entries := es, head_of_builtin_activation_list := h\<rparr>)))"

text \<open>Iterators over the activations are their positions, \<open>None\<close> at the end.\<close>

definition cbegin :: "protocol_feature_manager \<Rightarrow> nat option" where
  "cbegin m = (if activated m = [] then None else Some 0)"

definition at_activation_ordinal :: "nat \<Rightarrow> protocol_feature_manager \<Rightarrow> nat option" where
  "at_activation_ordinal n m = (if length (activated m) \<le> n then None else Some n)"

definition iterator_next :: "protocol_feature_manager \<Rightarrow> nat option \<Rightarrow> nat option result" where
  "iterator_next m it =
     (case it of
        None \<Rightarrow> Inl Protocol_feature_iterator_exception
      | Some i \<Rightarrow> Inr (if length (activated m) \<le> Suc i then None else Some (Suc i)))"

definition iterator_prev :: "protocol_feature_manager \<Rightarrow> nat option \<Rightarrow> nat option result" where
  "iterator_prev m it =
     (case it of
        None \<Rightarrow> bind_res (assert_res (activated m \<noteq> []) Protocol_feature_iterator_exception) (\<lambda>_. Inr (Some (length (activated m) - 1)))
      | Some i \<Rightarrow> bind_res (assert_res (0 < i) Protocol_feature_iterator_exception) (\<lambda>_. Inr (Some (i - 1))))"

definition lower_bound :: "protocol_feature_manager \<Rightarrow> 32 word \<Rightarrow> nat option" where
  "lower_bound m n =
     (let i = length (takeWhile (\<lambda>e. snd e < n) (activated m)) in if i = length (activated m) then None else Some i)"

definition upper_bound :: "protocol_feature_manager \<Rightarrow> 32 word \<Rightarrow> nat option" where
  "upper_bound m n =
     (let i = length (takeWhile (\<lambda>e. snd e \<le> n) (activated m)) in if i = length (activated m) then None else Some i)"

section \<open>The invariant of the manager\<close>

definition entry_index :: "protocol_feature_set \<Rightarrow> digest \<Rightarrow> nat option" where
  "entry_index pfs d =
     (case find_feature pfs d of None \<Rightarrow> None | Some f \<Rightarrow> map_option codename_index (builtin_feature f))"

fun linked :: "builtin_protocol_feature_entry list \<Rightarrow> nat option \<Rightarrow> nat list \<Rightarrow> bool" where
  "linked es None js \<longleftrightarrow> js = []"
| "linked es (Some i) [] \<longleftrightarrow> False"
| "linked es (Some i) (j # js) \<longleftrightarrow> i = j \<and> i < length es \<and> linked es (previous_builtin (es ! i)) js"

definition manager_ok_for :: "protocol_feature_manager \<Rightarrow> nat list \<Rightarrow> bool" where
  "manager_ok_for m is \<longleftrightarrow>
     map (entry_index (protocol_features m) \<circ> fst) (activated m) = map Some is \<and> distinct is \<and>
     linked (builtin_entries m) (head_of_builtin_activation_list m) (rev is) \<and>
     map (\<lambda>i. activation_block_num (builtin_entries m ! i)) is = map snd (activated m) \<and>
     (\<forall>i<length (builtin_entries m). i \<notin> set is \<longrightarrow> builtin_entries m ! i = inactive_entry) \<and>
     not_active \<notin> snd ` set (activated m) \<and> sorted (map snd (activated m))"

definition manager_ok :: "protocol_feature_manager \<Rightarrow> bool" where
  "manager_ok m \<longleftrightarrow> initialized m \<and> (\<exists>is. manager_ok_for m is)"

lemma linked_bounds: "linked es h js \<Longrightarrow> set js \<subseteq> {..<length es}"
  by (induction es h js rule: linked.induct) auto

lemma linked_update: "linked es h js \<Longrightarrow> i \<notin> set js \<Longrightarrow> linked (es[i := e]) h js"
  by (induction es h js rule: linked.induct) auto

lemma linked_hd:
  assumes "linked es h js"
  shows "h = (case js of [] \<Rightarrow> None | j # _ \<Rightarrow> Some j)"
  using assms by (cases h; cases js) auto

text \<open>Any fuel that covers the chain gives the same result, so the loop ends.\<close>

lemma pop_builtins_fuel:
  assumes "linked es h js" "distinct js" "length js \<le> fuel" "length js \<le> fuel'"
  shows "pop_builtins fuel b es h = pop_builtins fuel' b es h"
  using assms
proof (induction js arbitrary: es h fuel fuel')
  case Nil
  then show ?case by (cases h) auto
next
  case (Cons j js)
  obtain f f' where f: "fuel = Suc f" "fuel' = Suc f'"
    using Cons.prems(3,4) by (cases fuel; cases fuel') auto
  have h: "h = Some j" "j < length es" "linked es (previous_builtin (es ! j)) js"
    using Cons.prems(1) by (cases h; auto)+
  have "linked (es[j := inactive_entry]) (previous_builtin (es ! j)) js"
    using linked_update[OF h(3)] Cons.prems(2) by simp
  then have "pop_builtins f b (es[j := inactive_entry]) (previous_builtin (es ! j)) =
      pop_builtins f' b (es[j := inactive_entry]) (previous_builtin (es ! j))"
    using Cons.prems(2-4) f by (intro Cons.IH) simp_all
  then show ?case
    using h(2) by (simp add: h(1) f)
qed

lemma activate_feature_Inr:
  assumes "activate_feature d n m = Inr m'"
  obtains i where "initialized m" "entry_index (protocol_features m) d = Some i"
    "activated m \<noteq> [] \<longrightarrow> snd (last (activated m)) \<le> n" "i < length (builtin_entries m)"
    "activation_block_num (builtin_entries m ! i) = not_active"
    "m' = m\<lparr>activated := activated m @ [(d, n)],
            builtin_entries := (builtin_entries m)
              [i := \<lparr>previous_builtin = head_of_builtin_activation_list m, activation_block_num = n\<rparr>],
            head_of_builtin_activation_list := Some i\<rparr>"
proof -
  have init: "initialized m"
    using assms by (cases "initialized m") (simp_all add: activate_feature_def assert_res_def)
  obtain f where f: "find_feature (protocol_features m) d = Some f"
    using assms by (cases "find_feature (protocol_features m) d") (simp_all add: activate_feature_def assert_res_def init)
  have last: "activated m \<noteq> [] \<longrightarrow> snd (last (activated m)) \<le> n"
    using assms by (rule_tac ccontr) (simp add: activate_feature_def assert_res_def init f)
  obtain b where b: "builtin_feature f = Some b"
    using assms last by (cases "builtin_feature f") (simp_all add: activate_feature_def assert_res_def init f)
  let ?i = "codename_index b"
  have i: "?i < length (builtin_entries m)"
    using assms last
    by (cases "?i < length (builtin_entries m)") (simp_all add: activate_feature_def assert_res_def init f b)
  have na: "activation_block_num (builtin_entries m ! ?i) = not_active"
    using assms last i
    by (cases "activation_block_num (builtin_entries m ! ?i) = not_active")
       (simp_all add: activate_feature_def assert_res_def init f b)
  have m': "m' = m\<lparr>activated := activated m @ [(d, n)],
            builtin_entries := (builtin_entries m)
              [?i := \<lparr>previous_builtin = head_of_builtin_activation_list m, activation_block_num = n\<rparr>],
            head_of_builtin_activation_list := Some ?i\<rparr>"
    using assms last i na by (simp add: activate_feature_def assert_res_def init f b Let_def)
  have "entry_index (protocol_features m) d = Some ?i"
    by (simp add: entry_index_def f b)
  from that[OF init this last i na m'] show ?thesis .
qed

lemma manager_ok_forD:
  assumes "manager_ok_for m is"
  shows "distinct is" "linked (builtin_entries m) (head_of_builtin_activation_list m) (rev is)"
    "map (\<lambda>i. activation_block_num (builtin_entries m ! i)) is = map snd (activated m)"
    "\<And>i. i < length (builtin_entries m) \<Longrightarrow> i \<notin> set is \<Longrightarrow> builtin_entries m ! i = inactive_entry"
    "not_active \<notin> snd ` set (activated m)" "sorted (map snd (activated m))"
    "map (entry_index (protocol_features m) \<circ> fst) (activated m) = map Some is"
  using assms by (simp_all add: manager_ok_for_def)

lemma sorted_snoc: "sorted xs \<Longrightarrow> xs \<noteq> [] \<longrightarrow> last xs \<le> n \<Longrightarrow> sorted (xs @ [n])"
  by (cases xs rule: rev_cases) (auto simp: sorted_append)

lemma fresh_index:
  assumes "manager_ok_for m is" "i < length (builtin_entries m)"
    "activation_block_num (builtin_entries m ! i) = not_active"
  shows "i \<notin> set is" "builtin_entries m ! i = inactive_entry"
proof -
  show i: "i \<notin> set is"
  proof
    assume "i \<in> set is"
    then have "not_active \<in> set (map (\<lambda>i. activation_block_num (builtin_entries m ! i)) is)"
      using assms(3) by force
    then show False
      using manager_ok_forD(5)[OF assms(1)] unfolding manager_ok_forD(3)[OF assms(1)] by simp
  qed
  show "builtin_entries m ! i = inactive_entry"
    using assms(1,2) i by (simp add: manager_ok_for_def)
qed

lemma activate_ok:
  assumes ok: "manager_ok_for m is" and act: "activate_feature d n m = Inr m'" and n: "n \<noteq> not_active"
  shows "\<exists>i. manager_ok_for m' (is @ [i])"
proof -
  obtain i where i: "entry_index (protocol_features m) d = Some i"
    "activated m \<noteq> [] \<longrightarrow> snd (last (activated m)) \<le> n" "i < length (builtin_entries m)"
    "activation_block_num (builtin_entries m ! i) = not_active"
    "m' = m\<lparr>activated := activated m @ [(d, n)],
            builtin_entries := (builtin_entries m)
              [i := \<lparr>previous_builtin = head_of_builtin_activation_list m, activation_block_num = n\<rparr>],
            head_of_builtin_activation_list := Some i\<rparr>"
    using activate_feature_Inr[OF act] .
  note fresh = fresh_index[OF ok i(3,4)]
  note D = manager_ok_forD[OF ok]
  let ?e = "\<lparr>previous_builtin = head_of_builtin_activation_list m, activation_block_num = n\<rparr>"
  let ?es = "(builtin_entries m)[i := ?e]"
  have "sorted (map snd (activated m) @ [n])"
    using sorted_snoc[OF D(6), of n] i(2) by (simp add: last_map)
  moreover have "linked ?es (head_of_builtin_activation_list m) (rev is)"
    using linked_update[OF D(2)] fresh(1) by simp
  moreover have "map (\<lambda>k. activation_block_num (?es ! k)) is = map snd (activated m)"
    unfolding D(3)[symmetric] using fresh(1) by (intro map_cong refl) (metis nth_list_update_neq)
  moreover have "?es ! k = inactive_entry" if "k < length ?es" "k \<notin> set (is @ [i])" for k
    using that D(4)[of k] by simp
  ultimately have "manager_ok_for m' (is @ [i])"
    unfolding manager_ok_for_def using i D(1,5,7) fresh(1) n by simp
  then show ?thesis ..
qed

lemma pop_activated:
  assumes ok: "manager_ok_for m is" and act: "activate_feature d n m = Inr m'" and b: "b < n"
  shows "popped_blocks_to b m' = popped_blocks_to b m"
proof -
  obtain i where i: "initialized m" "i < length (builtin_entries m)"
    "activation_block_num (builtin_entries m ! i) = not_active"
    "m' = m\<lparr>activated := activated m @ [(d, n)],
            builtin_entries := (builtin_entries m)
              [i := \<lparr>previous_builtin = head_of_builtin_activation_list m, activation_block_num = n\<rparr>],
            head_of_builtin_activation_list := Some i\<rparr>"
    using activate_feature_Inr[OF act] by metis
  note fresh = fresh_index[OF ok i(2,3)] and D = manager_ok_forD[OF ok]
  let ?es = "builtin_entries m" and ?h = "head_of_builtin_activation_list m"
  have nb: "\<not> n \<le> b"
    using b by simp
  have restored: "?es[i := inactive_entry] = ?es"
    using fresh(2) by (metis list_update_id)
  have "set (i # is) \<subseteq> {..<length ?es}"
    using linked_bounds[OF D(2)] i(2) by auto
  then have "card (set (i # is)) \<le> length ?es"
    using card_mono[of "{..<length ?es}" "set (i # is)"] by simp
  then have len: "Suc (length is) \<le> length ?es"
    using D(1) fresh(1) by (simp add: distinct_card)
  then obtain f where f: "length ?es = Suc f" "length is \<le> f"
    by (cases "length ?es") auto
  have "pop_builtins f b ?es ?h = pop_builtins (length ?es) b ?es ?h"
    using pop_builtins_fuel[OF D(2), of f "length ?es" b] D(1) f by simp
  then have "pop_builtins (length ?es) b (?es[i := \<lparr>previous_builtin = ?h, activation_block_num = n\<rparr>]) (Some i)
      = pop_builtins (length ?es) b ?es ?h"
    using i(2) f(1) restored nb by simp
  then show ?thesis
    using b by (simp add: popped_blocks_to_def i(1,4))
qed

lemma pop_all_below:
  assumes ok: "manager_ok_for m is" and init: "initialized m" and below: "\<forall>e\<in>set (activated m). snd e \<le> b"
  shows "popped_blocks_to b m = Inr m"
proof -
  note D = manager_ok_forD[OF ok]
  let ?es = "builtin_entries m" and ?h = "head_of_builtin_activation_list m"
  have act: "rev (dropWhile (\<lambda>(d, n). b < n) (rev (activated m))) = activated m"
    using below by (cases "activated m" rule: rev_cases) auto
  have "pop_builtins (length ?es) b ?es ?h = Inr (?es, ?h)"
  proof (cases "rev is")
    case Nil
    then show ?thesis using linked_hd[OF D(2)] by simp
  next
    case (Cons i js)
    then have i: "?h = Some i" "i < length ?es" "i \<in> set is"
      using linked_hd[OF D(2)] linked_bounds[OF D(2)] arg_cong[OF Cons, of set] by auto
    have "activation_block_num (?es ! i) \<in> set (map snd (activated m))"
      unfolding D(3)[symmetric] using i(3) by simp
    then have "activation_block_num (?es ! i) \<le> b"
      using below by auto
    then show ?thesis using i by simp
  qed
  then show ?thesis
    by (simp add: popped_blocks_to_def init act)
qed

lemma activate_initialized: "activate_feature d n m = Inr m' \<Longrightarrow> initialized m \<and> initialized m'"
  by (elim activate_feature_Inr) simp

lemma pop_activations:
  assumes "manager_ok_for m is" "fold_res (\<lambda>(d, n). activate_feature d n) xs m = Inr m'"
    "\<forall>x\<in>set xs. b < snd x \<and> snd x \<noteq> not_active"
  shows "popped_blocks_to b m' = popped_blocks_to b m \<and> (\<exists>js. manager_ok_for m' js)"
  using assms
proof (induction xs arbitrary: m "is")
  case Nil
  then show ?case by auto
next
  case (Cons x xs)
  obtain d n where x: "x = (d, n)" by (cases x)
  obtain m1 where m1: "activate_feature d n m = Inr m1" "fold_res (\<lambda>(d, n). activate_feature d n) xs m1 = Inr m'"
    using Cons.prems(2) by (cases "activate_feature d n m") (auto simp: x)
  obtain i where "manager_ok_for m1 (is @ [i])"
    using activate_ok[OF Cons.prems(1) m1(1)] Cons.prems(3) x by auto
  from Cons.IH[OF this m1(2)] show ?case
    using pop_activated[OF Cons.prems(1) m1(1), of b] Cons.prems(3) x by simp
qed

lemma make_manager_ok: "manager_ok_for ((make_manager pfs)\<lparr>initialized := True\<rparr>) []"
  by (simp add: manager_ok_for_def make_manager_def)

lemma not_active_max: "not_active = - 1"
  by (simp add: not_active_def)

lemma is_builtin_activated_iff:
  assumes ok: "manager_ok_for m is" and c: "c \<noteq> not_active"
  shows "is_builtin_activated b c m \<longleftrightarrow>
    (\<exists>(d, n)\<in>set (activated m). entry_index (protocol_features m) d = Some (codename_index b) \<and> n \<le> c)"
proof -
  note D = manager_ok_forD[OF ok]
  let ?es = "builtin_entries m" and ?i = "codename_index b"
  have len: "length (activated m) = length is"
    using arg_cong[OF D(7), of length] by simp
  have nth: "entry_index (protocol_features m) (fst (activated m ! k)) = Some (is ! k)"
    "activation_block_num (?es ! (is ! k)) = snd (activated m ! k)" if "k < length is" for k
    using arg_cong[OF D(7), of "\<lambda>l. l ! k"] arg_cong[OF D(3), of "\<lambda>l. l ! k"] that len by simp_all
  have "c < not_active"
    using c word_order.extremum[of c] unfolding not_active_max by (simp only: order_less_le) simp
  then have out: "\<not> activation_block_num (?es ! ?i) \<le> c" if "?i < length ?es" "?i \<notin> set is"
    using D(4)[OF that] by (simp add: inactive_entry_def)
  have bounds: "is ! k < length ?es" if "k < length is" for k
    using linked_bounds[OF D(2)] nth_mem[OF that] by auto
  have "is_builtin_activated b c m \<longleftrightarrow> (\<exists>k<length is. is ! k = ?i \<and> snd (activated m ! k) \<le> c)"
  proof
    assume "is_builtin_activated b c m"
    then have a: "?i < length ?es" "activation_block_num (?es ! ?i) \<le> c"
      by (simp_all add: is_builtin_activated_def Let_def split: if_splits)
    then have "?i \<in> set is"
      using out by blast
    then obtain k where "k < length is" "is ! k = ?i"
      by (auto simp: in_set_conv_nth)
    then show "\<exists>k<length is. is ! k = ?i \<and> snd (activated m ! k) \<le> c"
      using a(2) nth(2)[of k] by auto
  next
    assume "\<exists>k<length is. is ! k = ?i \<and> snd (activated m ! k) \<le> c"
    then obtain k where k: "k < length is" "is ! k = ?i" "snd (activated m ! k) \<le> c"
      by blast
    then show "is_builtin_activated b c m"
      using nth(2)[OF k(1)] bounds[OF k(1)] by (simp add: is_builtin_activated_def)
  qed
  also have "\<dots> \<longleftrightarrow>
    (\<exists>(d, n)\<in>set (activated m). entry_index (protocol_features m) d = Some ?i \<and> n \<le> c)"
    using nth(1) len by (fastforce simp: in_set_conv_nth)
  finally show ?thesis .
qed

text \<open>The last activation can be taken back, which is what one turn of both loops does.\<close>

lemma last_activation:
  assumes ok: "manager_ok_for m (is @ [i])" and init: "initialized m"
  obtains m0 d n where "manager_ok_for m0 is" "initialized m0" "activate_feature d n m0 = Inr m"
    "activated m = activated m0 @ [(d, n)]"
proof -
  note D = manager_ok_forD[OF ok]
  let ?es = "builtin_entries m"
  have "activated m \<noteq> []"
    using D(7) by auto
  then obtain act d n where act: "activated m = act @ [(d, n)]"
    by (metis append_butlast_last_id prod.collapse)
  have len: "length act = length is"
    using arg_cong[OF D(7), of length] act by simp
  have i: "entry_index (protocol_features m) d = Some i" "activation_block_num (?es ! i) = n"
    using D(3,7) len by (simp_all add: act)
  have h: "head_of_builtin_activation_list m = Some i" "i < length ?es" "linked ?es (previous_builtin (?es ! i)) (rev is)"
    using D(2) by (cases "head_of_builtin_activation_list m"; auto)+
  have ni: "i \<notin> set is"
    using D(1) by simp
  let ?m0 = "m\<lparr>activated := act, builtin_entries := ?es[i := inactive_entry],
    head_of_builtin_activation_list := previous_builtin (?es ! i)\<rparr>"
  have "linked (?es[i := inactive_entry]) (previous_builtin (?es ! i)) (rev is)"
    using linked_update[OF h(3)] D(1) by simp
  moreover have "map (\<lambda>k. activation_block_num (?es[i := inactive_entry] ! k)) is = map snd act"
  proof -
    have "map (\<lambda>k. activation_block_num (?es ! k)) is = map snd act"
      using D(3) len by (simp add: act)
    moreover have "map (\<lambda>k. activation_block_num (?es[i := inactive_entry] ! k)) is =
        map (\<lambda>k. activation_block_num (?es ! k)) is"
      using ni by (intro map_cong refl) (metis nth_list_update_neq)
    ultimately show ?thesis by simp
  qed
  moreover have "?es[i := inactive_entry] ! k = inactive_entry" if "k < length ?es" "k \<notin> set is" for k
    using that D(4)[of k] by (cases "k = i") simp_all
  ultimately have ok0: "manager_ok_for ?m0 is"
    using D(1,5-7) len by (simp add: manager_ok_for_def act sorted_append)
  obtain f b where f: "find_feature (protocol_features m) d = Some f" "builtin_feature f = Some b" "codename_index b = i"
    using i(1) by (auto simp: entry_index_def split: option.splits)
  have "act \<noteq> [] \<longrightarrow> snd (last act) \<le> n"
    using D(6) by (auto simp: act sorted_append)
  moreover have "?es[i := \<lparr>previous_builtin = previous_builtin (?es ! i), activation_block_num = n\<rparr>] = ?es"
    using i(2) by (cases "?es ! i") (metis builtin_protocol_feature_entry.select_convs list_update_id)
  then have "m\<lparr>activated := act @ [(d, n)],
      builtin_entries := ?es[i := \<lparr>previous_builtin = previous_builtin (?es ! i), activation_block_num = n\<rparr>],
      head_of_builtin_activation_list := Some i\<rparr> = m"
    using act h(1) by (cases m) simp
  ultimately have "activate_feature d n ?m0 = Inr m"
    using f h(2) init by (simp add: activate_feature_def assert_res_def inactive_entry_def Let_def)
  then show ?thesis
    using that[OF ok0] init act by simp
qed

lemma popped_blocks_result:
  assumes "manager_ok_for m is" "initialized m"
  shows "\<exists>m' js. popped_blocks_to b m = Inr m' \<and> initialized m' \<and> manager_ok_for m' js \<and>
    protocol_features m' = protocol_features m \<and> activated m' = filter (\<lambda>e. snd e \<le> b) (activated m)"
  using assms
proof (induction "is" arbitrary: m rule: rev_induct)
  case Nil
  then have "activated m = []"
    using manager_ok_forD(7) by fastforce
  then show ?case
    using pop_all_below[OF Nil, of b] Nil by auto
next
  case (snoc i "is")
  obtain m0 d n where m0: "manager_ok_for m0 is" "initialized m0" "activate_feature d n m0 = Inr m"
    "activated m = activated m0 @ [(d, n)]"
    using last_activation[OF snoc.prems] .
  have pfs: "protocol_features m0 = protocol_features m"
    using m0(3) by (elim activate_feature_Inr) simp
  show ?case
  proof (cases "n \<le> b")
    case True
    have le: "\<forall>e\<in>set (activated m). snd e \<le> b"
      using manager_ok_forD(6)[OF snoc.prems(1)] True by (fastforce simp: m0(4) sorted_append)
    then have "filter (\<lambda>e. snd e \<le> b) (activated m) = activated m"
      by simp
    then show ?thesis
      using pop_all_below[OF snoc.prems le] snoc.prems by metis
  next
    case False
    then show ?thesis
      using snoc.IH[OF m0(1,2)] pop_activated[OF m0(1,3), of b] pfs m0(4) by simp
  qed
qed

section \<open>Reachable managers\<close>

inductive manager_reachable :: "protocol_feature_manager \<Rightarrow> bool" where
  start: "manager_reachable ((make_manager pfs)\<lparr>initialized := True\<rparr>)"
| activate: "manager_reachable m \<Longrightarrow> n \<noteq> not_active \<Longrightarrow> activate_feature d n m = Inr m' \<Longrightarrow> manager_reachable m'"
| pop: "manager_reachable m \<Longrightarrow> popped_blocks_to n m = Inr m' \<Longrightarrow> manager_reachable m'"

lemma manager_reachable_ok: "manager_reachable m \<Longrightarrow> initialized m \<and> (\<exists>is. manager_ok_for m is)"
proof (induction rule: manager_reachable.induct)
  case (start pfs)
  then show ?case using make_manager_ok by auto
next
  case (activate m n d m')
  then show ?case using activate_ok activate_initialized by blast
next
  case (pop m n m')
  then obtain "is" where "manager_ok_for m is" "initialized m" by auto
  from popped_blocks_result[OF this, of n] show ?case
    using pop.hyps(2) by auto
qed

section \<open>A sample\<close>

definition sample_digest :: "builtin_protocol_feature \<Rightarrow> digest" where
  "sample_digest f = \<lparr>hash0 = of_nat (Suc (codename_index (bf_codename f))), hash1 = 0, hash2 = 0, hash3 = 0\<rparr>"

definition sample_features :: "protocol_feature_set result" where
  "sample_features =
     bind_res (make_default_builtin_protocol_feature Preactivate_feature (\<lambda>_. Inl Protocol_feature_exception)) (\<lambda>f.
     bind_res (add_feature sample_digest f empty_feature_set) (\<lambda>pfs.
     bind_res (make_default_builtin_protocol_feature Replace_deferred (\<lambda>_. Inl Protocol_feature_exception)) (\<lambda>g.
     bind_res (add_feature sample_digest g pfs) (\<lambda>pfs'.
     bind_res (make_default_builtin_protocol_feature No_duplicate_deferred_id
                 (\<lambda>b. case get_builtin_digest pfs' b of None \<Rightarrow> Inl Protocol_feature_exception | Some d \<Rightarrow> Inr d)) (\<lambda>h.
     add_feature sample_digest h pfs')))))"

definition nth_digest :: "nat \<Rightarrow> digest" where
  "nth_digest n = \<lparr>hash0 = of_nat n, hash1 = 0, hash2 = 0, hash3 = 0\<rparr>"

definition sample_manager :: "protocol_feature_manager result" where
  "sample_manager =
     bind_res sample_features (\<lambda>pfs.
     bind_res (init_manager [(nth_digest 1, 10)] (make_manager pfs)) (\<lambda>m.
     activate_feature (nth_digest 3) 20 m))"

lemma sample_features_Inr: "returns sample_features"
  by code_simp

lemma sample_manager_Inr: "returns sample_manager"
  by code_simp

lemma sample_manager_reachable: "manager_reachable (projr sample_manager)"
proof -
  obtain pfs where pfs: "sample_features = Inr pfs"
    using sample_features_Inr by (auto simp: returns_def split: sum.splits)
  obtain m2 where m2: "sample_manager = Inr m2"
    using sample_manager_Inr by (auto simp: returns_def split: sum.splits)
  then obtain m1 where m1: "activate_feature (nth_digest 1) 10 ((make_manager pfs)\<lparr>initialized := True\<rparr>) = Inr m1"
    "activate_feature (nth_digest 3) 20 m1 = Inr m2"
    by (auto simp: sample_manager_def pfs init_manager_def bind_res_eq_Inr)
  have "(10 :: 32 word) \<noteq> not_active" "(20 :: 32 word) \<noteq> not_active"
    by (simp_all add: not_active_def)
  then show ?thesis
    unfolding m2 using manager_reachable.activate[OF manager_reachable.activate[OF manager_reachable.start _ m1(1)] _ m1(2)]
    by simp
qed

section \<open>Properties\<close>

text \<open>
  C31. In every reachable manager, popping the blocks above a number returns and leaves exactly the activations
  at or below it, in order; and afterwards a builtin feature counts as active in a block exactly when one of the remaining
  activations, at or below that block, is of that feature.
\<close>
theorem popped_blocks_exact:
  assumes "manager_reachable m"
  shows "\<exists>m'. popped_blocks_to b m = Inr m' \<and> activated m' = filter (\<lambda>e. snd e \<le> b) (activated m) \<and>
    (\<forall>f c. c \<noteq> not_active \<longrightarrow> is_builtin_activated f c m' =
       (\<exists>(d, n)\<in>set (activated m). entry_index (protocol_features m) d = Some (codename_index f) \<and> n \<le> b \<and> n \<le> c))"
proof -
  obtain "is" where ok: "manager_ok_for m is" "initialized m"
    using manager_reachable_ok[OF assms] by blast
  obtain m' js where m': "popped_blocks_to b m = Inr m'" "manager_ok_for m' js"
    "protocol_features m' = protocol_features m" "activated m' = filter (\<lambda>e. snd e \<le> b) (activated m)"
    using popped_blocks_result[OF ok, of b] by blast
  have "is_builtin_activated f c m' =
    (\<exists>(d, n)\<in>set (activated m). entry_index (protocol_features m) d = Some (codename_index f) \<and> n \<le> b \<and> n \<le> c)"
    if "c \<noteq> not_active" for f c
    unfolding is_builtin_activated_iff[OF m'(2) that] m'(3,4) by auto
  then show ?thesis
    using m'(1,4) by blast
qed

theorem popped_blocks_exact_witness:
  "\<exists>m'. popped_blocks_to 15 (projr sample_manager) = Inr m' \<and> activated m' = [(nth_digest 1, 10)]"
proof -
  have "activated (projr sample_manager) = [(nth_digest 1, 10), (nth_digest 3, 20)]"
    by code_simp
  then show ?thesis
    using popped_blocks_exact[OF sample_manager_reachable, of 15] by auto
qed

text \<open>
  Activating any sequence of features in blocks above a number and then popping the blocks above it gives
  back the manager before, entry by entry.
\<close>
theorem popped_blocks_restore:
  assumes "manager_reachable m" "\<forall>e\<in>set (activated m). snd e \<le> b"
    "fold_res (\<lambda>(d, n). activate_feature d n) xs m = Inr m'" "\<forall>x\<in>set xs. b < snd x \<and> snd x \<noteq> not_active"
  shows "popped_blocks_to b m' = Inr m"
proof -
  obtain "is" where ok: "manager_ok_for m is" "initialized m"
    using manager_reachable_ok[OF assms(1)] by blast
  show ?thesis
    using pop_activations[OF ok(1) assms(3,4)] pop_all_below[OF ok assms(2)] by simp
qed

theorem popped_blocks_restore_witness:
  "\<exists>m'. activate_feature (nth_digest 4) 30 (projr sample_manager) = Inr m' \<and>
     popped_blocks_to 25 m' = Inr (projr sample_manager)"
proof -
  let ?m = "projr sample_manager"
  have "returns (activate_feature (nth_digest 4) 30 ?m)" "\<forall>e\<in>set (activated ?m). snd e \<le> 25"
    by code_simp+
  then obtain m' where m': "activate_feature (nth_digest 4) 30 ?m = Inr m'" and le: "\<forall>e\<in>set (activated ?m). snd e \<le> 25"
    by (auto simp: returns_def split: sum.splits)
  have "popped_blocks_to 25 m' = Inr ?m"
    by (rule popped_blocks_restore[OF sample_manager_reachable le, of "[(nth_digest 4, 30)]"])
       (simp_all add: m' not_active_def)
  then show ?thesis using m' by blast
qed


end
