(* ===== verification/Block_Header.thy ===== *)
theory Block_Header
  imports Protocol_Features Authority Block_Timestamp
begin

text \<open>
  Producer schedules (\<^verbatim>\<open>producer_schedule.hpp\<close>), block headers with their extensions and ids
  (\<^verbatim>\<open>block_header.hpp\<close>, \<^verbatim>\<open>block_header.cpp\<close>, \<^verbatim>\<open>types.hpp\<close>), and the set of activated features
  (\<^verbatim>\<open>protocol_feature_activation.cpp\<close>).

  A finite double is a mantissa and an exponent; the code only compares rates with zero. The hash of a header and the packing
  of extension data into bytes are function arguments. A flat set of digests is a list without repetition, its order is not modelled.
\<close>

unbundle bit_operations_syntax

section \<open>Schedules and signing authorities\<close>

record 'k block_signing_authority =
  sa_threshold :: "32 word"
  sa_keys :: "'k key_weight list"

record 'k producer_authority =
  producer_name :: "64 word"
  signing_authority :: "'k block_signing_authority"

record 'k producer_authority_schedule =
  version :: "32 word"
  producers :: "'k producer_authority list"

record 'k producer_key =
  legacy_producer_name :: "64 word"
  block_signing_key :: 'k

record 'k legacy_schedule =
  legacy_version :: "32 word"
  legacy_producers :: "'k producer_key list"

datatype double = Finite (mantissa: int) (exponent: int) | Infinite bool | NaN

definition double_positive :: "double \<Rightarrow> bool" where
  "double_positive x = (case x of Finite m e \<Rightarrow> 0 < m | Infinite pos \<Rightarrow> pos | NaN \<Rightarrow> False)"

definition double_zero :: "double \<Rightarrow> bool" where
  "double_zero x = (case x of Finite m e \<Rightarrow> m = 0 | _ \<Rightarrow> False)"

record producer_rate_info =
  rate_info_version :: "32 word"
  rate :: double

definition keys_step :: "'k list \<Rightarrow> 32 word \<Rightarrow> 'k key_weight \<Rightarrow> 32 word \<times> nat \<Rightarrow> 32 word \<times> nat" where
  "keys_step presented thr kw acc =
     (case acc of (total_weight, num_relevant_keys) \<Rightarrow>
        if kw_key kw \<in> set presented
        then (if total_weight < thr then total_weight + min (- 1 - total_weight) (ucast (kw_weight kw)) else total_weight,
              Suc num_relevant_keys)
        else acc)"

definition keys_satisfy_and_relevant :: "'k list \<Rightarrow> 'k block_signing_authority \<Rightarrow> bool \<times> nat" where
  "keys_satisfy_and_relevant presented auth =
     (let (total_weight, num_relevant_keys) = fold (keys_step presented (sa_threshold auth)) (sa_keys auth) (0, 0)
      in (sa_threshold auth \<le> total_weight, num_relevant_keys))"

text \<open>The conversion of a legacy schedule: each producer signs with one key of weight one.\<close>

definition up_convert :: "'k legacy_schedule \<Rightarrow> 'k producer_authority_schedule" where
  "up_convert old =
     \<lparr>version = legacy_version old,
      producers = map (\<lambda>p. \<lparr>producer_name = legacy_producer_name p,
        signing_authority = \<lparr>sa_threshold = 1, sa_keys = [\<lparr>kw_key = block_signing_key p, kw_weight = 1\<rparr>]\<rparr>\<rparr>)
        (legacy_producers old)\<rparr>"

section \<open>Activated features\<close>

fun all_different :: "digest list \<Rightarrow> digest list \<Rightarrow> unit result" where
  "all_different s [] = Inr ()"
| "all_different s (d # ds) = (if d \<in> set s then Inl Ill_formed_protocol_feature_activation else all_different (d # s) ds)"

definition activation_reflector_init :: "digest list \<Rightarrow> unit result" where
  "activation_reflector_init features =
     bind_res (assert_res (0 < length features) Ill_formed_protocol_feature_activation) (\<lambda>_. all_different [] features)"

definition activation_set :: "digest list \<Rightarrow> digest list \<Rightarrow> bool \<Rightarrow> digest list result" where
  "activation_set orig additional enforce_disjoint =
     (let features = orig @ filter (\<lambda>d. d \<notin> set orig) (remdups additional) in
      bind_res (assert_res (\<not> enforce_disjoint \<or> length features = length orig + length additional)
                  Invalid_block_header_extension) (\<lambda>_. Inr features))"

section \<open>Headers and their extensions\<close>

type_synonym bytes = "8 word list"
type_synonym extensions = "(16 word \<times> bytes) list"

record 'k block_header =
  bh_timestamp :: slot
  producer :: "64 word"
  confirmed :: "16 word"
  bh_previous :: digest
  transaction_mroot :: digest
  action_mroot :: digest
  schedule_version :: "32 word"
  new_producers :: "'k legacy_schedule option"
  rate_version :: "32 word"
  new_rate :: "producer_rate_info option"
  header_extensions :: extensions

record ('k, 's) signed_block_header = "'k block_header" +
  producer_signature :: 's

datatype 'k block_header_extension =
    Protocol_feature_activation "digest list"
  | Producer_schedule_change "'k producer_authority_schedule"

record 'k extension_codec =
  pack_activation :: "digest list \<Rightarrow> bytes"
  unpack_activation :: "bytes \<Rightarrow> digest list option"
  pack_schedule :: "'k producer_authority_schedule \<Rightarrow> bytes"
  unpack_schedule :: "bytes \<Rightarrow> 'k producer_authority_schedule option"

definition activation_extension_id :: "16 word" where
  "activation_extension_id = 0"

definition schedule_change_extension_id :: "16 word" where
  "schedule_change_extension_id = 1"

definition emplace_extension :: "extensions \<Rightarrow> 16 word \<Rightarrow> bytes \<Rightarrow> extensions" where
  "emplace_extension exts eid data =
     takeWhile (\<lambda>e. \<not> eid < fst e) exts @ (eid, data) # dropWhile (\<lambda>e. \<not> eid < fst e) exts"

text \<open>The decoding of one extension; \<open>None\<close> when no extension type has this id. Both types may occur only once.\<close>

definition extract_extension ::
  "'k extension_codec \<Rightarrow> 16 word \<Rightarrow> bytes \<Rightarrow> 'k block_header_extension option result" where
  "extract_extension codec eid data =
     (if eid = activation_extension_id then
        (case unpack_activation codec data of
           None \<Rightarrow> Inl Unpack_error
         | Some ds \<Rightarrow> bind_res (activation_reflector_init ds) (\<lambda>_. Inr (Some (Protocol_feature_activation ds))))
      else if eid = schedule_change_extension_id then
        (case unpack_schedule codec data of
           None \<Rightarrow> Inl Unpack_error
         | Some s \<Rightarrow> Inr (Some (Producer_schedule_change s)))
      else Inr None)"

fun extract_extensions ::
  "'k extension_codec \<Rightarrow> bool \<Rightarrow> 16 word \<Rightarrow> extensions \<Rightarrow> (16 word \<times> 'k block_header_extension) list result" where
  "extract_extensions codec first lower [] = Inr []"
| "extract_extensions codec first lower ((eid, data) # rest) =
     bind_res (assert_res (lower \<le> eid) Invalid_block_header_extension) (\<lambda>_.
     bind_res (extract_extension codec eid data) (\<lambda>match.
     case match of
       None \<Rightarrow> Inl Invalid_block_header_extension
     | Some e \<Rightarrow>
         bind_res (assert_res (first \<or> lower < eid) Invalid_block_header_extension) (\<lambda>_.
         bind_res (extract_extensions codec False eid rest) (\<lambda>es. Inr ((eid, e) # es)))))"

definition validate_and_extract_header_extensions ::
  "'k extension_codec \<Rightarrow> ('k, 's) signed_block_header \<Rightarrow> (16 word \<times> 'k block_header_extension) list result" where
  "validate_and_extract_header_extensions codec h = extract_extensions codec True 0 (header_extensions h)"

section \<open>Block ids\<close>

definition endian_reverse_u32 :: "32 word \<Rightarrow> 32 word" where
  "endian_reverse_u32 x =
     (drop_bit 0x18 x AND 0xFF) OR push_bit 0x08 (drop_bit 0x10 x AND 0xFF) OR
     push_bit 0x10 (drop_bit 0x08 x AND 0xFF) OR push_bit 0x18 (x AND 0xFF)"

definition num_from_id :: "digest \<Rightarrow> 32 word" where
  "num_from_id i = endian_reverse_u32 (ucast (hash0 i))"

definition header_block_num :: "('k, 's) signed_block_header \<Rightarrow> 32 word" where
  "header_block_num h = num_from_id (bh_previous h) + 1"

text \<open>The digest covers the fields of \<open>block_header\<close>, without the signature.\<close>

definition calculate_id :: "('k block_header \<Rightarrow> digest) \<Rightarrow> ('k, 's) signed_block_header \<Rightarrow> digest" where
  "calculate_id digest_of h =
     (let d = digest_of (block_header.truncate h) in
      d\<lparr>hash0 := (hash0 d AND 0xFFFFFFFF00000000) + ucast (endian_reverse_u32 (header_block_num h))\<rparr>)"

section \<open>Lemmas\<close>

lemma bit_endian_reverse:
  "bit (endian_reverse_u32 x) n \<longleftrightarrow>
    n < 32 \<and> (if n < 8 then bit x (n + 24) else if n < 16 then bit x (n + 8)
              else if n < 24 then bit x (n - 8) else bit x (n - 24))"
proof -
  have ff: "(0xFF :: 32 word) = mask 8"
    by (simp add: mask_eq_exp_minus_1)
  have "endian_reverse_u32 x = take_bit 8 (drop_bit 24 x) OR push_bit 8 (take_bit 8 (drop_bit 16 x)) OR
      push_bit 16 (take_bit 8 (drop_bit 8 x)) OR push_bit 24 (take_bit 8 x)"
    unfolding endian_reverse_u32_def ff take_bit_eq_mask by simp
  moreover have "bit x (n + 24) \<Longrightarrow> n < 8" "bit x n \<Longrightarrow> n < 32"
    using bit_imp_le_length[of x] by fastforce+
  ultimately show ?thesis
    by (auto simp: bit_or_iff bit_push_bit_iff bit_drop_bit_eq bit_take_bit_iff add.commute)
qed

lemma endian_reverse_involution: "endian_reverse_u32 (endian_reverse_u32 x) = x"
  by (rule bit_word_eqI) (auto simp: bit_endian_reverse)

lemma calculate_id_num: "num_from_id (calculate_id digest_of h) = header_block_num h"
proof -
  let ?n = "endian_reverse_u32 (header_block_num h)"
  have hi: "(0xFFFFFFFF00000000 :: 64 word) = push_bit 32 (mask 32)"
    by (simp add: mask_eq_exp_minus_1)
  have "ucast ((w AND 0xFFFFFFFF00000000) + ucast ?n :: 64 word) = (?n :: 32 word)" for w :: "64 word"
  proof -
    have "(w AND push_bit 32 (mask 32)) AND ucast ?n = 0"
      by (rule bit_word_eqI) (auto simp: bit_and_iff bit_push_bit_iff bit_ucast_iff dest: bit_imp_le_length)
    then have "(w AND push_bit 32 (mask 32)) + ucast ?n = (w AND push_bit 32 (mask 32)) OR ucast ?n"
      by (rule disjunctive_add_eq_or)
    then show ?thesis
      unfolding hi by (auto intro!: bit_word_eqI simp: bit_and_iff bit_or_iff bit_push_bit_iff bit_ucast_iff)
  qed
  then show ?thesis
    by (simp add: num_from_id_def calculate_id_def Let_def endian_reverse_involution)
qed

text \<open>The weights of the presented keys; the saturating loop that stops at the threshold compares their exact sum with it.\<close>

definition presented_weight :: "'k list \<Rightarrow> 'k key_weight list \<Rightarrow> nat" where
  "presented_weight presented kws = (\<Sum>kw\<leftarrow>filter (\<lambda>kw. kw_key kw \<in> set presented) kws. unat (kw_weight kw))"

definition weight_inv :: "32 word \<Rightarrow> 32 word \<Rightarrow> nat \<Rightarrow> bool" where
  "weight_inv thr tw s \<longleftrightarrow> (thr \<le> tw \<longleftrightarrow> unat thr \<le> s) \<and> (tw < thr \<longrightarrow> unat tw = s)"

lemma unat_max_word32: "unat (- 1 :: 32 word) = 2 ^ 32 - 1"
  by (simp add: unsigned_minus_1_eq_mask mask_eq_exp_minus_1)

lemma weight_inv_step:
  assumes "weight_inv thr tw s"
  shows "weight_inv thr (if tw < thr then tw + min (- 1 - tw) (ucast (w :: 16 word)) else tw) (s + unat w)"
proof (cases "tw < thr")
  case True
  then have s: "unat tw = s"
    using assms by (simp add: weight_inv_def)
  have w: "unat (ucast w :: 32 word) = unat w"
    by (rule unat_weight)
  have m: "unat (- 1 - tw) = 2 ^ 32 - 1 - s"
    using s unat_sub[of tw "- 1"] by (simp add: unat_max_word32)
  have lt: "unat thr < 2 ^ 32" "s < 2 ^ 32"
    using unsigned_less[of thr, where 'a = nat] unsigned_less[of tw, where 'a = nat] s by simp_all
  have u: "unat (tw + min (- 1 - tw) (ucast w)) = min (2 ^ 32 - 1) (s + unat w)"
  proof (cases "2 ^ 32 - 1 - s \<le> unat w")
    case True
    then have "min (- 1 - tw) (ucast w) = - 1 - tw"
      using m w by (simp add: min_def word_le_nat_alt)
    then show ?thesis
      using True lt by (simp add: unat_max_word32)
  next
    case False
    then have "min (- 1 - tw) (ucast w) = ucast w" "unat tw + unat (ucast w :: 32 word) < 2 ^ 32"
      using m w s by (simp_all add: min_def word_le_nat_alt)
    then show ?thesis
      using False w s by (simp add: unat_word_ariths)
  qed
  then show ?thesis
    using True lt by (auto simp: weight_inv_def word_le_nat_alt word_less_nat_alt u)
next
  case False
  then show ?thesis
    using assms by (auto simp: weight_inv_def)
qed

lemma fold_keys_step:
  assumes "weight_inv thr tw s"
  shows "weight_inv thr (fst (fold (keys_step presented thr) kws (tw, n))) (s + presented_weight presented kws) \<and>
    snd (fold (keys_step presented thr) kws (tw, n)) = n + length (filter (\<lambda>kw. kw_key kw \<in> set presented) kws)"
  using assms
proof (induction kws arbitrary: tw s n)
  case Nil
  then show ?case by (simp add: presented_weight_def)
next
  case (Cons kw kws)
  show ?case
  proof (cases "kw_key kw \<in> set presented")
    case True
    let ?t = "if tw < thr then tw + min (- 1 - tw) (ucast (kw_weight kw)) else tw"
    have "keys_step presented thr kw (tw, n) = (?t, Suc n)"
      using True by (simp add: keys_step_def)
    then show ?thesis
      using Cons.IH[OF weight_inv_step[OF Cons.prems], of "kw_weight kw" "Suc n"] True
      by (simp add: presented_weight_def add.assoc)
  next
    case False
    then show ?thesis
      using Cons.IH[OF Cons.prems] by (simp add: keys_step_def presented_weight_def)
  qed
qed

lemma keys_satisfy_and_relevant_eq:
  "keys_satisfy_and_relevant presented auth =
    (unat (sa_threshold auth) \<le> presented_weight presented (sa_keys auth),
     length (filter (\<lambda>kw. kw_key kw \<in> set presented) (sa_keys auth)))"
proof -
  have "weight_inv (sa_threshold auth) 0 0"
    by (simp add: weight_inv_def unat_eq_0)
  from fold_keys_step[OF this, of presented "sa_keys auth" 0] show ?thesis
    by (simp add: keys_satisfy_and_relevant_def weight_inv_def case_prod_beta Let_def prod_eq_iff)
qed

lemma all_different_distinct: "all_different s ds = (if distinct ds \<and> set ds \<inter> set s = {} then Inr () else Inl Ill_formed_protocol_feature_activation)"
  by (induction s ds rule: all_different.induct) auto


end
