(* ===== verification/Block_Header_State.thy ===== *)
theory Block_Header_State
  imports Block_Header
begin

text \<open>
  The header state (\<^verbatim>\<open>libraries/chain/block_header_state.cpp\<close> and its header): the scheduled producer, the two-phase
  confirmation count that proposes and then decides irreversible blocks, the promotion of pending schedules and rates, the
  header of the next block and its validation, and the signatures.

  Block numbers, confirmation counts and versions keep their widths and wrap. The hashes and the recovery of keys from
  signatures are the fields of \<open>header_crypto\<close>, the packing of extensions is an \<open>extension_codec\<close>; both are arguments.
  A flat map is an association list ordered by its keys.
\<close>

section \<open>Flat maps\<close>

fun flat_map_set :: "'a::linorder \<Rightarrow> 'b \<Rightarrow> ('a \<times> 'b) list \<Rightarrow> ('a \<times> 'b) list" where
  "flat_map_set k v [] = [(k, v)]"
| "flat_map_set k v ((a, b) # ps) =
     (if k < a then (k, v) # (a, b) # ps else if k = a then (k, v) # ps else (a, b) # flat_map_set k v ps)"

section \<open>State\<close>

record ('k, 's) header_crypto =
  header_digest :: "'k block_header \<Rightarrow> digest"
  pair_digest :: "digest \<times> digest \<Rightarrow> digest"
  legacy_schedule_digest :: "'k legacy_schedule \<Rightarrow> digest"
  schedule_digest :: "'k producer_authority_schedule \<Rightarrow> digest"
  rate_digest :: "producer_rate_info \<Rightarrow> digest"
  recover_key :: "'s \<Rightarrow> digest \<Rightarrow> 'k result"

type_synonym slot_validator = "slot \<Rightarrow> digest list \<Rightarrow> digest list \<Rightarrow> unit result"

record 'k block_header_state_common =
  block_num :: "32 word"
  dpos_proposed_irreversible_blocknum :: "32 word"
  dpos_irreversible_blocknum :: "32 word"
  active_schedule :: "'k producer_authority_schedule"
  active_rate :: producer_rate_info
  blockroot_merkle :: incremental_merkle
  producer_to_last_produced :: "(64 word \<times> 32 word) list"
  producer_to_last_implied_irb :: "(64 word \<times> 32 word) list"
  valid_block_signing_authority :: "'k block_signing_authority"
  confirm_count :: "8 word list"

record 'k schedule_info =
  schedule_lib_num :: "32 word"
  schedule_hash :: digest
  schedule :: "'k producer_authority_schedule"

record rate_info =
  rate_lib_num :: "32 word"
  rate_hash :: digest
  rate_info :: producer_rate_info

record 'k pending_block_header_state = "'k block_header_state_common" +
  prev_activated_protocol_features :: "digest list"
  prev_pending_schedule :: "'k schedule_info"
  prev_pending_rate :: rate_info
  was_pending_promoted :: bool
  was_pending_rate_promoted :: bool
  previous :: digest
  next_producer :: "64 word"
  timestamp :: slot
  active_schedule_version :: "32 word"
  active_rate_version :: "32 word"
  next_confirmed :: "16 word"

record ('k, 's) block_header_state = "'k block_header_state_common" +
  block_id :: digest
  header :: "('k, 's) signed_block_header"
  pending_schedule :: "'k schedule_info"
  pending_rate :: rate_info
  activated_protocol_features :: "digest list"
  additional_signatures :: "'s list"
  header_exts :: "(16 word \<times> 'k block_header_extension) list"

definition producer_repetitions :: nat where
  "producer_repetitions = 12"

definition max_producers :: nat where
  "max_producers = 125"

definition maximum_tracked_dpos_confirmations :: nat where
  "maximum_tracked_dpos_confirmations = 1024"

section \<open>The next producer and the irreversible block\<close>

definition builtin_in_set :: "digest list \<Rightarrow> protocol_feature_set \<Rightarrow> builtin_protocol_feature_t \<Rightarrow> bool" where
  "builtin_in_set pfa pfs b = (case get_builtin_digest pfs b of None \<Rightarrow> False | Some d \<Rightarrow> d \<in> set pfa)"

definition get_scheduled_producer ::
  "('k, 's) block_header_state \<Rightarrow> slot \<Rightarrow> 'k producer_authority result" where
  "get_scheduled_producer s t =
     (let ps = producers (active_schedule s) in
      if length ps * producer_repetitions = 0 then Inl Undefined_behaviour
      else Inr (ps ! (unat t mod (length ps * producer_repetitions) div producer_repetitions)))"

definition calc_dpos_last_irreversible :: "('k, 's) block_header_state \<Rightarrow> 64 word \<Rightarrow> 32 word" where
  "calc_dpos_last_irreversible s producer_of_next_block =
     (let blocknums = map (\<lambda>(p, irb). if p = producer_of_next_block then dpos_proposed_irreversible_blocknum s else irb)
                        (producer_to_last_implied_irb s) in
      if blocknums = [] then 0
      else sort blocknums ! ((length blocknums - 1) div 3))"

section \<open>Confirmations\<close>

definition required_confs :: "nat \<Rightarrow> 8 word" where
  "required_confs num_active_producers = ucast (of_nat (num_active_producers * 2 div 3) + 1 :: 32 word)"

definition grow_confirm_count :: "8 word list \<Rightarrow> 8 word \<Rightarrow> 8 word list" where
  "grow_confirm_count cc required =
     (if length cc < maximum_tracked_dpos_confirmations then cc @ [required] else tl cc @ [required])"

text \<open>
  The loop over the counts from the last one down; the first argument is the number of counts still to visit, the second of blocks still
  to confirm, and \<open>num\<close> the number of the new block.
\<close>

fun confirm_loop :: "nat \<Rightarrow> nat \<Rightarrow> 32 word \<Rightarrow> 8 word list \<Rightarrow> 32 word \<Rightarrow> 8 word list \<times> 32 word" where
  "confirm_loop 0 blocks num cc proposed = (cc, proposed)"
| "confirm_loop (Suc i) 0 num cc proposed = (cc, proposed)"
| "confirm_loop (Suc i) (Suc blocks) num cc proposed =
     (let cc' = cc[i := cc ! i - 1] in
      if cc' ! i = 0 then (drop (Suc i) cc', num - of_nat (length cc' - 1 - i))
      else confirm_loop i blocks num cc' proposed)"

definition confirm_blocks :: "16 word \<Rightarrow> 32 word \<Rightarrow> 8 word list \<Rightarrow> 32 word \<Rightarrow> 8 word list \<times> 32 word" where
  "confirm_blocks num_prev_blocks_to_confirm num cc proposed =
     confirm_loop (length cc) (unat num_prev_blocks_to_confirm + 1) num cc proposed"

section \<open>The next state\<close>

text \<open>The map of a newly active schedule: the producer's own value, the known value of others, or a fallback.\<close>

definition carry_over ::
  "'k producer_authority list \<Rightarrow> 64 word \<Rightarrow> 32 word \<Rightarrow> (64 word \<times> 32 word) list \<Rightarrow> 32 word \<Rightarrow> (64 word \<times> 32 word) list" where
  "carry_over ps self own old fallback =
     fold (\<lambda>pro m. flat_map_set (producer_name pro)
             (if producer_name pro = self then own
              else case map_of old (producer_name pro) of Some v \<Rightarrow> v | None \<Rightarrow> fallback) m) ps []"

definition next_time :: "('k, 's) block_header_state \<Rightarrow> slot \<Rightarrow> slot result" where
  "next_time s when_slot =
     (if when_slot \<noteq> 0
      then bind_res (assert_res (bh_timestamp (header s) < when_slot) Block_validate_exception) (\<lambda>_. Inr when_slot)
      else Inr (bh_timestamp (header s) + 1))"

definition promotes_schedule :: "('k, 's) block_header_state \<Rightarrow> 32 word \<Rightarrow> bool" where
  "promotes_schedule s lib \<longleftrightarrow>
     producers (schedule (pending_schedule s)) \<noteq> [] \<and> schedule_lib_num (pending_schedule s) \<le> lib"

definition promotes_rate :: "('k, 's) block_header_state \<Rightarrow> 32 word \<Rightarrow> bool" where
  "promotes_rate s lib \<longleftrightarrow>
     double_positive (rate (rate_info (pending_rate s))) \<and> rate_lib_num (pending_rate s) \<le> lib"

definition build_pending ::
  "('k, 's) block_header_state \<Rightarrow> slot \<Rightarrow> 16 word \<Rightarrow> 'k producer_authority \<Rightarrow> incremental_merkle \<Rightarrow>
     'k pending_block_header_state" where
  "build_pending s w confs proauth tree =
     (let num = block_num s + 1;
          name = producer_name proauth;
          grown = grow_confirm_count (confirm_count s) (required_confs (length (producers (active_schedule s))));
          (counts, proposed) = confirm_blocks confs num grown (dpos_proposed_irreversible_blocknum s);
          lib = calc_dpos_last_irreversible s name;
          promoted = promotes_schedule s lib;
          rate_promoted = promotes_rate s lib;
          sched = (if promoted then schedule (pending_schedule s) else active_schedule s);
          produced = (if promoted then carry_over (producers sched) name num (producer_to_last_produced s) lib
                      else producer_to_last_produced s);
          implied = (if promoted
                     then carry_over (producers sched) name (dpos_proposed_irreversible_blocknum s)
                            (producer_to_last_implied_irb s) lib
                     else flat_map_set name (dpos_proposed_irreversible_blocknum s) (producer_to_last_implied_irb s)) in
      \<lparr>block_num = num, dpos_proposed_irreversible_blocknum = proposed, dpos_irreversible_blocknum = lib,
       active_schedule = sched,
       active_rate = (if rate_promoted then rate_info (pending_rate s) else active_rate s),
       blockroot_merkle = tree,
       producer_to_last_produced = flat_map_set name num produced,
       producer_to_last_implied_irb = implied,
       valid_block_signing_authority = signing_authority proauth,
       confirm_count = counts,
       prev_activated_protocol_features = activated_protocol_features s,
       prev_pending_schedule = pending_schedule s, prev_pending_rate = pending_rate s,
       was_pending_promoted = promoted, was_pending_rate_promoted = rate_promoted,
       previous = block_id s, next_producer = name, timestamp = w,
       active_schedule_version = version (active_schedule s),
       active_rate_version = rate_info_version (active_rate s),
       next_confirmed = confs\<rparr>)"

definition next_pending ::
  "('k, 's) header_crypto \<Rightarrow> slot \<Rightarrow> 16 word \<Rightarrow> ('k, 's) block_header_state \<Rightarrow> 'k pending_block_header_state result" where
  "next_pending crypt when_slot confs s =
     bind_res (next_time s when_slot) (\<lambda>w.
     bind_res (get_scheduled_producer s w) (\<lambda>proauth.
     bind_res (case map_of (producer_to_last_produced s) (producer_name proauth) of
                 None \<Rightarrow> Inr ()
               | Some last_num \<Rightarrow> assert_res (last_num < (block_num s + 1) - ucast confs) Producer_double_confirm) (\<lambda>_.
     case merkle_append (pair_digest crypt) (block_id s) (blockroot_merkle s) of
       None \<Rightarrow> Inl Undefined_behaviour
     | Some tree \<Rightarrow> Inr (build_pending s w confs proauth tree))))"

section \<open>The header of the next block\<close>

definition downgrade_schedule :: "'k producer_authority_schedule \<Rightarrow> 'k legacy_schedule result" where
  "downgrade_schedule sched =
     bind_res (fold_res (\<lambda>p acc.
       case sa_keys (signing_authority p) of
         [kw] \<Rightarrow> bind_res (assert_res (ucast (kw_weight kw) = sa_threshold (signing_authority p)) Producer_schedule_exception)
                  (\<lambda>_. Inr (acc @ [\<lparr>legacy_producer_name = producer_name p, block_signing_key = kw_key kw\<rparr>]))
       | _ \<Rightarrow> Inl Producer_schedule_exception) (producers sched) []) (\<lambda>ps.
     Inr \<lparr>legacy_version = version sched, legacy_producers = ps\<rparr>)"

definition make_block_header ::
  "'k extension_codec \<Rightarrow> protocol_feature_set \<Rightarrow> 's \<Rightarrow> digest \<Rightarrow> digest \<Rightarrow> 'k producer_authority_schedule option \<Rightarrow>
     producer_rate_info option \<Rightarrow> digest list \<Rightarrow> 'k pending_block_header_state \<Rightarrow> ('k, 's) signed_block_header result" where
  "make_block_header codec pfs no_signature trx_mroot act_mroot new_prods new_rt features p =
     (let exts0 = (if 0 < length features
                   then emplace_extension [] activation_extension_id (pack_activation codec features) else []);
          wtmsig = builtin_in_set (prev_activated_protocol_features p) pfs Wtmsig_block_signatures in
      bind_res (case new_prods of
                  None \<Rightarrow> Inr (exts0, None)
                | Some sched \<Rightarrow>
                    if wtmsig then Inr (emplace_extension exts0 schedule_change_extension_id (pack_schedule codec sched), None)
                    else bind_res (downgrade_schedule sched) (\<lambda>l. Inr (exts0, Some l))) (\<lambda>(exts, legacy).
      Inr \<lparr>bh_timestamp = timestamp p, producer = next_producer p, confirmed = next_confirmed p, bh_previous = previous p,
           transaction_mroot = trx_mroot, action_mroot = act_mroot, schedule_version = active_schedule_version p,
           new_producers = legacy, rate_version = active_rate_version p, new_rate = new_rt,
           header_extensions = exts, producer_signature = no_signature\<rparr>))"

section \<open>Validating the header\<close>

definition has_extension :: "(16 word \<times> 'k block_header_extension) list \<Rightarrow> 16 word \<Rightarrow> bool" where
  "has_extension exts eid \<longleftrightarrow> map_of exts eid \<noteq> None"

definition activation_of :: "(16 word \<times> 'k block_header_extension) list \<Rightarrow> digest list result" where
  "activation_of exts =
     (case map_of exts activation_extension_id of Some (Protocol_feature_activation ds) \<Rightarrow> Inr ds | _ \<Rightarrow> Inl Undefined_behaviour)"

definition schedule_change_of :: "(16 word \<times> 'k block_header_extension) list \<Rightarrow> 'k producer_authority_schedule result" where
  "schedule_change_of exts =
     (case map_of exts schedule_change_extension_id of Some (Producer_schedule_change s) \<Rightarrow> Inr s | _ \<Rightarrow> Inl Undefined_behaviour)"

definition check_template :: "('k, 's) signed_block_header \<Rightarrow> 'k pending_block_header_state \<Rightarrow> unit result" where
  "check_template h p =
     bind_res (assert_res (bh_timestamp h = timestamp p) Block_validate_exception) (\<lambda>_.
     bind_res (assert_res (bh_previous h = previous p) Unlinkable_block_exception) (\<lambda>_.
     bind_res (assert_res (confirmed h = next_confirmed p) Block_validate_exception) (\<lambda>_.
     bind_res (assert_res (producer h = next_producer p) Wrong_producer) (\<lambda>_.
     bind_res (assert_res (schedule_version h = active_schedule_version p) Producer_schedule_exception) (\<lambda>_.
     assert_res (rate_version h = active_rate_version p) Producer_schedule_exception)))))"

text \<open>
  The checks that a new schedule must pass in either form, and the new schedule with its hash if the header has one; a header
  that carries both forms keeps the extension, but the two forms need different features, so one of the checks fails.
\<close>

definition check_new_schedule :: "32 word \<Rightarrow> 'k pending_block_header_state \<Rightarrow> unit result" where
  "check_new_schedule new_version p =
     bind_res (assert_res (\<not> was_pending_promoted p) Producer_schedule_exception) (\<lambda>_.
     bind_res (assert_res (new_version = version (active_schedule p) + 1) Producer_schedule_exception) (\<lambda>_.
     assert_res (producers (schedule (prev_pending_schedule p)) = []) Producer_schedule_exception))"

definition legacy_change ::
  "('k, 's) header_crypto \<Rightarrow> bool \<Rightarrow> ('k, 's) signed_block_header \<Rightarrow> 'k pending_block_header_state \<Rightarrow>
     ('k producer_authority_schedule \<times> digest) option result" where
  "legacy_change crypt wtmsig_enabled h p =
     (case new_producers h of
        None \<Rightarrow> Inr None
      | Some l \<Rightarrow>
          bind_res (assert_res (\<not> wtmsig_enabled) Producer_schedule_exception) (\<lambda>_.
          bind_res (check_new_schedule (legacy_version l) p) (\<lambda>_.
          Inr (Some (up_convert l, legacy_schedule_digest crypt l)))))"

definition rate_change ::
  "('k, 's) header_crypto \<Rightarrow> ('k, 's) signed_block_header \<Rightarrow> 'k pending_block_header_state \<Rightarrow>
     (producer_rate_info \<times> digest) option result" where
  "rate_change crypt h p =
     (case new_rate h of
        None \<Rightarrow> Inr None
      | Some r \<Rightarrow>
          bind_res (assert_res (\<not> was_pending_rate_promoted p) Producer_schedule_exception) (\<lambda>_.
          bind_res (assert_res (rate_info_version r = rate_info_version (active_rate p) + 1) Producer_schedule_exception) (\<lambda>_.
          bind_res (assert_res (double_zero (rate (rate_info (prev_pending_rate p)))) Producer_schedule_exception) (\<lambda>_.
          Inr (Some (r, rate_digest crypt r))))))"

definition extension_change ::
  "('k, 's) header_crypto \<Rightarrow> bool \<Rightarrow> (16 word \<times> 'k block_header_extension) list \<Rightarrow> 'k pending_block_header_state \<Rightarrow>
     ('k producer_authority_schedule \<times> digest) option \<Rightarrow> ('k producer_authority_schedule \<times> digest) option result" where
  "extension_change crypt wtmsig_enabled exts p legacy =
     (if has_extension exts schedule_change_extension_id then
        bind_res (assert_res wtmsig_enabled Producer_schedule_exception) (\<lambda>_.
        bind_res (schedule_change_of exts) (\<lambda>s.
        bind_res (check_new_schedule (version s) p) (\<lambda>_.
        Inr (Some (s, schedule_digest crypt s)))))
      else Inr legacy)"

text \<open>
  The source tests for the activation extension with \<open>exts.count( extension_id() > 0 )\<close>: it counts the
  extensions whose id is the truth value of the comparison.
\<close>

definition feature_change ::
  "slot_validator \<Rightarrow> (16 word \<times> 'k block_header_extension) list \<Rightarrow> 'k pending_block_header_state \<Rightarrow> digest list result" where
  "feature_change validator exts p =
     (if has_extension exts (if activation_extension_id > 0 then 1 else 0) then
        bind_res (activation_of exts) (\<lambda>new_features.
        bind_res (validator (timestamp p) (prev_activated_protocol_features p) new_features) (\<lambda>_.
        activation_set (prev_activated_protocol_features p) new_features True))
      else Inr (prev_activated_protocol_features p))"

definition next_schedule_info ::
  "'k pending_block_header_state \<Rightarrow> ('k producer_authority_schedule \<times> digest) option \<Rightarrow> 'k schedule_info" where
  "next_schedule_info p change =
     (let prev = prev_pending_schedule p in
      case change of
        Some (s, hash) \<Rightarrow> \<lparr>schedule_lib_num = block_num p, schedule_hash = hash, schedule = s\<rparr>
      | None \<Rightarrow> \<lparr>schedule_lib_num = schedule_lib_num prev, schedule_hash = schedule_hash prev,
                 schedule = (if was_pending_promoted p then \<lparr>version = version (schedule prev), producers = []\<rparr>
                             else schedule prev)\<rparr>)"

definition next_rate_info :: "'k pending_block_header_state \<Rightarrow> (producer_rate_info \<times> digest) option \<Rightarrow> rate_info" where
  "next_rate_info p change =
     (let prev = prev_pending_rate p in
      case change of
        Some (r, hash) \<Rightarrow> \<lparr>rate_lib_num = block_num p, rate_hash = hash, rate_info = r\<rparr>
      | None \<Rightarrow> \<lparr>rate_lib_num = rate_lib_num prev, rate_hash = rate_hash prev,
                 rate_info = (if was_pending_rate_promoted p
                              then \<lparr>rate_info_version = rate_info_version (rate_info prev), rate = Finite 0 0\<rparr>
                              else rate_info prev)\<rparr>)"

definition finish_next_impl ::
  "('k, 's) header_crypto \<Rightarrow> 'k extension_codec \<Rightarrow> protocol_feature_set \<Rightarrow> slot_validator \<Rightarrow> ('k, 's) signed_block_header \<Rightarrow>
     'k pending_block_header_state \<Rightarrow> ('k, 's) block_header_state result" where
  "finish_next_impl crypt codec pfs validator h p =
     bind_res (check_template h p) (\<lambda>_.
     bind_res (validate_and_extract_header_extensions codec h) (\<lambda>exts.
     let wtmsig_enabled = (new_producers h \<noteq> None \<or> has_extension exts schedule_change_extension_id) \<and>
                          builtin_in_set (prev_activated_protocol_features p) pfs Wtmsig_block_signatures in
     bind_res (legacy_change crypt wtmsig_enabled h p) (\<lambda>legacy.
     bind_res (rate_change crypt h p) (\<lambda>new_rt.
     bind_res (extension_change crypt wtmsig_enabled exts p legacy) (\<lambda>new_sched.
     bind_res (feature_change validator exts p) (\<lambda>features.
     Inr \<lparr>block_num = block_num p, dpos_proposed_irreversible_blocknum = dpos_proposed_irreversible_blocknum p,
          dpos_irreversible_blocknum = dpos_irreversible_blocknum p, active_schedule = active_schedule p,
          active_rate = active_rate p, blockroot_merkle = blockroot_merkle p,
          producer_to_last_produced = producer_to_last_produced p,
          producer_to_last_implied_irb = producer_to_last_implied_irb p,
          valid_block_signing_authority = valid_block_signing_authority p, confirm_count = confirm_count p,
          block_id = calculate_id (header_digest crypt) h, header = h,
          pending_schedule = next_schedule_info p new_sched, pending_rate = next_rate_info p new_rt,
          activated_protocol_features = features, additional_signatures = [], header_exts = exts\<rparr>))))))"

section \<open>Signatures\<close>

definition sig_digest :: "('k, 's) header_crypto \<Rightarrow> ('k, 's) block_header_state \<Rightarrow> digest" where
  "sig_digest crypt s =
     pair_digest crypt (pair_digest crypt (header_digest crypt (block_header.truncate (header s)), get_root (blockroot_merkle s)),
       schedule_hash (pending_schedule s))"

fun recover_keys :: "('k, 's) header_crypto \<Rightarrow> digest \<Rightarrow> 's list \<Rightarrow> 'k list \<Rightarrow> 'k list result" where
  "recover_keys crypt d [] ks = Inr ks"
| "recover_keys crypt d (s # ss) ks =
     bind_res (recover_key crypt s d) (\<lambda>k.
     bind_res (assert_res (k \<notin> set ks) Wrong_signing_key) (\<lambda>_. recover_keys crypt d ss (ks @ [k])))"

definition verify_signee :: "('k, 's) header_crypto \<Rightarrow> ('k, 's) block_header_state \<Rightarrow> unit result" where
  "verify_signee crypt s =
     (let auth = valid_block_signing_authority s; d = sig_digest crypt s in
      bind_res (assert_res (1 + length (additional_signatures s) \<le> length (sa_keys auth)) Wrong_signing_key) (\<lambda>_.
      bind_res (recover_key crypt (producer_signature (header s)) d) (\<lambda>k.
      bind_res (recover_keys crypt d (additional_signatures s) [k]) (\<lambda>ks.
      let (is_satisfied, relevant_sig_count) = keys_satisfy_and_relevant ks auth in
      bind_res (assert_res (relevant_sig_count = length ks) Wrong_signing_key) (\<lambda>_.
      assert_res is_satisfied Wrong_signing_key)))))"

definition sign :: "('k, 's) header_crypto \<Rightarrow> (digest \<Rightarrow> 's list) \<Rightarrow> ('k, 's) block_header_state \<Rightarrow>
    ('k, 's) block_header_state result" where
  "sign crypt signer s =
     (let sigs = signer (sig_digest crypt s) in
      bind_res (assert_res (sigs \<noteq> []) No_block_signatures) (\<lambda>_.
      let s' = s\<lparr>header := (header s)\<lparr>producer_signature := last sigs\<rparr>, additional_signatures := butlast sigs\<rparr> in
      bind_res (verify_signee crypt s') (\<lambda>_. Inr s')))"

definition finish_next ::
  "('k, 's) header_crypto \<Rightarrow> 'k extension_codec \<Rightarrow> protocol_feature_set \<Rightarrow> slot_validator \<Rightarrow> ('k, 's) signed_block_header \<Rightarrow>
     's list \<Rightarrow> bool \<Rightarrow> 'k pending_block_header_state \<Rightarrow> ('k, 's) block_header_state result" where
  "finish_next crypt codec pfs validator h sigs skip_validate_signee p =
     bind_res (assert_res (sigs \<noteq> [] \<longrightarrow> builtin_in_set (prev_activated_protocol_features p) pfs Wtmsig_block_signatures)
                 Producer_schedule_exception) (\<lambda>_.
     bind_res (finish_next_impl crypt codec pfs validator h p) (\<lambda>s.
     let s' = (if sigs \<noteq> [] then s\<lparr>additional_signatures := sigs\<rparr> else s) in
     bind_res (if skip_validate_signee then Inr () else verify_signee crypt s') (\<lambda>_. Inr s')))"

definition finish_next_signed ::
  "('k, 's) header_crypto \<Rightarrow> 'k extension_codec \<Rightarrow> protocol_feature_set \<Rightarrow> slot_validator \<Rightarrow> ('k, 's) signed_block_header \<Rightarrow>
     (digest \<Rightarrow> 's list) \<Rightarrow> 'k pending_block_header_state \<Rightarrow> (('k, 's) block_header_state \<times> ('k, 's) signed_block_header) result" where
  "finish_next_signed crypt codec pfs validator h signer p =
     bind_res (finish_next_impl crypt codec pfs validator h p) (\<lambda>s.
     bind_res (sign crypt signer s) (\<lambda>s'.
     bind_res (assert_res (additional_signatures s' \<noteq> [] \<longrightarrow>
                 builtin_in_set (prev_activated_protocol_features p) pfs Wtmsig_block_signatures)
                 Producer_schedule_exception) (\<lambda>_.
     Inr (s', h\<lparr>producer_signature := producer_signature (header s')\<rparr>))))"

definition next_state ::
  "('k, 's) header_crypto \<Rightarrow> 'k extension_codec \<Rightarrow> protocol_feature_set \<Rightarrow> slot_validator \<Rightarrow> ('k, 's) signed_block_header \<Rightarrow>
     's list \<Rightarrow> bool \<Rightarrow> ('k, 's) block_header_state \<Rightarrow> ('k, 's) block_header_state result" where
  "next_state crypt codec pfs validator h sigs skip_validate_signee s =
     bind_res (next_pending crypt (bh_timestamp h) (confirmed h) s) (finish_next crypt codec pfs validator h sigs skip_validate_signee)"

definition get_new_protocol_feature_activations :: "('k, 's) block_header_state \<Rightarrow> digest list result" where
  "get_new_protocol_feature_activations s =
     (if has_extension (header_exts s) activation_extension_id then activation_of (header_exts s) else Inr [])"


end
