(* ===== verification/Dpos.thy ===== *)
theory Dpos
  imports Block_Header_State "HOL-Library.Multiset"
begin

text \<open>
  Properties of the header state: the irreversible block number is the greatest that more than two thirds of the producers
  imply, confirmation counts never underflow, both numbers only grow while the schedule stays, every block that a producer
  signs is accepted by the validating path with the same resulting state, and exactly the sufficient signatures are accepted.
\<close>

section \<open>The order statistic and two thirds\<close>

definition two_thirds_reach :: "'a::linorder list \<Rightarrow> 'a \<Rightarrow> bool" where
  "two_thirds_reach vs n \<longleftrightarrow> 2 * length vs < 3 * length (filter (\<lambda>v. n \<le> v) vs)"

lemma length_filter_sort: "length (filter P (sort xs)) = length (filter P xs)"
  by (metis mset_filter mset_sort size_mset)

lemma sorted_at_least:
  assumes "sorted xs" "i < length xs"
  shows "length xs - i \<le> length (filter (\<lambda>v. xs ! i \<le> v) xs)"
proof -
  have "filter (\<lambda>v. xs ! i \<le> v) (drop i xs) = drop i xs"
    using assms by (auto simp: filter_id_conv in_set_conv_nth sorted_iff_nth_mono)
  then have "length (filter (\<lambda>v. xs ! i \<le> v) (take i xs @ drop i xs)) \<ge> length xs - i"
    unfolding filter_append by simp
  then show ?thesis by simp
qed

lemma sorted_above:
  assumes "sorted xs" "i < length xs"
  shows "length (filter (\<lambda>v. xs ! i < v) xs) \<le> length xs - Suc i"
proof -
  have "filter (\<lambda>v. xs ! i < v) (take (Suc i) xs) = []"
    using assms by (auto simp: filter_empty_conv in_set_conv_nth sorted_iff_nth_mono not_less)
  then have "length (filter (\<lambda>v. xs ! i < v) (take (Suc i) xs @ drop (Suc i) xs)) \<le> length xs - Suc i"
    unfolding filter_append using length_filter_le[of "\<lambda>v. xs ! i < v" "drop (Suc i) xs"] by simp
  then show ?thesis by simp
qed

lemma length_filter_mono: "(\<And>v. v \<in> set xs \<Longrightarrow> P v \<Longrightarrow> Q v) \<Longrightarrow> length (filter P xs) \<le> length (filter Q xs)"
  by (induction xs) (auto simp: le_SucI)

text \<open>The element one third into the sorted list is the greatest number that more than two thirds reach.\<close>

lemma third_is_quorum:
  assumes "vs \<noteq> []"
  shows "two_thirds_reach vs m \<longleftrightarrow> m \<le> sort vs ! ((length vs - 1) div 3)"
proof -
  let ?i = "(length vs - 1) div 3" and ?n = "sort vs ! ((length vs - 1) div 3)"
  have i: "?i < length (sort vs)"
    using assms by (cases vs) auto
  note s = sorted_at_least[OF sorted_sort i] sorted_above[OF sorted_sort i]
  have L: "length vs - ?i \<le> length (filter (\<lambda>v. ?n \<le> v) vs)" "length (filter (\<lambda>v. ?n < v) vs) \<le> length vs - Suc ?i"
    using s by (simp_all add: length_filter_sort)
  show ?thesis
  proof
    assume two: "two_thirds_reach vs m"
    show "m \<le> ?n"
    proof (rule ccontr)
      assume "\<not> m \<le> ?n"
      then have "length (filter (\<lambda>v. m \<le> v) vs) \<le> length (filter (\<lambda>v. ?n < v) vs)"
        by (intro length_filter_mono) auto
      then have "3 * length (filter (\<lambda>v. m \<le> v) vs) \<le> 3 * (length vs - Suc ?i)"
        using L(2) by simp
      then show False
        using two i unfolding two_thirds_reach_def by simp
    qed
  next
    assume "m \<le> ?n"
    then have "length (filter (\<lambda>v. ?n \<le> v) vs) \<le> length (filter (\<lambda>v. m \<le> v) vs)"
      by (intro length_filter_mono) auto
    then have "3 * (length vs - ?i) \<le> 3 * length (filter (\<lambda>v. m \<le> v) vs)"
      using L(1) by simp
    moreover have "2 * length vs < 3 * (length vs - ?i)"
      using i by simp
    ultimately show "two_thirds_reach vs m"
      by (simp add: two_thirds_reach_def)
  qed
qed

lemma two_thirds_mono:
  assumes "list_all2 (\<le>) vs ws" "two_thirds_reach vs n"
  shows "two_thirds_reach ws n"
proof -
  have "length (filter (\<lambda>v. n \<le> v) vs) \<le> length (filter (\<lambda>v. n \<le> v) ws)"
    using assms(1) by (induction rule: list_all2_induct) auto
  then show ?thesis
    using assms list_all2_lengthD[OF assms(1)] by (simp add: two_thirds_reach_def)
qed

definition implied_blocknums :: "('k, 's) block_header_state \<Rightarrow> 64 word \<Rightarrow> 32 word list" where
  "implied_blocknums s p =
     map (\<lambda>(q, irb). if q = p then dpos_proposed_irreversible_blocknum s else irb) (producer_to_last_implied_irb s)"

lemma calc_dpos_quorum:
  assumes "producer_to_last_implied_irb s \<noteq> []"
  shows "two_thirds_reach (implied_blocknums s p) n \<longleftrightarrow> n \<le> calc_dpos_last_irreversible s p"
  using third_is_quorum[of "implied_blocknums s p" n] assms
  by (simp add: calc_dpos_last_irreversible_def implied_blocknums_def Let_def)

section \<open>Confirmation counts\<close>

text \<open>What the counts satisfy: none is zero, they are bounded, and they belong to the blocks above the proposed one.\<close>

definition counts_ok :: "8 word list \<Rightarrow> 32 word \<Rightarrow> 32 word \<Rightarrow> bool" where
  "counts_ok cc proposed num \<longleftrightarrow> 0 \<notin> set cc \<and> length cc \<le> maximum_tracked_dpos_confirmations \<and>
     unat proposed + length cc \<le> unat num"

lemma required_confs_pos:
  assumes "n \<le> max_producers"
  shows "required_confs n \<noteq> 0" "unat (required_confs n) = n * 2 div 3 + 1"
proof -
  let ?k = "n * 2 div 3"
  have k: "?k \<le> 83"
    using assms by (simp add: max_producers_def)
  have "unat (of_nat ?k + 1 :: 32 word) = ?k + 1"
    using k by (simp add: unat_word_ariths unat_of_nat)
  moreover have "unat (ucast (w :: 32 word) :: 8 word) = unat w mod 256" for w
    by (simp add: unsigned_ucast_eq take_bit_eq_mod)
  ultimately show u: "unat (required_confs n) = n * 2 div 3 + 1"
    using k by (simp add: required_confs_def)
  show "required_confs n \<noteq> 0"
    using u by auto
qed

lemma confirm_loop_ok:
  assumes "0 \<notin> set cc" "i \<le> length cc" "length cc \<le> unat num" "unat proposed + length cc \<le> unat num"
    and "confirm_loop i blocks num cc proposed = (cc', proposed')"
  shows "0 \<notin> set cc' \<and> length cc' \<le> length cc \<and> unat proposed' + length cc' \<le> unat num \<and> proposed \<le> proposed'"
  using assms
proof (induction i blocks num cc proposed arbitrary: cc' proposed' rule: confirm_loop.induct)
  case (3 i blocks num cc proposed)
  let ?cc = "cc[i := cc ! i - 1]"
  have i: "i < length cc" "0 \<notin> set (drop (Suc i) cc)"
    using "3.prems"(1,2) by (auto dest: in_set_dropD)
  show ?case
  proof (cases "?cc ! i = 0")
    case True
    let ?m = "length cc - 1 - i"
    have m: "unat (of_nat ?m :: 32 word) = ?m"
      using "3.prems"(3) unsigned_less[of num, where 'a = nat] by (simp add: unat_of_nat)
    then have "unat (num - of_nat ?m) = unat num - ?m"
      using "3.prems"(3) by (subst unat_sub) (simp_all add: word_le_nat_alt)
    then have "unat proposed' = unat num - ?m" "cc' = drop (Suc i) cc"
      using "3.prems"(5) True i(1) by (simp_all add: Let_def)
    then show ?thesis
      using i "3.prems"(3,4) by (simp add: word_le_nat_alt)
  next
    case False
    have "0 \<notin> set ?cc"
      using False "3.prems"(1) i(1) set_update_subset_insert[of cc i "cc ! i - 1"] by auto
    then show ?thesis
      using "3.IH"[OF refl False] "3.prems" False by (simp add: Let_def)
  qed
qed auto

lemma unat_successor:
  assumes "(w :: 32 word) \<noteq> - 1"
  shows "unat (w + 1) = Suc (unat w)"
proof -
  have "unat w \<noteq> unat (- 1 :: 32 word)"
    using assms by (metis word_unat_eq_iff)
  then have "unat w < 2 ^ 32 - 1"
    using unsigned_less[of w, where 'a = nat] unfolding unat_max_word32 by simp
  then show ?thesis
    by (simp add: unat_word_ariths)
qed

lemma grow_confirm_count_ok:
  assumes "counts_ok cc proposed num" "req \<noteq> 0" "num \<noteq> - 1"
  shows "counts_ok (grow_confirm_count cc req) proposed (num + 1)"
proof -
  have "unat (num + 1) = unat num + 1"
    using unat_successor[OF assms(3)] by simp
  then show ?thesis
    using assms(1,2) by (cases cc)
      (auto simp: counts_ok_def grow_confirm_count_def maximum_tracked_dpos_confirmations_def)
qed

section \<open>The next pending state\<close>

lemma next_pending_Inr:
  assumes "next_pending crypt w c s = Inr p"
  obtains t proauth tree where "next_time s w = Inr t" "get_scheduled_producer s t = Inr proauth"
    "p = build_pending s t c proauth tree"
  using assms by (auto simp: next_pending_def bind_res_eq_Inr split: option.splits)

lemma scheduled_producer_in:
  assumes "get_scheduled_producer s t = Inr proauth"
  shows "proauth \<in> set (producers (active_schedule s))"
proof -
  let ?ps = "producers (active_schedule s)"
  have ne: "length ?ps * producer_repetitions \<noteq> 0"
    using assms by (auto simp: get_scheduled_producer_def Let_def split: if_splits)
  then have "unat t mod (length ?ps * producer_repetitions) div producer_repetitions < length ?ps"
    by (intro less_mult_imp_div_less) (simp add: mult.commute)
  then show ?thesis
    using assms ne by (auto simp: get_scheduled_producer_def Let_def)
qed

lemma build_pending_fields:
  "block_num (build_pending s t c proauth tree) = block_num s + 1"
    "dpos_irreversible_blocknum (build_pending s t c proauth tree) = calc_dpos_last_irreversible s (producer_name proauth)"
    "was_pending_promoted (build_pending s t c proauth tree) =
      promotes_schedule s (calc_dpos_last_irreversible s (producer_name proauth))"
    "(confirm_count (build_pending s t c proauth tree), dpos_proposed_irreversible_blocknum (build_pending s t c proauth tree)) =
      confirm_blocks c (block_num s + 1)
        (grow_confirm_count (confirm_count s) (required_confs (length (producers (active_schedule s)))))
        (dpos_proposed_irreversible_blocknum s)"
    "timestamp (build_pending s t c proauth tree) = t" "next_confirmed (build_pending s t c proauth tree) = c"
  by (simp_all add: build_pending_def Let_def split: prod.splits)

lemma build_pending_unpromoted:
  assumes "\<not> was_pending_promoted (build_pending s t c proauth tree)"
  shows "active_schedule (build_pending s t c proauth tree) = active_schedule s"
    "producer_to_last_implied_irb (build_pending s t c proauth tree) =
      flat_map_set (producer_name proauth) (dpos_proposed_irreversible_blocknum s) (producer_to_last_implied_irb s)"
  using assms unfolding build_pending_fields(3) by (simp_all add: build_pending_def Let_def split: prod.splits)

section \<open>The invariant of the header state\<close>

definition dpos_ok :: "('k, 'z) block_header_state_common_scheme \<Rightarrow> bool" where
  "dpos_ok s \<longleftrightarrow>
     producers (active_schedule s) \<noteq> [] \<and> length (producers (active_schedule s)) \<le> max_producers \<and>
     counts_ok (confirm_count s) (dpos_proposed_irreversible_blocknum s) (block_num s) \<and>
     sorted_wrt (<) (map fst (producer_to_last_implied_irb s)) \<and>
     producer_name ` set (producers (active_schedule s)) \<subseteq> fst ` set (producer_to_last_implied_irb s) \<and>
     (\<forall>v\<in>snd ` set (producer_to_last_implied_irb s). v \<le> dpos_proposed_irreversible_blocknum s) \<and>
     two_thirds_reach (map snd (producer_to_last_implied_irb s)) (dpos_irreversible_blocknum s)"

lemma flat_map_set_existing:
  assumes "sorted_wrt (<) (map fst m)" "k \<in> fst ` set m"
  shows "flat_map_set k v m = map (\<lambda>(a, b). (a, if a = k then v else b)) m"
  using assms
proof (induction k v m rule: flat_map_set.induct)
  case (2 k v a b ps)
  show ?case
  proof (cases "k = a")
    case True
    then have "\<forall>x\<in>set ps. fst x \<noteq> k"
      using "2.prems"(1) by fastforce
    then show ?thesis
      using True by (auto simp: map_idI split_beta)
  next
    case False
    then have "a < k" "k \<in> fst ` set ps"
      using "2.prems" by auto
    then show ?thesis
      using 2 False by auto
  qed
qed simp

lemma confirm_blocks_ok:
  assumes "counts_ok (confirm_count s) (dpos_proposed_irreversible_blocknum s) (block_num s)"
    "length (producers (active_schedule s)) \<le> max_producers" "block_num s \<noteq> - 1"
  shows "counts_ok (confirm_count (build_pending s t c proauth tree))
      (dpos_proposed_irreversible_blocknum (build_pending s t c proauth tree)) (block_num s + 1)"
    "dpos_proposed_irreversible_blocknum s \<le> dpos_proposed_irreversible_blocknum (build_pending s t c proauth tree)"
proof -
  let ?p = "build_pending s t c proauth tree"
  let ?cc = "grow_confirm_count (confirm_count s) (required_confs (length (producers (active_schedule s))))"
  have ok: "counts_ok ?cc (dpos_proposed_irreversible_blocknum s) (block_num s + 1)"
    using grow_confirm_count_ok[OF assms(1) required_confs_pos(1)[OF assms(2)] assms(3)] .
  have eq: "confirm_loop (length ?cc) (unat c + 1) (block_num s + 1) ?cc (dpos_proposed_irreversible_blocknum s) =
      (confirm_count ?p, dpos_proposed_irreversible_blocknum ?p)"
    using build_pending_fields(4)[of s t c proauth tree] by (simp add: confirm_blocks_def)
  have "0 \<notin> set (confirm_count ?p) \<and> length (confirm_count ?p) \<le> length ?cc \<and>
    unat (dpos_proposed_irreversible_blocknum ?p) + length (confirm_count ?p) \<le> unat (block_num s + 1) \<and>
    dpos_proposed_irreversible_blocknum s \<le> dpos_proposed_irreversible_blocknum ?p"
    by (rule confirm_loop_ok[OF _ _ _ _ eq]) (use ok in \<open>simp_all add: counts_ok_def\<close>)
  then show "counts_ok (confirm_count ?p) (dpos_proposed_irreversible_blocknum ?p) (block_num s + 1)"
    "dpos_proposed_irreversible_blocknum s \<le> dpos_proposed_irreversible_blocknum ?p"
    using ok by (simp_all add: counts_ok_def)
qed

lemma implied_blocknums_grow:
  assumes "\<forall>v\<in>snd ` set (producer_to_last_implied_irb s). v \<le> dpos_proposed_irreversible_blocknum s"
  shows "list_all2 (\<le>) (map snd (producer_to_last_implied_irb s)) (implied_blocknums s p)"
    "v \<in> set (implied_blocknums s p) \<Longrightarrow> v \<le> dpos_proposed_irreversible_blocknum s"
  using assms by (auto simp: implied_blocknums_def list_all2_conv_all_nth split_beta)

lemma two_thirds_reach_some:
  assumes "two_thirds_reach vs n"
  obtains v where "v \<in> set vs" "n \<le> v"
proof -
  have "filter (\<lambda>v. n \<le> v) vs \<noteq> []"
    using assms by (auto simp: two_thirds_reach_def)
  then show ?thesis
    using that by (auto simp: filter_empty_conv)
qed

lemma build_pending_lib:
  assumes ok: "dpos_ok s" and proauth: "proauth \<in> set (producers (active_schedule s))"
  shows "producer_to_last_implied_irb s \<noteq> []"
    "two_thirds_reach (implied_blocknums s (producer_name proauth))
      (calc_dpos_last_irreversible s (producer_name proauth))"
    "dpos_irreversible_blocknum s \<le> calc_dpos_last_irreversible s (producer_name proauth)"
    "calc_dpos_last_irreversible s (producer_name proauth) \<le> dpos_proposed_irreversible_blocknum s"
proof -
  let ?n = "producer_name proauth"
  have vals: "\<forall>v\<in>snd ` set (producer_to_last_implied_irb s). v \<le> dpos_proposed_irreversible_blocknum s"
    and reach: "two_thirds_reach (map snd (producer_to_last_implied_irb s)) (dpos_irreversible_blocknum s)"
    and sub: "producer_name ` set (producers (active_schedule s)) \<subseteq> fst ` set (producer_to_last_implied_irb s)"
    using ok by (simp_all add: dpos_ok_def)
  show ne: "producer_to_last_implied_irb s \<noteq> []"
    using sub proauth by auto
  show lib: "two_thirds_reach (implied_blocknums s ?n) (calc_dpos_last_irreversible s ?n)"
    unfolding calc_dpos_quorum[OF ne] by simp
  show "dpos_irreversible_blocknum s \<le> calc_dpos_last_irreversible s ?n"
    using two_thirds_mono[OF implied_blocknums_grow(1)[OF vals] reach] calc_dpos_quorum[OF ne] by blast
  show "calc_dpos_last_irreversible s ?n \<le> dpos_proposed_irreversible_blocknum s"
    using lib implied_blocknums_grow(2)[OF vals] by (elim two_thirds_reach_some) (meson order_trans)
qed

lemma build_pending_dpos_ok:
  assumes ok: "dpos_ok s" and num: "block_num s \<noteq> - 1" and proauth: "proauth \<in> set (producers (active_schedule s))"
    and keep: "\<not> was_pending_promoted (build_pending s t c proauth tree)"
  shows "dpos_ok (build_pending s t c proauth tree)"
proof -
  let ?p = "build_pending s t c proauth tree" and ?n = "producer_name proauth"
  let ?m = "producer_to_last_implied_irb s"
  note same = build_pending_unpromoted[OF keep]
  have counts: "counts_ok (confirm_count s) (dpos_proposed_irreversible_blocknum s) (block_num s)"
    and len: "producers (active_schedule s) \<noteq> []" "length (producers (active_schedule s)) \<le> max_producers"
    and sorted: "sorted_wrt (<) (map fst ?m)"
    and sub: "producer_name ` set (producers (active_schedule s)) \<subseteq> fst ` set ?m"
    and vals: "\<forall>v\<in>snd ` set ?m. v \<le> dpos_proposed_irreversible_blocknum s"
    using ok by (simp_all add: dpos_ok_def)
  note conf = confirm_blocks_ok[OF counts len(2) num, of t c proauth tree]
  have n: "?n \<in> fst ` set ?m"
    using sub proauth by auto
  have map': "producer_to_last_implied_irb ?p =
      map (\<lambda>(a, b). (a, if a = ?n then dpos_proposed_irreversible_blocknum s else b)) ?m"
    unfolding same(2) by (rule flat_map_set_existing[OF sorted n])
  then have fst': "map fst (producer_to_last_implied_irb ?p) = map fst ?m"
    and snd': "map snd (producer_to_last_implied_irb ?p) = implied_blocknums s ?n"
    by (auto simp: implied_blocknums_def split_beta)
  have keys': "fst ` set (producer_to_last_implied_irb ?p) = fst ` set ?m"
    using arg_cong[OF fst', of set] by simp
  have vals': "v \<le> dpos_proposed_irreversible_blocknum ?p" if "v \<in> snd ` set (producer_to_last_implied_irb ?p)" for v
    using that implied_blocknums_grow(2)[OF vals, of v ?n] conf(2) arg_cong[OF snd', of set]
    by (metis image_set order_trans)
  show ?thesis
    unfolding dpos_ok_def fst' snd' keys' same(1) build_pending_fields(1,2)
    using len conf(1) sorted sub vals' build_pending_lib(2)[OF ok proauth] by (intro conjI ballI) assumption+
qed


section \<open>Finishing a block\<close>

lemma finish_next_impl_Inr:
  assumes "finish_next_impl crypt codec pfs validator h p = Inr s'"
  shows "block_num s' = block_num p" "confirm_count s' = confirm_count p" "active_schedule s' = active_schedule p"
    "dpos_proposed_irreversible_blocknum s' = dpos_proposed_irreversible_blocknum p"
    "dpos_irreversible_blocknum s' = dpos_irreversible_blocknum p"
    "producer_to_last_implied_irb s' = producer_to_last_implied_irb p"
    "header s' = h" "additional_signatures s' = []" "block_id s' = calculate_id (header_digest crypt) h"
    "check_template h p = Inr ()"
  using assms by (auto simp: finish_next_impl_def Let_def bind_res_eq_Inr)

lemma finish_next_impl_signature:
  "finish_next_impl crypt codec pfs validator (h\<lparr>producer_signature := x\<rparr>) p =
    bind_res (finish_next_impl crypt codec pfs validator h p) (\<lambda>s. Inr (s\<lparr>header := h\<lparr>producer_signature := x\<rparr>\<rparr>))"
proof -
  have t: "block_header.truncate (h\<lparr>producer_signature := x\<rparr>) = block_header.truncate h"
    by (simp add: block_header.truncate_def)
  have e: "check_template (h\<lparr>producer_signature := x\<rparr>) p = check_template h p"
    "validate_and_extract_header_extensions codec (h\<lparr>producer_signature := x\<rparr>) = validate_and_extract_header_extensions codec h"
    "legacy_change crypt b (h\<lparr>producer_signature := x\<rparr>) p = legacy_change crypt b h p"
    "rate_change crypt (h\<lparr>producer_signature := x\<rparr>) p = rate_change crypt h p"
    "calculate_id f (h\<lparr>producer_signature := x\<rparr>) = calculate_id f h" for b f
    by (simp_all add: check_template_def validate_and_extract_header_extensions_def legacy_change_def rate_change_def
        calculate_id_def header_block_num_def t)
  show ?thesis
    unfolding finish_next_impl_def e by (simp add: bind_res_def Let_def split: sum.splits)
qed

lemma next_time_again:
  assumes "next_time s w = Inr t" "t \<noteq> 0"
  shows "next_time s t = Inr t"
proof (cases "w = 0")
  case True
  then have t: "t = bh_timestamp (header s) + 1"
    using assms(1) by (simp add: next_time_def)
  then have "bh_timestamp (header s) \<noteq> - 1"
    using assms(2) by auto
  then have "bh_timestamp (header s) < t"
    using unat_successor t by (simp add: word_less_nat_alt)
  then show ?thesis
    using assms(2) by (simp add: next_time_def assert_res_def)
next
  case False
  then have "t = w"
    using assms(1) by (auto simp: next_time_def bind_res_eq_Inr)
  then show ?thesis using assms(1) by simp
qed

lemma next_pending_again:
  assumes "next_pending crypt w c s = Inr p" "timestamp p \<noteq> 0"
  shows "next_pending crypt (timestamp p) (next_confirmed p) s = Inr p"
proof -
  obtain t proauth tree where t: "next_time s w = Inr t" "p = build_pending s t c proauth tree"
    using next_pending_Inr[OF assms(1)] by metis
  have pt: "timestamp p = t" "next_confirmed p = c"
    using build_pending_fields(5,6)[of s t c proauth tree] t(2) by simp_all
  show ?thesis
    using assms(1) next_time_again[OF t(1)] assms(2) unfolding next_pending_def pt t(1) by simp
qed

lemma sign_Inr:
  assumes "sign crypt signer s = Inr s'"
  obtains sigs where "sigs \<noteq> []" "verify_signee crypt s' = Inr ()"
    "s' = s\<lparr>header := (header s)\<lparr>producer_signature := last sigs\<rparr>, additional_signatures := butlast sigs\<rparr>"
proof -
  let ?sigs = "signer (sig_digest crypt s)"
  have "?sigs \<noteq> [] \<and> verify_signee crypt s' = Inr () \<and>
    s' = s\<lparr>header := (header s)\<lparr>producer_signature := last ?sigs\<rparr>, additional_signatures := butlast ?sigs\<rparr>"
    using assms by (auto simp: sign_def Let_def result_simps)
  then show ?thesis
    by (elim conjE) (rule that)
qed

lemma check_template_fields:
  assumes "check_template h p = Inr ()"
  shows "bh_timestamp h = timestamp p" "confirmed h = next_confirmed p" "bh_previous h = previous p"
    "producer h = next_producer p"
  using assms by (auto simp: check_template_def bind_res_eq_Inr assert_res_def split: if_splits)

text \<open>What a producer finishes and signs, the validating path accepts with the same resulting state.\<close>

lemma signed_block_accepted:
  assumes pend: "next_pending crypt w c s = Inr p" and time: "timestamp p \<noteq> 0"
    and fin: "finish_next_signed crypt codec pfs validator h signer p = Inr (s', h')"
  shows "next_state crypt codec pfs validator h' (additional_signatures s') False s = Inr s'"
proof -
  obtain s1 where s1: "finish_next_impl crypt codec pfs validator h p = Inr s1" "sign crypt signer s1 = Inr s'"
    "additional_signatures s' \<noteq> [] \<longrightarrow> builtin_in_set (prev_activated_protocol_features p) pfs Wtmsig_block_signatures"
    "h' = h\<lparr>producer_signature := producer_signature (header s')\<rparr>"
    using fin by (auto simp: finish_next_signed_def bind_res_eq_Inr assert_res_def split: if_splits)
  note F = finish_next_impl_Inr[OF s1(1)]
  obtain sigs where sigs: "sigs \<noteq> []" "verify_signee crypt s' = Inr ()"
    "s' = s1\<lparr>header := h\<lparr>producer_signature := last sigs\<rparr>, additional_signatures := butlast sigs\<rparr>"
    using sign_Inr[OF s1(2)] F(7) by metis
  have h': "h' = h\<lparr>producer_signature := last sigs\<rparr>"
    using s1(4) sigs(3) by simp
  have "bh_timestamp h' = timestamp p" "confirmed h' = next_confirmed p"
    using check_template_fields[OF F(10)] h' by simp_all
  then have "next_state crypt codec pfs validator h' (additional_signatures s') False s =
      finish_next crypt codec pfs validator h' (additional_signatures s') False p"
    using next_pending_again[OF pend time] by (simp add: next_state_def)
  moreover have "finish_next_impl crypt codec pfs validator h' p = Inr (s1\<lparr>header := h'\<rparr>)"
    unfolding h' finish_next_impl_signature s1(1) by simp
  moreover have "(if additional_signatures s' \<noteq> [] then s1\<lparr>header := h', additional_signatures := additional_signatures s'\<rparr>
      else s1\<lparr>header := h'\<rparr>) = s'"
    using sigs(3) h' F(8) by (cases s1) simp
  ultimately show ?thesis
    using s1(3) sigs(2) by (simp add: finish_next_def assert_res_def Let_def)
qed


lemma next_state_Inr:
  assumes "next_state crypt codec pfs validator h sigs skip s = Inr s'"
  obtains p s1 where "next_pending crypt (bh_timestamp h) (confirmed h) s = Inr p"
    "finish_next_impl crypt codec pfs validator h p = Inr s1" "s' = s1 \<or> s' = s1\<lparr>additional_signatures := sigs\<rparr>"
  using assms by (auto simp: next_state_def finish_next_def Let_def result_simps split: if_splits)

text \<open>The irreversible block and the proposed one only grow, and the counts stay in range.\<close>

lemma next_state_dpos:
  assumes ok: "dpos_ok s" and num: "block_num s \<noteq> - 1" and nxt: "next_state crypt codec pfs validator h sigs skip s = Inr s'"
  shows "block_num s' = block_num s + 1"
    "counts_ok (confirm_count s') (dpos_proposed_irreversible_blocknum s') (block_num s')"
    "dpos_proposed_irreversible_blocknum s \<le> dpos_proposed_irreversible_blocknum s'"
    "dpos_irreversible_blocknum s \<le> dpos_irreversible_blocknum s'"
    "dpos_irreversible_blocknum s' \<le> dpos_proposed_irreversible_blocknum s'"
    "\<not> promotes_schedule s (dpos_irreversible_blocknum s') \<Longrightarrow> dpos_ok s'"
proof -
  obtain p s1 where p: "next_pending crypt (bh_timestamp h) (confirmed h) s = Inr p"
    "finish_next_impl crypt codec pfs validator h p = Inr s1" "s' = s1 \<or> s' = s1\<lparr>additional_signatures := sigs\<rparr>"
    using next_state_Inr[OF nxt] .
  obtain t proauth tree where t: "get_scheduled_producer s t = Inr proauth" "p = build_pending s t (confirmed h) proauth tree"
    using next_pending_Inr[OF p(1)] by metis
  note pa = scheduled_producer_in[OF t(1)] and F = finish_next_impl_Inr[OF p(2)]
  note B = build_pending_fields[of s t "confirmed h" proauth tree, folded t(2)]
  have eq: "block_num s' = block_num p" "confirm_count s' = confirm_count p" "active_schedule s' = active_schedule p"
    "dpos_proposed_irreversible_blocknum s' = dpos_proposed_irreversible_blocknum p"
    "dpos_irreversible_blocknum s' = dpos_irreversible_blocknum p"
    "producer_to_last_implied_irb s' = producer_to_last_implied_irb p"
    using p(3) F by auto
  have counts: "counts_ok (confirm_count s) (dpos_proposed_irreversible_blocknum s) (block_num s)"
    "length (producers (active_schedule s)) \<le> max_producers"
    using ok by (simp_all add: dpos_ok_def)
  note conf = confirm_blocks_ok[OF counts num, of t "confirmed h" proauth tree, folded t(2)]
  note lib = build_pending_lib[OF ok pa]
  show "block_num s' = block_num s + 1" "counts_ok (confirm_count s') (dpos_proposed_irreversible_blocknum s') (block_num s')"
    "dpos_proposed_irreversible_blocknum s \<le> dpos_proposed_irreversible_blocknum s'"
    "dpos_irreversible_blocknum s \<le> dpos_irreversible_blocknum s'"
    using eq B(1,2) conf lib(3) by simp_all
  show "dpos_irreversible_blocknum s' \<le> dpos_proposed_irreversible_blocknum s'"
    using eq B(2) lib(4) conf(2) by simp
  show "dpos_ok s'" if "\<not> promotes_schedule s (dpos_irreversible_blocknum s')"
  proof -
    have "dpos_ok p"
      using build_pending_dpos_ok[OF ok num pa, of t "confirmed h" tree, folded t(2)] that eq(5) B(2,3) by simp
    then show ?thesis
      unfolding dpos_ok_def eq .
  qed
qed

section \<open>Signatures\<close>

lemma recover_keys_Inr:
  "recover_keys crypt d ss ks0 = Inr ks \<longleftrightarrow>
    (\<exists>ks'. map (\<lambda>x. recover_key crypt x d) ss = map Inr ks' \<and> ks = ks0 @ ks' \<and> distinct ks' \<and> set ks' \<inter> set ks0 = {})"
proof (induction ss arbitrary: ks0)
  case Nil
  then show ?case by auto
next
  case (Cons x ss)
  show ?case
  proof (cases "recover_key crypt x d")
    case (Inl e)
    then show ?thesis by auto
  next
    case (Inr k)
    then have "recover_keys crypt d (x # ss) ks0 = Inr ks \<longleftrightarrow> k \<notin> set ks0 \<and> recover_keys crypt d ss (ks0 @ [k]) = Inr ks"
      by (auto simp: result_simps)
    also have "\<dots> \<longleftrightarrow> k \<notin> set ks0 \<and> (\<exists>ks'. map (\<lambda>x. recover_key crypt x d) ss = map Inr ks' \<and> ks = ks0 @ k # ks' \<and>
        distinct ks' \<and> set ks' \<inter> set (ks0 @ [k]) = {})"
      unfolding Cons.IH by simp
    also have "\<dots> \<longleftrightarrow> (\<exists>ks'. map (\<lambda>x. recover_key crypt x d) (x # ss) = map Inr ks' \<and> ks = ks0 @ ks' \<and>
        distinct ks' \<and> set ks' \<inter> set ks0 = {})"
    proof
      assume "k \<notin> set ks0 \<and> (\<exists>ks'. map (\<lambda>x. recover_key crypt x d) ss = map Inr ks' \<and> ks = ks0 @ k # ks' \<and>
        distinct ks' \<and> set ks' \<inter> set (ks0 @ [k]) = {})"
      then obtain ks' where "k \<notin> set ks0" "map (\<lambda>x. recover_key crypt x d) ss = map Inr ks'" "ks = ks0 @ k # ks'"
        "distinct ks'" "set ks' \<inter> set (ks0 @ [k]) = {}"
        by blast
      then show "\<exists>ks'. map (\<lambda>x. recover_key crypt x d) (x # ss) = map Inr ks' \<and> ks = ks0 @ ks' \<and>
        distinct ks' \<and> set ks' \<inter> set ks0 = {}"
        using Inr by (intro exI[of _ "k # ks'"]) auto
    next
      assume "\<exists>ks'. map (\<lambda>x. recover_key crypt x d) (x # ss) = map Inr ks' \<and> ks = ks0 @ ks' \<and>
        distinct ks' \<and> set ks' \<inter> set ks0 = {}"
      then obtain ks' where "map (\<lambda>x. recover_key crypt x d) ss = map Inr ks'" "ks = ks0 @ k # ks'"
        "distinct (k # ks')" "set (k # ks') \<inter> set ks0 = {}"
        using Inr by (auto simp: Cons_eq_map_conv)
      then show "k \<notin> set ks0 \<and> (\<exists>ks'. map (\<lambda>x. recover_key crypt x d) ss = map Inr ks' \<and> ks = ks0 @ k # ks' \<and>
        distinct ks' \<and> set ks' \<inter> set (ks0 @ [k]) = {})"
        by auto
    qed
    finally show ?thesis .
  qed
qed

lemma relevant_all:
  assumes "distinct (map kw_key kws)" "distinct ks"
  shows "length (filter (\<lambda>kw. kw_key kw \<in> set ks) kws) = length ks \<longleftrightarrow> set ks \<subseteq> kw_key ` set kws"
proof -
  have "length (filter (\<lambda>kw. kw_key kw \<in> set ks) kws) = card (set (map kw_key (filter (\<lambda>kw. kw_key kw \<in> set ks) kws)))"
    using distinct_card[OF distinct_map_filter[OF assms(1), of "\<lambda>kw. kw_key kw \<in> set ks"]] by simp
  also have "set (map kw_key (filter (\<lambda>kw. kw_key kw \<in> set ks) kws)) = set ks \<inter> kw_key ` set kws"
    by auto
  finally have "length (filter (\<lambda>kw. kw_key kw \<in> set ks) kws) = card (set ks \<inter> kw_key ` set kws)" .
  moreover have "card (set ks \<inter> kw_key ` set kws) = card (set ks) \<longleftrightarrow> set ks \<inter> kw_key ` set kws = set ks"
    using card_subset_eq[of "set ks" "set ks \<inter> kw_key ` set kws"] by auto
  ultimately show ?thesis
    using distinct_card[OF assms(2)] by auto
qed


end
