(* ===== verification/Dpos_Properties.thy ===== *)
theory Dpos_Properties
  imports Dpos
begin

text \<open>
  The properties of the header state and a sample chain: four producers, a pending schedule of two of which one is new.
\<close>

section \<open>A sample chain\<close>

definition sample_crypto :: "(nat, nat) header_crypto" where
  "sample_crypto =
     \<lparr>header_digest = (\<lambda>h. \<lparr>hash0 = ucast (bh_timestamp h), hash1 = producer h, hash2 = 0, hash3 = 0\<rparr>),
      pair_digest = fst, legacy_schedule_digest = (\<lambda>_. zero_digest), schedule_digest = (\<lambda>_. zero_digest),
      rate_digest = (\<lambda>_. zero_digest), recover_key = (\<lambda>x d. Inr x)\<rparr>"

definition sample_codec :: "nat extension_codec" where
  "sample_codec = \<lparr>pack_activation = (\<lambda>_. []), unpack_activation = (\<lambda>_. None), pack_schedule = (\<lambda>_. []), unpack_schedule = (\<lambda>_. None)\<rparr>"

definition sample_producer :: "nat \<Rightarrow> nat producer_authority" where
  "sample_producer n =
     \<lparr>producer_name = of_nat n, signing_authority = \<lparr>sa_threshold = 1, sa_keys = [\<lparr>kw_key = n, kw_weight = 1\<rparr>]\<rparr>\<rparr>"

definition sample_header :: "(nat, nat) signed_block_header" where
  "sample_header =
     \<lparr>bh_timestamp = 111, producer = 2, confirmed = 0, bh_previous = zero_digest, transaction_mroot = zero_digest,
      action_mroot = zero_digest, schedule_version = 1, new_producers = None, rate_version = 1, new_rate = None,
      header_extensions = [], producer_signature = 2\<rparr>"

definition sample_state :: "(nat, nat) block_header_state" where
  "sample_state =
     \<lparr>block_num = 20, dpos_proposed_irreversible_blocknum = 10, dpos_irreversible_blocknum = 10,
      active_schedule = \<lparr>version = 1, producers = map sample_producer [1, 2, 3, 4]\<rparr>,
      active_rate = \<lparr>rate_info_version = 1, rate = Finite 1 0\<rparr>, blockroot_merkle = empty_merkle,
      producer_to_last_produced = [(1, 11), (2, 12), (3, 13), (4, 14)],
      producer_to_last_implied_irb = [(1, 1), (2, 10), (3, 10), (4, 10)],
      valid_block_signing_authority = \<lparr>sa_threshold = 1, sa_keys = [\<lparr>kw_key = 2, kw_weight = 1\<rparr>]\<rparr>,
      confirm_count = [2], block_id = zero_digest, header = sample_header,
      pending_schedule = \<lparr>schedule_lib_num = 5, schedule_hash = zero_digest,
        schedule = \<lparr>version = 2, producers = map sample_producer [1, 5]\<rparr>\<rparr>,
      pending_rate = \<lparr>rate_lib_num = 0, rate_hash = zero_digest,
        rate_info = \<lparr>rate_info_version = 1, rate = Finite 0 0\<rparr>\<rparr>,
      activated_protocol_features = [], additional_signatures = [], header_exts = []\<rparr>"

definition accept_all :: slot_validator where
  "accept_all t old new = Inr ()"

definition produce_block ::
  "slot \<Rightarrow> (nat, nat) block_header_state \<Rightarrow> ((nat, nat) block_header_state \<times> (nat, nat) signed_block_header) result" where
  "produce_block t s =
     bind_res (next_pending sample_crypto t 0 s) (\<lambda>p.
     bind_res (make_block_header sample_codec empty_feature_set 0 zero_digest zero_digest None None [] p) (\<lambda>h.
     finish_next_signed sample_crypto sample_codec empty_feature_set accept_all h (\<lambda>d. [unat (next_producer p)]) p))"

lemma sample_dpos_ok: "dpos_ok sample_state"
  by code_simp

definition sample_block1 :: "(nat, nat) block_header_state \<times> (nat, nat) signed_block_header" where
  "sample_block1 = projr (produce_block 112 sample_state)"

lemma sample_block1_produced: "produce_block 112 sample_state = Inr sample_block1"
proof -
  have "returns (produce_block 112 sample_state)"
    by code_simp
  then show ?thesis
    unfolding sample_block1_def by (cases "produce_block 112 sample_state") simp_all
qed

lemma produce_block_Inr:
  assumes "produce_block t s = Inr (s', h')"
  obtains p h where "next_pending sample_crypto t 0 s = Inr p"
    "finish_next_signed sample_crypto sample_codec empty_feature_set accept_all h (\<lambda>d. [unat (next_producer p)]) p = Inr (s', h')"
proof -
  obtain p where p: "next_pending sample_crypto t 0 s = Inr p"
    using assms by (cases "next_pending sample_crypto t 0 s") (simp_all add: produce_block_def)
  show ?thesis
    using assms that[OF p] by (auto simp: produce_block_def p bind_res_eq_Inr)
qed

section \<open>Properties\<close>

text \<open>
  C4. The irreversible block number that the next block of a producer will carry is the greatest number
  that more than two thirds of the producers imply: a number is at or below it exactly when more than two thirds reach that number.
\<close>
theorem dpos_irreversible_quorum:
  assumes "producer_to_last_implied_irb s \<noteq> []"
  shows "n \<le> calc_dpos_last_irreversible s p \<longleftrightarrow>
    2 * length (producer_to_last_implied_irb s) <
    3 * length (filter (\<lambda>(q, irb). n \<le> (if q = p then dpos_proposed_irreversible_blocknum s else irb))
      (producer_to_last_implied_irb s))"
  using calc_dpos_quorum[OF assms, of p n]
  by (simp only: two_thirds_reach_def implied_blocknums_def filter_map comp_def case_prod_unfold length_map)

theorem dpos_irreversible_quorum_witness:
  "producer_to_last_implied_irb sample_state \<noteq> [] \<and> 10 \<le> calc_dpos_last_irreversible sample_state 2"
  using dpos_irreversible_quorum[of sample_state 10 2] by (simp add: sample_state_def)

text \<open>
  C10. Advancing a well-formed header state by an accepted block keeps it well-formed while no pending schedule is
  promoted: no confirmation count is zero or wraps, at most 1024 are kept and they belong to the blocks above the proposed
  irreversible block, and the map of implied numbers stays ordered and covers the schedule. The irreversible and the proposed number never decrease
  in such a step, even when it promotes a schedule, and the former never passes the latter.
\<close>
theorem header_state_well_formed:
  assumes "dpos_ok s" "block_num s \<noteq> - 1" "next_state crypt codec pfs validator h sigs skip s = Inr s'"
  shows "counts_ok (confirm_count s') (dpos_proposed_irreversible_blocknum s') (block_num s') \<and>
    dpos_irreversible_blocknum s \<le> dpos_irreversible_blocknum s' \<and>
    dpos_proposed_irreversible_blocknum s \<le> dpos_proposed_irreversible_blocknum s' \<and>
    dpos_irreversible_blocknum s' \<le> dpos_proposed_irreversible_blocknum s' \<and>
    (\<not> promotes_schedule s (dpos_irreversible_blocknum s') \<longrightarrow> dpos_ok s')"
  using next_state_dpos[OF assms] by blast

theorem header_state_well_formed_witness:
  "\<exists>s'. next_state sample_crypto sample_codec empty_feature_set accept_all (snd sample_block1) [] False sample_state = Inr s' \<and>
     dpos_irreversible_blocknum sample_state \<le> dpos_irreversible_blocknum s'"
proof -
  let ?r = "next_state sample_crypto sample_codec empty_feature_set accept_all (snd sample_block1) [] False sample_state"
  have "returns ?r"
    by code_simp
  then obtain s' where s': "?r = Inr s'"
    by (auto simp: returns_iff)
  have "block_num sample_state \<noteq> - 1"
    by (simp add: sample_state_def)
  from header_state_well_formed[OF sample_dpos_ok this s'] s' show ?thesis
    by blast
qed

text \<open>
  C29. When the keys of the signing authority differ, the signatures of a block are accepted exactly when they recover to
  different keys of that authority whose weights add up to its threshold; the saturating sum never decides otherwise.
\<close>
theorem verify_signee_exact:
  assumes "distinct (map kw_key (sa_keys (valid_block_signing_authority s)))"
  shows "verify_signee crypt s = Inr () \<longleftrightarrow>
    (\<exists>ks. map (\<lambda>x. recover_key crypt x (sig_digest crypt s)) (producer_signature (header s) # additional_signatures s) = map Inr ks \<and>
      distinct ks \<and> set ks \<subseteq> kw_key ` set (sa_keys (valid_block_signing_authority s)) \<and>
      unat (sa_threshold (valid_block_signing_authority s)) \<le>
        presented_weight ks (sa_keys (valid_block_signing_authority s)))"
proof -
  let ?a = "valid_block_signing_authority s" and ?d = "sig_digest crypt s"
  let ?sigs = "producer_signature (header s) # additional_signatures s"
  let ?good = "\<lambda>ks. map (\<lambda>x. recover_key crypt x ?d) ?sigs = map Inr ks \<and> distinct ks"
  have len: "length ?sigs \<le> length (sa_keys ?a)" if "?good ks" "set ks \<subseteq> kw_key ` set (sa_keys ?a)" for ks
  proof -
    have "length ?sigs = card (set ks)"
      using that(1) distinct_card[of ks] by (metis length_map)
    also have "\<dots> \<le> card (kw_key ` set (sa_keys ?a))"
      using that(2) by (intro card_mono) auto
    also have "\<dots> \<le> length (sa_keys ?a)"
      using card_length[of "map kw_key (sa_keys ?a)"] by simp
    finally show ?thesis .
  qed
  have "verify_signee crypt s = Inr () \<longleftrightarrow> (\<exists>ks. length ?sigs \<le> length (sa_keys ?a) \<and> ?good ks \<and>
      length (filter (\<lambda>kw. kw_key kw \<in> set ks) (sa_keys ?a)) = length ks \<and>
      unat (sa_threshold ?a) \<le> presented_weight ks (sa_keys ?a))"
    by (auto simp: verify_signee_def Let_def result_simps keys_satisfy_and_relevant_eq recover_keys_Inr Cons_eq_map_conv)
  also have "\<dots> \<longleftrightarrow> (\<exists>ks. ?good ks \<and> set ks \<subseteq> kw_key ` set (sa_keys ?a) \<and>
      unat (sa_threshold ?a) \<le> presented_weight ks (sa_keys ?a))"
    using len relevant_all[OF assms] by blast
  finally show ?thesis by simp
qed

theorem verify_signee_exact_witness:
  "verify_signee sample_crypto sample_state = Inr () \<and>
   distinct (map kw_key (sa_keys (valid_block_signing_authority sample_state)))"
proof -
  have "map (\<lambda>x. recover_key sample_crypto x (sig_digest sample_crypto sample_state))
      (producer_signature (header sample_state) # additional_signatures sample_state) = map Inr [2]"
    "distinct (map kw_key (sa_keys (valid_block_signing_authority sample_state)))"
    by (simp_all add: sample_crypto_def sample_state_def sample_header_def)
  moreover have "set [2] \<subseteq> kw_key ` set (sa_keys (valid_block_signing_authority sample_state))"
    "unat (sa_threshold (valid_block_signing_authority sample_state)) \<le>
       presented_weight [2] (sa_keys (valid_block_signing_authority sample_state))"
    by (simp_all add: sample_state_def presented_weight_def)
  ultimately show ?thesis
    using verify_signee_exact[of sample_state sample_crypto] by (metis distinct_singleton)
qed

section \<open>After a change of schedule\<close>

text \<open>
  The promotion of a schedule may leave producers that lag behind with more than a third of the new schedule: then the next
  block carries a smaller irreversible number than its predecessor.
\<close>

lemma irreversible_can_decrease:
  "case produce_block 113 (fst sample_block1) of
     Inl e \<Rightarrow> False
   | Inr (s2, h2) \<Rightarrow> dpos_irreversible_blocknum s2 < dpos_irreversible_blocknum (fst sample_block1)"
  by code_simp


end
