(* ===== verification/Token_Contract.thy ===== *)
theory Token_Contract
  imports Chain_Asset "HOL-Library.AList"
begin

text \<open>
  The token contract (\<^verbatim>\<open>system_contracts/contracts/dcd.token\<close>): creating, issuing, retiring and transferring tokens.
  Its main property is conservation: the balances of a token always add up to its supply.

  The contract is compiled against a development kit that is not part of the repository; what it uses of the kit's
  symbols and assets is the argument \<open>lib\<close>, and the locale \<open>contract_assets\<close> states what it relies on. The locale is interpreted
  on the assets of the node itself. A multi-index table is an association list from its scope and primary key to the row and the
  account that pays for it. Every action runs to its end or is rolled back, so that an action is a partial function on the state.
\<close>

section \<open>Environment and state\<close>

record contract_lib =
  symbol_is_valid :: "64 word \<Rightarrow> bool"
  symbol_code_raw :: "64 word \<Rightarrow> 64 word"
  asset_is_valid :: "asset \<Rightarrow> bool"
  asset_of :: "int \<Rightarrow> 64 word \<Rightarrow> asset result"
  asset_plus :: "asset \<Rightarrow> asset \<Rightarrow> asset result"
  asset_minus :: "asset \<Rightarrow> asset \<Rightarrow> asset result"

record action_env =
  get_self :: "64 word"
  authorized :: "64 word list"
  is_account :: "64 word \<Rightarrow> bool"

record currency_stats =
  current_supply :: asset
  max_supply :: asset
  issuer :: "64 word"

record account_row =
  balance :: asset
  payer :: "64 word"

record token_state =
  stats :: "(64 word \<times> currency_stats) list"
  accounts :: "((64 word \<times> 64 word) \<times> account_row) list"
  notified :: "64 word list"

definition empty_token_state :: token_state where
  "empty_token_state = \<lparr>stats = [], accounts = [], notified = []\<rparr>"

definition check :: "bool \<Rightarrow> string \<Rightarrow> unit result" where
  "check c message = assert_res c (Contract_check message)"

definition require_auth :: "action_env \<Rightarrow> 64 word \<Rightarrow> unit result" where
  "require_auth env a = assert_res (a \<in> set (authorized env)) Missing_auth_exception"

definition has_auth :: "action_env \<Rightarrow> 64 word \<Rightarrow> bool" where
  "has_auth env a \<longleftrightarrow> a \<in> set (authorized env)"

definition require_recipient :: "64 word \<Rightarrow> token_state \<Rightarrow> token_state" where
  "require_recipient a st = (if a \<in> set (notified st) then st else st\<lparr>notified := notified st @ [a]\<rparr>)"

section \<open>Actions\<close>

definition token_create :: "contract_lib \<Rightarrow> action_env \<Rightarrow> 64 word \<Rightarrow> asset \<Rightarrow> token_state \<Rightarrow> token_state result" where
  "token_create lib env iss maximum_supply st =
     bind_res (require_auth env (get_self env)) (\<lambda>_.
     let s = sym maximum_supply; code = symbol_code_raw lib s in
     bind_res (check (symbol_is_valid lib s) ''invalid symbol name'') (\<lambda>_.
     bind_res (check (asset_is_valid lib maximum_supply) ''invalid supply'') (\<lambda>_.
     bind_res (check (0 < amount maximum_supply) ''max-supply must be positive'') (\<lambda>_.
     bind_res (check (map_of (stats st) code = None) ''token with symbol already exists'') (\<lambda>_.
     Inr (st\<lparr>stats := AList.update code
               \<lparr>current_supply = \<lparr>amount = 0, sym = s\<rparr>, max_supply = maximum_supply, issuer = iss\<rparr> (stats st)\<rparr>))))))"

definition sub_balance :: "contract_lib \<Rightarrow> 64 word \<Rightarrow> asset \<Rightarrow> token_state \<Rightarrow> token_state result" where
  "sub_balance lib owner value st =
     (let key = (owner, symbol_code_raw lib (sym value)) in
      case map_of (accounts st) key of
        None \<Rightarrow> Inl (Contract_check ''no balance object found'')
      | Some row \<Rightarrow>
          bind_res (check (amount value \<le> amount (balance row)) ''overdrawn balance'') (\<lambda>_.
          bind_res (asset_minus lib (balance row) value) (\<lambda>b.
          Inr (st\<lparr>accounts := AList.update key \<lparr>balance = b, payer = owner\<rparr> (accounts st)\<rparr>))))"

definition add_balance :: "contract_lib \<Rightarrow> 64 word \<Rightarrow> asset \<Rightarrow> 64 word \<Rightarrow> token_state \<Rightarrow> token_state result" where
  "add_balance lib owner value ram_payer st =
     (let key = (owner, symbol_code_raw lib (sym value)) in
      case map_of (accounts st) key of
        None \<Rightarrow> Inr (st\<lparr>accounts := AList.update key \<lparr>balance = value, payer = ram_payer\<rparr> (accounts st)\<rparr>)
      | Some row \<Rightarrow>
          bind_res (asset_plus lib (balance row) value) (\<lambda>b.
          Inr (st\<lparr>accounts := AList.update key (row\<lparr>balance := b\<rparr>) (accounts st)\<rparr>)))"

definition token_issue :: "contract_lib \<Rightarrow> action_env \<Rightarrow> 64 word \<Rightarrow> asset \<Rightarrow> string \<Rightarrow> token_state \<Rightarrow> token_state result" where
  "token_issue lib env to quantity memo st =
     (let s = sym quantity; code = symbol_code_raw lib s in
      bind_res (check (symbol_is_valid lib s) ''invalid symbol name'') (\<lambda>_.
      bind_res (check (length memo \<le> 256) ''memo has more than 256 bytes'') (\<lambda>_.
      case map_of (stats st) code of
        None \<Rightarrow> Inl (Contract_check ''token with symbol does not exist, create token before issue'')
      | Some cs \<Rightarrow>
          bind_res (check (to = issuer cs) ''tokens can only be issued to issuer account'') (\<lambda>_.
          bind_res (require_auth env (issuer cs)) (\<lambda>_.
          bind_res (check (asset_is_valid lib quantity) ''invalid quantity'') (\<lambda>_.
          bind_res (check (0 < amount quantity) ''must issue positive quantity'') (\<lambda>_.
          bind_res (check (s = sym (current_supply cs)) ''symbol precision mismatch'') (\<lambda>_.
          bind_res (check (amount quantity \<le> amount (max_supply cs) - amount (current_supply cs))
                      ''quantity exceeds available supply'') (\<lambda>_.
          bind_res (asset_plus lib (current_supply cs) quantity) (\<lambda>sup.
          add_balance lib (issuer cs) quantity (issuer cs)
            (st\<lparr>stats := AList.update code (cs\<lparr>current_supply := sup\<rparr>) (stats st)\<rparr>)))))))))))"

definition token_retire :: "contract_lib \<Rightarrow> action_env \<Rightarrow> asset \<Rightarrow> string \<Rightarrow> token_state \<Rightarrow> token_state result" where
  "token_retire lib env quantity memo st =
     (let s = sym quantity; code = symbol_code_raw lib s in
      bind_res (check (symbol_is_valid lib s) ''invalid symbol name'') (\<lambda>_.
      bind_res (check (length memo \<le> 256) ''memo has more than 256 bytes'') (\<lambda>_.
      case map_of (stats st) code of
        None \<Rightarrow> Inl (Contract_check ''token with symbol does not exist'')
      | Some cs \<Rightarrow>
          bind_res (require_auth env (issuer cs)) (\<lambda>_.
          bind_res (check (asset_is_valid lib quantity) ''invalid quantity'') (\<lambda>_.
          bind_res (check (0 < amount quantity) ''must retire positive quantity'') (\<lambda>_.
          bind_res (check (s = sym (current_supply cs)) ''symbol precision mismatch'') (\<lambda>_.
          bind_res (asset_minus lib (current_supply cs) quantity) (\<lambda>sup.
          sub_balance lib (issuer cs) quantity
            (st\<lparr>stats := AList.update code (cs\<lparr>current_supply := sup\<rparr>) (stats st)\<rparr>)))))))))"

definition token_transfer ::
  "contract_lib \<Rightarrow> action_env \<Rightarrow> 64 word \<Rightarrow> 64 word \<Rightarrow> asset \<Rightarrow> string \<Rightarrow> token_state \<Rightarrow> token_state result" where
  "token_transfer lib env from_acc to quantity memo st =
     bind_res (check (from_acc \<noteq> to) ''cannot transfer to self'') (\<lambda>_.
     bind_res (require_auth env from_acc) (\<lambda>_.
     bind_res (check (is_account env to) ''to account does not exist'') (\<lambda>_.
     case map_of (stats st) (symbol_code_raw lib (sym quantity)) of
       None \<Rightarrow> Inl (Contract_check ''unable to find key'')
     | Some cs \<Rightarrow>
         let st1 = require_recipient to (require_recipient from_acc st) in
         bind_res (check (asset_is_valid lib quantity) ''invalid quantity'') (\<lambda>_.
         bind_res (check (0 < amount quantity) ''must transfer positive quantity'') (\<lambda>_.
         bind_res (check (sym quantity = sym (current_supply cs)) ''symbol precision mismatch'') (\<lambda>_.
         bind_res (check (length memo \<le> 256) ''memo has more than 256 bytes'') (\<lambda>_.
         let ram_payer = (if has_auth env to then to else from_acc) in
         bind_res (sub_balance lib from_acc quantity st1) (\<lambda>st2.
         add_balance lib to quantity ram_payer st2))))))))"

definition token_open :: "contract_lib \<Rightarrow> action_env \<Rightarrow> 64 word \<Rightarrow> 64 word \<Rightarrow> 64 word \<Rightarrow> token_state \<Rightarrow> token_state result" where
  "token_open lib env owner s ram_payer st =
     bind_res (require_auth env ram_payer) (\<lambda>_.
     bind_res (check (is_account env owner) ''owner account does not exist'') (\<lambda>_.
     let code = symbol_code_raw lib s in
     case map_of (stats st) code of
       None \<Rightarrow> Inl (Contract_check ''symbol does not exist'')
     | Some cs \<Rightarrow>
         bind_res (check (sym (current_supply cs) = s) ''symbol precision mismatch'') (\<lambda>_.
         if map_of (accounts st) (owner, code) = None
         then bind_res (asset_of lib 0 s) (\<lambda>b.
              Inr (st\<lparr>accounts := AList.update (owner, code) \<lparr>balance = b, payer = ram_payer\<rparr> (accounts st)\<rparr>))
         else Inr st)))"

definition token_close :: "contract_lib \<Rightarrow> action_env \<Rightarrow> 64 word \<Rightarrow> 64 word \<Rightarrow> token_state \<Rightarrow> token_state result" where
  "token_close lib env owner s st =
     bind_res (require_auth env owner) (\<lambda>_.
     let key = (owner, symbol_code_raw lib s) in
     case map_of (accounts st) key of
       None \<Rightarrow> Inl (Contract_check ''Balance row already deleted or never existed. Action won't have any effect.'')
     | Some row \<Rightarrow>
         bind_res (check (amount (balance row) = 0) ''Cannot close because the balance is not zero.'') (\<lambda>_.
         Inr (st\<lparr>accounts := AList.delete key (accounts st)\<rparr>)))"

end
