(* ===== verification/Token_Invariant.thy ===== *)
theory Token_Invariant
  imports Token_Contract
begin

text \<open>
  Conservation of tokens: over all sequences of actions the balances of each token add up to its supply, which stays between zero
  and the maximum, and no action lowers a balance without the authority of its owner.
\<close>

section \<open>What the contract relies on\<close>

locale contract_assets =
  fixes lib :: contract_lib
  assumes asset_of_exact: "asset_of lib n s = Inr a \<Longrightarrow> a = \<lparr>amount = n, sym = s\<rparr>"
    and asset_plus_exact: "asset_plus lib a b = Inr c \<Longrightarrow> sym a = sym b \<and> c = \<lparr>amount = amount a + amount b, sym = sym a\<rparr>"
    and asset_minus_exact: "asset_minus lib a b = Inr c \<Longrightarrow> sym a = sym b \<and> c = \<lparr>amount = amount a - amount b, sym = sym a\<rparr>"

definition node_assets :: contract_lib where
  "node_assets =
     \<lparr>symbol_is_valid = symbol_valid, symbol_code_raw = to_symbol_code, asset_is_valid = is_valid, asset_of = make_asset,
      asset_plus = asset_add, asset_minus = asset_sub\<rparr>"

interpretation node: contract_assets node_assets
  by unfold_locales (auto simp: node_assets_def make_asset_def asset_add_def asset_sub_def split: if_splits)

section \<open>Holdings\<close>

definition holdings :: "((64 word \<times> 64 word) \<times> account_row) list \<Rightarrow> 64 word \<Rightarrow> int" where
  "holdings al c = (\<Sum>e\<leftarrow>filter (\<lambda>e. snd (fst e) = c) al. amount (balance (snd e)))"

definition held :: "((64 word \<times> 64 word) \<times> account_row) list \<Rightarrow> 64 word \<times> 64 word \<Rightarrow> int" where
  "held al k = (case map_of al k of None \<Rightarrow> 0 | Some row \<Rightarrow> amount (balance row))"

lemma holdings_update:
  "holdings (AList.update k row al) c = holdings al c + (if snd k = c then amount (balance row) - held al k else 0)"
  by (induction al) (auto simp: holdings_def held_def)

lemma holdings_delete:
  assumes "distinct (map fst al)"
  shows "holdings (AList.delete k al) c = holdings al c - (if snd k = c then held al k else 0)"
  using assms
proof (induction al)
  case (Cons e al)
  have "AList.delete k al = al" if "fst e = k"
    using Cons.prems that by (intro delete_id) auto
  moreover have "map_of al k = None" if "fst e = k"
    using Cons.prems that by (simp add: map_of_eq_None_iff)
  ultimately show ?case
    using Cons by (auto simp: holdings_def held_def)
qed (simp add: holdings_def held_def)

lemma held_update: "held (AList.update k row al) k' = (if k' = k then amount (balance row) else held al k')"
  by (simp add: held_def update_conv')

definition token_ok :: "contract_lib \<Rightarrow> token_state \<Rightarrow> bool" where
  "token_ok lib st \<longleftrightarrow> distinct (map fst (accounts st)) \<and>
     (\<forall>c cs. map_of (stats st) c = Some cs \<longrightarrow>
        symbol_code_raw lib (sym (current_supply cs)) = c \<and>
        0 \<le> amount (current_supply cs) \<and> amount (current_supply cs) \<le> amount (max_supply cs) \<and>
        holdings (accounts st) c = amount (current_supply cs)) \<and>
     (\<forall>c. map_of (stats st) c = None \<longrightarrow> holdings (accounts st) c = 0) \<and>
     (\<forall>k row. map_of (accounts st) k = Some row \<longrightarrow> 0 \<le> amount (balance row) \<and> map_of (stats st) (snd k) \<noteq> None)"

lemma token_okD:
  assumes "token_ok lib st"
  shows "distinct (map fst (accounts st))"
    "map_of (stats st) c = Some cs \<Longrightarrow> symbol_code_raw lib (sym (current_supply cs)) = c \<and>
      0 \<le> amount (current_supply cs) \<and> amount (current_supply cs) \<le> amount (max_supply cs) \<and>
      holdings (accounts st) c = amount (current_supply cs)"
    "map_of (stats st) c = None \<Longrightarrow> holdings (accounts st) c = 0"
    "map_of (accounts st) k = Some row \<Longrightarrow> 0 \<le> amount (balance row)"
    "map_of (accounts st) k = Some row \<Longrightarrow> map_of (stats st) (snd k) \<noteq> None"
  using assms unfolding token_ok_def by blast+

lemma member_le_sum_list_int:
  fixes xs :: "int list"
  assumes "x \<in> set xs" "\<And>y. y \<in> set xs \<Longrightarrow> 0 \<le> y"
  shows "x \<le> sum_list xs"
  using assms
proof (induction xs)
  case (Cons y ys)
  have "0 \<le> sum_list ys"
    using Cons.prems(2) by (intro sum_list_nonneg) simp
  moreover have "0 \<le> y"
    using Cons.prems(2) by simp
  ultimately show ?case
    using Cons by fastforce
qed simp

lemma balance_le_holdings:
  assumes "token_ok lib st" "map_of (accounts st) k = Some row"
  shows "amount (balance row) \<le> holdings (accounts st) (snd k)"
proof -
  have nonneg: "0 \<le> amount (balance (snd e))" if "e \<in> set (accounts st)" for e
    using token_okD(1)[OF assms(1)] token_okD(4)[OF assms(1), of "fst e" "snd e"] that by (simp add: map_of_is_SomeI)
  have "amount (balance row) \<in> set (map (\<lambda>e. amount (balance (snd e))) (filter (\<lambda>e. snd (fst e) = snd k) (accounts st)))"
    using map_of_SomeD[OF assms(2)] by force
  then show ?thesis
    unfolding holdings_def using nonneg by (intro member_le_sum_list_int) auto
qed

section \<open>The two balance helpers\<close>

context contract_assets
begin

lemma sub_balance_Inr:
  assumes "sub_balance lib owner v st = Inr st'"
  obtains row where "map_of (accounts st) (owner, symbol_code_raw lib (sym v)) = Some row"
    "amount v \<le> amount (balance row)"
    "st' = st\<lparr>accounts := AList.update (owner, symbol_code_raw lib (sym v))
       \<lparr>balance = \<lparr>amount = amount (balance row) - amount v, sym = sym (balance row)\<rparr>, payer = owner\<rparr> (accounts st)\<rparr>"
proof -
  let ?k = "(owner, symbol_code_raw lib (sym v))"
  obtain row where row: "map_of (accounts st) ?k = Some row"
    using assms by (cases "map_of (accounts st) ?k") (simp_all add: sub_balance_def)
  obtain b where b: "amount v \<le> amount (balance row)" "asset_minus lib (balance row) v = Inr b"
    "st' = st\<lparr>accounts := AList.update ?k \<lparr>balance = b, payer = owner\<rparr> (accounts st)\<rparr>"
    using assms by (auto simp: sub_balance_def Let_def row check_def result_simps)
  show ?thesis
    using that[OF row b(1)] b(3) asset_minus_exact[OF b(2)] by simp
qed

lemma add_balance_Inr:
  assumes "add_balance lib owner v pay st = Inr st'"
  obtains row where "amount (balance row) = held (accounts st) (owner, symbol_code_raw lib (sym v)) + amount v"
    "st' = st\<lparr>accounts := AList.update (owner, symbol_code_raw lib (sym v)) row (accounts st)\<rparr>"
proof -
  let ?k = "(owner, symbol_code_raw lib (sym v))"
  show ?thesis
  proof (cases "map_of (accounts st) ?k")
    case None
    then show ?thesis
      using assms that[of "\<lparr>balance = v, payer = pay\<rparr>"] by (simp add: add_balance_def held_def)
  next
    case (Some row)
    then obtain b where b: "asset_plus lib (balance row) v = Inr b"
      "st' = st\<lparr>accounts := AList.update ?k (row\<lparr>balance := b\<rparr>) (accounts st)\<rparr>"
      using assms by (auto simp: add_balance_def Let_def result_simps)
    show ?thesis
      using that[of "row\<lparr>balance := b\<rparr>"] b(2) asset_plus_exact[OF b(1)] Some by (simp add: held_def)
  qed
qed

end

section \<open>Preservation\<close>

lemma token_ok_change:
  assumes ok: "token_ok lib st" and cs: "map_of (stats st) c = Some cs" and row: "0 \<le> amount (balance row)"
    and stats': "map_of (stats st') = (map_of (stats st))(c \<mapsto> cs')" and accounts': "accounts st' = AList.update (o', c) row (accounts st)"
    and code: "sym (current_supply cs') = sym (current_supply cs)"
    and amount: "amount (current_supply cs') = amount (current_supply cs) + amount (balance row) - held (accounts st) (o', c)"
    and bounds: "0 \<le> amount (current_supply cs')" "amount (current_supply cs') \<le> amount (max_supply cs')"
  shows "token_ok lib st'"
proof -
  note D = token_okD[OF ok]
  have hold: "holdings (accounts st') d = holdings (accounts st) d + (if c = d then amount (balance row) - held (accounts st) (o', c) else 0)" for d
    unfolding accounts' holdings_update by simp
  have "symbol_code_raw lib (sym (current_supply ds)) = d \<and> 0 \<le> amount (current_supply ds) \<and>
    amount (current_supply ds) \<le> amount (max_supply ds) \<and> holdings (accounts st') d = amount (current_supply ds)"
    if "map_of (stats st') d = Some ds" for d ds
    using that D(2)[of d ds] D(2)[OF cs] code amount bounds by (auto simp: stats' hold split: if_splits)
  moreover have "holdings (accounts st') d = 0" if "map_of (stats st') d = None" for d
    using that D(3)[of d] by (auto simp: stats' hold split: if_splits)
  moreover have "0 \<le> amount (balance r) \<and> map_of (stats st') (snd k) \<noteq> None" if "map_of (accounts st') k = Some r" for k r
    using that D(4,5)[of k r] row by (auto simp: stats' accounts' update_conv' split: if_splits)
  moreover have "distinct (map fst (accounts st'))"
    using D(1) by (simp add: accounts' distinct_update)
  ultimately show ?thesis
    unfolding token_ok_def by blast
qed

lemma token_ok_move:
  assumes ok: "token_ok lib st" and cs: "map_of (stats st) c \<noteq> None" and diff: "o1 \<noteq> o2"
    and rows: "0 \<le> amount (balance r1)" "0 \<le> amount (balance r2)"
      "amount (balance r1) + amount (balance r2) = held (accounts st) (o1, c) + held (accounts st) (o2, c)"
    and st': "stats st' = stats st" "accounts st' = AList.update (o2, c) r2 (AList.update (o1, c) r1 (accounts st))"
  shows "token_ok lib st'"
proof -
  note D = token_okD[OF ok]
  have "holdings (accounts st') d = holdings (accounts st) d" for d
    unfolding st' holdings_update held_update using rows(3) diff by auto
  moreover have "0 \<le> amount (balance r) \<and> map_of (stats st) (snd k) \<noteq> None" if "map_of (accounts st') k = Some r" for k r
    using that D(4,5)[of k r] rows cs by (auto simp: st' update_conv' split: if_splits)
  moreover have "distinct (map fst (accounts st'))"
    using D(1) by (simp add: st' distinct_update)
  ultimately show ?thesis
    using ok unfolding token_ok_def st'(1) by simp
qed

context contract_assets
begin

lemma create_ok:
  assumes ok: "token_ok lib st" and act: "token_create lib env iss m st = Inr st'"
  shows "token_ok lib st'"
proof -
  let ?c = "symbol_code_raw lib (sym m)"
  have "map_of (stats st) ?c = None" "0 < amount m"
    "st' = st\<lparr>stats := AList.update ?c \<lparr>current_supply = \<lparr>amount = 0, sym = sym m\<rparr>, max_supply = m, issuer = iss\<rparr> (stats st)\<rparr>"
    using act by (auto simp: token_create_def Let_def check_def require_auth_def result_simps)
  then show ?thesis
    using ok unfolding token_ok_def by (auto simp: update_conv' split: if_splits)
qed

lemma issue_ok:
  assumes ok: "token_ok lib st" and act: "token_issue lib env to q memo st = Inr st'"
  shows "token_ok lib st'"
proof -
  let ?c = "symbol_code_raw lib (sym q)"
  obtain cs where cs: "map_of (stats st) ?c = Some cs"
    using act by (cases "map_of (stats st) ?c") (auto simp: token_issue_def Let_def result_simps)
  obtain sup where q: "0 < amount q" "amount q \<le> amount (max_supply cs) - amount (current_supply cs)"
    "asset_plus lib (current_supply cs) q = Inr sup"
    "add_balance lib (issuer cs) q (issuer cs) (st\<lparr>stats := AList.update ?c (cs\<lparr>current_supply := sup\<rparr>) (stats st)\<rparr>) = Inr st'"
    using act by (auto simp: token_issue_def Let_def cs check_def require_auth_def result_simps)
  note sup = asset_plus_exact[OF q(3)]
  let ?st1 = "st\<lparr>stats := AList.update ?c (cs\<lparr>current_supply := sup\<rparr>) (stats st)\<rparr>"
  obtain row where "amount (balance row) = held (accounts ?st1) (issuer cs, ?c) + amount q"
    "st' = ?st1\<lparr>accounts := AList.update (issuer cs, ?c) row (accounts ?st1)\<rparr>"
    using add_balance_Inr[OF q(4)] .
  then have row: "amount (balance row) = held (accounts st) (issuer cs, ?c) + amount q"
    "stats st' = AList.update ?c (cs\<lparr>current_supply := sup\<rparr>) (stats st)"
    "accounts st' = AList.update (issuer cs, ?c) row (accounts st)"
    by simp_all
  have "0 \<le> held (accounts st) (issuer cs, ?c)"
    using token_okD(4)[OF ok] by (auto simp: held_def split: option.splits)
  then show ?thesis
    by (intro token_ok_change[OF ok cs, of row _ "cs\<lparr>current_supply := sup\<rparr>" "issuer cs"])
       (use row q sup token_okD(2)[OF ok cs] in \<open>auto simp: update_conv'\<close>)
qed

end


context contract_assets
begin

lemma retire_ok:
  assumes ok: "token_ok lib st" and act: "token_retire lib env q memo st = Inr st'"
  shows "token_ok lib st'"
proof -
  let ?c = "symbol_code_raw lib (sym q)"
  obtain cs where cs: "map_of (stats st) ?c = Some cs"
    using act by (cases "map_of (stats st) ?c") (auto simp: token_retire_def Let_def result_simps)
  obtain sup where q: "0 < amount q" "asset_minus lib (current_supply cs) q = Inr sup"
    "sub_balance lib (issuer cs) q (st\<lparr>stats := AList.update ?c (cs\<lparr>current_supply := sup\<rparr>) (stats st)\<rparr>) = Inr st'"
    using act by (auto simp: token_retire_def Let_def cs check_def require_auth_def result_simps)
  note sup = asset_minus_exact[OF q(2)]
  let ?st1 = "st\<lparr>stats := AList.update ?c (cs\<lparr>current_supply := sup\<rparr>) (stats st)\<rparr>"
  obtain row where "map_of (accounts ?st1) (issuer cs, ?c) = Some row" "amount q \<le> amount (balance row)"
    "st' = ?st1\<lparr>accounts := AList.update (issuer cs, ?c)
       \<lparr>balance = \<lparr>amount = amount (balance row) - amount q, sym = sym (balance row)\<rparr>, payer = issuer cs\<rparr> (accounts ?st1)\<rparr>"
    using sub_balance_Inr[OF q(3)] .
  then have row: "map_of (accounts st) (issuer cs, ?c) = Some row" "amount q \<le> amount (balance row)"
    "stats st' = AList.update ?c (cs\<lparr>current_supply := sup\<rparr>) (stats st)"
    "accounts st' = AList.update (issuer cs, ?c)
       \<lparr>balance = \<lparr>amount = amount (balance row) - amount q, sym = sym (balance row)\<rparr>, payer = issuer cs\<rparr> (accounts st)"
    by simp_all
  have "amount (balance row) \<le> holdings (accounts st) ?c"
    using balance_le_holdings[OF ok row(1)] by simp
  then show ?thesis
    by (intro token_ok_change[OF ok cs _ _ row(4), where cs' = "cs\<lparr>current_supply := sup\<rparr>"])
       (use row(1-3) q(1) sup token_okD(2)[OF ok cs] in \<open>auto simp: update_conv' held_def\<close>)
qed

lemma transfer_ok:
  assumes ok: "token_ok lib st" and act: "token_transfer lib env a b q memo st = Inr st'"
  shows "token_ok lib st'"
proof -
  let ?c = "symbol_code_raw lib (sym q)"
  obtain cs where cs: "map_of (stats st) ?c = Some cs"
    using act by (cases "map_of (stats st) ?c") (auto simp: token_transfer_def Let_def result_simps)
  let ?st1 = "require_recipient b (require_recipient a st)"
  obtain pay st2 where q: "a \<noteq> b" "0 < amount q" "sub_balance lib a q ?st1 = Inr st2" "add_balance lib b q pay st2 = Inr st'"
    using act by (auto simp: token_transfer_def Let_def cs check_def require_auth_def result_simps)
  have st1: "stats ?st1 = stats st" "accounts ?st1 = accounts st"
    by (simp_all add: require_recipient_def)
  obtain row where "map_of (accounts ?st1) (a, ?c) = Some row" "amount q \<le> amount (balance row)"
    "st2 = ?st1\<lparr>accounts := AList.update (a, ?c)
       \<lparr>balance = \<lparr>amount = amount (balance row) - amount q, sym = sym (balance row)\<rparr>, payer = a\<rparr> (accounts ?st1)\<rparr>"
    using sub_balance_Inr[OF q(3)] .
  then obtain r1 where r1: "held (accounts st) (a, ?c) = amount (balance r1) + amount q" "0 \<le> amount (balance r1)"
    "stats st2 = stats st" "accounts st2 = AList.update (a, ?c) r1 (accounts st)"
    using st1 that[of "\<lparr>balance = \<lparr>amount = amount (balance row) - amount q, sym = sym (balance row)\<rparr>, payer = a\<rparr>"]
    by (simp add: held_def)
  obtain r2 where r2: "amount (balance r2) = held (accounts st2) (b, ?c) + amount q"
    "st' = st2\<lparr>accounts := AList.update (b, ?c) r2 (accounts st2)\<rparr>"
    using add_balance_Inr[OF q(4)] .
  have "0 \<le> held (accounts st) (b, ?c)"
    using token_okD(4)[OF ok] by (auto simp: held_def split: option.splits)
  then show ?thesis
    by (intro token_ok_move[OF ok, where c = ?c and ?o1.0 = a and ?o2.0 = b and ?r1.0 = r1 and ?r2.0 = r2])
       (use cs q(1,2) r1 r2 in \<open>simp_all add: held_update\<close>)
qed

lemma open_ok:
  assumes ok: "token_ok lib st" and act: "token_open lib env owner s pay st = Inr st'"
  shows "token_ok lib st'"
proof (cases "st' = st")
  case False
  let ?c = "symbol_code_raw lib s"
  obtain cs where cs: "map_of (stats st) ?c = Some cs"
    using act by (cases "map_of (stats st) ?c") (auto simp: token_open_def Let_def result_simps)
  obtain b where b: "map_of (accounts st) (owner, ?c) = None" "asset_of lib 0 s = Inr b"
    "st' = st\<lparr>accounts := AList.update (owner, ?c) \<lparr>balance = b, payer = pay\<rparr> (accounts st)\<rparr>"
    using act False by (auto simp: token_open_def Let_def cs result_simps split: if_splits)
  show ?thesis
    by (rule token_ok_change[OF ok cs, where row = "\<lparr>balance = b, payer = pay\<rparr>" and cs' = cs and o' = owner])
       (use b(1,3) asset_of_exact[OF b(2)] token_okD(2)[OF ok cs] cs in \<open>auto simp: held_def fun_eq_iff\<close>)
qed (use ok in simp)

lemma close_ok:
  assumes ok: "token_ok lib st" and act: "token_close lib env owner s st = Inr st'"
  shows "token_ok lib st'"
proof -
  let ?k = "(owner, symbol_code_raw lib s)"
  obtain row where row: "map_of (accounts st) ?k = Some row"
    using act by (cases "map_of (accounts st) ?k") (auto simp: token_close_def Let_def result_simps)
  have st': "amount (balance row) = 0" "st' = st\<lparr>accounts := AList.delete ?k (accounts st)\<rparr>"
    using act by (auto simp: token_close_def Let_def row check_def result_simps)
  have "held (accounts st) ?k = 0"
    unfolding held_def row by (simp add: st'(1))
  then have "holdings (accounts st') c = holdings (accounts st) c" for c
    using holdings_delete[OF token_okD(1)[OF ok], of ?k c] st'(2) by auto
  then show ?thesis
    using ok unfolding token_ok_def st'(2) by (auto simp: delete_conv' distinct_delete split: if_splits)
qed

end


section \<open>Sequences of actions\<close>

datatype token_action =
    Create "64 word" asset
  | Issue "64 word" asset string
  | Retire asset string
  | Transfer "64 word" "64 word" asset string
  | Open "64 word" "64 word" "64 word"
  | Close "64 word" "64 word"

fun token_dispatch :: "contract_lib \<Rightarrow> action_env \<Rightarrow> token_action \<Rightarrow> token_state \<Rightarrow> token_state result" where
  "token_dispatch lib env (Create iss m) st = token_create lib env iss m st"
| "token_dispatch lib env (Issue to q memo) st = token_issue lib env to q memo st"
| "token_dispatch lib env (Retire q memo) st = token_retire lib env q memo st"
| "token_dispatch lib env (Transfer a b q memo) st = token_transfer lib env a b q memo st"
| "token_dispatch lib env (Open owner s pay) st = token_open lib env owner s pay st"
| "token_dispatch lib env (Close owner s) st = token_close lib env owner s st"

text \<open>An action starts with its receiver as the only notified account.\<close>

definition token_apply :: "contract_lib \<Rightarrow> action_env \<Rightarrow> token_action \<Rightarrow> token_state \<Rightarrow> token_state result" where
  "token_apply lib env act st = token_dispatch lib env act (st\<lparr>notified := [get_self env]\<rparr>)"

inductive token_reachable :: "contract_lib \<Rightarrow> token_state \<Rightarrow> bool" for lib where
  init: "token_reachable lib empty_token_state"
| step: "token_reachable lib st \<Longrightarrow> token_apply lib env act st = Inr st' \<Longrightarrow> token_reachable lib st'"

lemma token_ok_notified: "token_ok lib (st\<lparr>notified := x\<rparr>) \<longleftrightarrow> token_ok lib st"
  by (simp add: token_ok_def)

lemma empty_token_ok: "token_ok lib empty_token_state"
  by (simp add: token_ok_def empty_token_state_def holdings_def)

context contract_assets
begin

lemma apply_ok: "token_apply lib env act st = Inr st' \<Longrightarrow> token_ok lib st \<Longrightarrow> token_ok lib st'"
  using token_ok_notified[of lib "[get_self env]" st] unfolding token_apply_def
  by (cases act) (auto intro: create_ok issue_ok retire_ok transfer_ok open_ok close_ok)

lemma token_reachable_ok: "token_reachable lib st \<Longrightarrow> token_ok lib st"
  by (induction rule: token_reachable.induct) (auto intro: empty_token_ok apply_ok)

lemma issue_held:
  assumes "token_issue lib env to q memo st = Inr st'"
  shows "held (accounts st) k \<le> held (accounts st') k"
proof -
  let ?c = "symbol_code_raw lib (sym q)"
  obtain cs where cs: "map_of (stats st) ?c = Some cs"
    using assms by (cases "map_of (stats st) ?c") (auto simp: token_issue_def Let_def result_simps)
  obtain sup where q: "0 < amount q"
    "add_balance lib (issuer cs) q (issuer cs) (st\<lparr>stats := AList.update ?c (cs\<lparr>current_supply := sup\<rparr>) (stats st)\<rparr>) = Inr st'"
    using assms by (auto simp: token_issue_def Let_def cs check_def require_auth_def result_simps)
  show ?thesis
    by (rule add_balance_Inr[OF q(2)]) (use q(1) in \<open>simp add: held_update\<close>)
qed

lemma retire_held:
  assumes "token_retire lib env q memo st = Inr st'" "held (accounts st') k < held (accounts st) k"
  shows "fst k \<in> set (authorized env)"
proof -
  let ?c = "symbol_code_raw lib (sym q)"
  obtain cs where cs: "map_of (stats st) ?c = Some cs"
    using assms(1) by (cases "map_of (stats st) ?c") (auto simp: token_retire_def Let_def result_simps)
  obtain sup where q: "issuer cs \<in> set (authorized env)"
    "sub_balance lib (issuer cs) q (st\<lparr>stats := AList.update ?c (cs\<lparr>current_supply := sup\<rparr>) (stats st)\<rparr>) = Inr st'"
    using assms(1) by (auto simp: token_retire_def Let_def cs check_def require_auth_def result_simps)
  show ?thesis
    by (rule sub_balance_Inr[OF q(2)]) (use q(1) assms(2) in \<open>auto simp: held_update split: if_splits\<close>)
qed

lemma transfer_held:
  assumes "token_transfer lib env a b q memo st = Inr st'" "held (accounts st') k < held (accounts st) k"
  shows "fst k \<in> set (authorized env)"
proof -
  let ?c = "symbol_code_raw lib (sym q)" and ?st1 = "require_recipient b (require_recipient a st)"
  obtain cs where cs: "map_of (stats st) ?c = Some cs"
    using assms(1) by (cases "map_of (stats st) ?c") (auto simp: token_transfer_def Let_def result_simps)
  obtain pay st2 where q: "a \<in> set (authorized env)" "0 < amount q" "sub_balance lib a q ?st1 = Inr st2"
    "add_balance lib b q pay st2 = Inr st'"
    using assms(1) by (auto simp: token_transfer_def Let_def cs check_def require_auth_def result_simps)
  have "held (accounts st2) k \<le> held (accounts st') k"
    by (rule add_balance_Inr[OF q(4)]) (use q(2) in \<open>simp add: held_update\<close>)
  then have less: "held (accounts st2) k < held (accounts st) k"
    using assms(2) by simp
  have same: "accounts ?st1 = accounts st"
    by (simp add: require_recipient_def)
  obtain row where "accounts st2 = AList.update (a, ?c) row (accounts ?st1)"
    by (rule sub_balance_Inr[OF q(3)]) simp
  then have "held (accounts st2) k = (if k = (a, ?c) then amount (balance row) else held (accounts st) k)"
    by (simp only: same held_update)
  then have "k = (a, ?c)"
    using less by (cases "k = (a, ?c)") simp_all
  then show ?thesis
    using q(1) by (metis fst_conv)
qed

lemma dispatch_held:
  assumes "token_dispatch lib env act st = Inr st'" "held (accounts st') k < held (accounts st) k"
  shows "fst k \<in> set (authorized env)"
proof (cases act)
  case (Create iss m)
  then have "accounts st' = accounts st"
    using assms(1) by (auto simp: token_create_def Let_def result_simps)
  then show ?thesis using assms(2) by simp
next
  case (Open owner s pay)
  then have "accounts st' = accounts st \<or> (\<exists>b. map_of (accounts st) (owner, symbol_code_raw lib s) = None \<and>
      asset_of lib 0 s = Inr b \<and>
      accounts st' = AList.update (owner, symbol_code_raw lib s) \<lparr>balance = b, payer = pay\<rparr> (accounts st))"
    using assms(1) by (auto simp: token_open_def Let_def result_simps split: option.splits if_splits)
  then have "held (accounts st) k \<le> held (accounts st') k"
    by (auto simp: held_def update_conv' dest: asset_of_exact)
  then show ?thesis using assms(2) by simp
next
  case (Close owner s)
  then have "owner \<in> set (authorized env)"
    "accounts st' = AList.delete (owner, symbol_code_raw lib s) (accounts st)"
    using assms(1) by (auto simp: token_close_def Let_def require_auth_def result_simps split: option.splits)
  then show ?thesis
    using assms(2) by (cases "k = (owner, symbol_code_raw lib s)") (auto simp: held_def delete_conv')
qed (use assms in \<open>auto dest: issue_held[of env _ _ _ st st' k] intro: retire_held transfer_held\<close>)

lemma apply_held:
  assumes "token_apply lib env act st = Inr st'" "held (accounts st') k < held (accounts st) k"
  shows "fst k \<in> set (authorized env)"
  using dispatch_held[OF assms(1)[unfolded token_apply_def], of k] assms(2) by simp

end


end
