(* ===== verification/Token_Properties.thy ===== *)
theory Token_Properties
  imports Token_Invariant
begin

text \<open>
  The properties of the token contract: conservation over all sequences of actions, spending only with the owner's authority,
  and an exact account of when a transfer is accepted and of what it does. The last one needs that no sum of balances overflows,
  which follows from conservation and from the bound on the maximum supply.
\<close>

section \<open>Symbols of balances\<close>

definition token_typed :: "contract_lib \<Rightarrow> token_state \<Rightarrow> bool" where
  "token_typed lib st \<longleftrightarrow>
     (\<forall>c cs. map_of (stats st) c = Some cs \<longrightarrow>
        asset_is_valid lib (max_supply cs) \<and> sym (max_supply cs) = sym (current_supply cs)) \<and>
     (\<forall>k row. map_of (accounts st) k = Some row \<longrightarrow>
        (\<exists>cs. map_of (stats st) (snd k) = Some cs \<and> sym (balance row) = sym (current_supply cs)))"

lemma token_typed_change:
  assumes typed: "token_typed lib st" and cs: "map_of (stats st) c = Some cs"
    and stats': "map_of (stats st') = (map_of (stats st))(c \<mapsto> cs')"
    and cs': "sym (current_supply cs') = sym (current_supply cs)" "max_supply cs' = max_supply cs"
    and accounts': "\<And>k row. map_of (accounts st') k = Some row \<Longrightarrow>
      (\<exists>row'. map_of (accounts st) k = Some row' \<and> sym (balance row) = sym (balance row')) \<or>
      snd k = c \<and> sym (balance row) = sym (current_supply cs)"
  shows "token_typed lib st'"
proof -
  have "asset_is_valid lib (max_supply ds) \<and> sym (max_supply ds) = sym (current_supply ds)" if "map_of (stats st') d = Some ds" for d ds
    using typed that cs cs' unfolding token_typed_def stats' by (auto split: if_splits)
  moreover have "\<exists>ds. map_of (stats st') (snd k) = Some ds \<and> sym (balance row) = sym (current_supply ds)"
    if row: "map_of (accounts st') k = Some row" for k row
  proof (cases "snd k = c")
    case True
    then have "sym (balance row) = sym (current_supply cs)"
      using accounts'[OF row] typed cs unfolding token_typed_def by fastforce
    then show ?thesis using True cs' by (simp add: stats')
  next
    case False
    then show ?thesis using accounts'[OF row] typed unfolding token_typed_def stats' by (cases k) auto
  qed
  ultimately show ?thesis
    unfolding token_typed_def by blast
qed

context contract_assets
begin

lemma sub_balance_typed:
  assumes "sub_balance lib owner v st = Inr st'"
  shows "stats st' = stats st" "map_of (accounts st') k = Some row \<Longrightarrow>
    \<exists>row'. map_of (accounts st) k = Some row' \<and> sym (balance row) = sym (balance row')"
proof -
  obtain r where "map_of (accounts st) (owner, symbol_code_raw lib (sym v)) = Some r"
    "st' = st\<lparr>accounts := AList.update (owner, symbol_code_raw lib (sym v))
       \<lparr>balance = \<lparr>amount = amount (balance r) - amount v, sym = sym (balance r)\<rparr>, payer = owner\<rparr> (accounts st)\<rparr>"
    using sub_balance_Inr[OF assms] .
  then show "stats st' = stats st" "map_of (accounts st') k = Some row \<Longrightarrow>
    \<exists>row'. map_of (accounts st) k = Some row' \<and> sym (balance row) = sym (balance row')"
    by (auto simp: update_conv' split: if_splits)
qed

lemma asset_plus_sym: "asset_plus lib a b = Inr c \<Longrightarrow> sym c = sym b"
  using asset_plus_exact[of a b c] by simp

lemma add_balance_typed:
  assumes "add_balance lib owner v pay st = Inr st'"
  shows "stats st' = stats st" "map_of (accounts st') k = Some row \<Longrightarrow>
    map_of (accounts st) k = Some row \<or> snd k = symbol_code_raw lib (sym v) \<and> sym (balance row) = sym v"
proof -
  let ?k = "(owner, symbol_code_raw lib (sym v))"
  obtain r where "sym (balance r) = sym v" "st' = st\<lparr>accounts := AList.update ?k r (accounts st)\<rparr>"
  proof (cases "map_of (accounts st) ?k")
    case None
    then show ?thesis
      using assms that[of "\<lparr>balance = v, payer = pay\<rparr>"] by (simp add: add_balance_def)
  next
    case (Some row)
    then obtain b where "asset_plus lib (balance row) v = Inr b"
      "st' = st\<lparr>accounts := AList.update ?k (row\<lparr>balance := b\<rparr>) (accounts st)\<rparr>"
      using assms by (auto simp: add_balance_def Let_def result_simps)
    then show ?thesis
      using that[of "row\<lparr>balance := b\<rparr>"] asset_plus_sym by simp
  qed
  then show "stats st' = stats st" "map_of (accounts st') k = Some row \<Longrightarrow>
    map_of (accounts st) k = Some row \<or> snd k = symbol_code_raw lib (sym v) \<and> sym (balance row) = sym v"
    by (auto simp: update_conv' split: if_splits)
qed

lemma issue_typed:
  assumes "token_issue lib env to q memo st = Inr st'" "token_typed lib st"
  shows "token_typed lib st'"
proof -
  let ?c = "symbol_code_raw lib (sym q)"
  obtain cs where cs: "map_of (stats st) ?c = Some cs"
    using assms(1) by (cases "map_of (stats st) ?c") (auto simp: token_issue_def Let_def result_simps)
  let ?st1 = "\<lambda>sup. st\<lparr>stats := AList.update ?c (cs\<lparr>current_supply := sup\<rparr>) (stats st)\<rparr>"
  obtain sup where q: "sym q = sym (current_supply cs)" "asset_plus lib (current_supply cs) q = Inr sup"
    "add_balance lib (issuer cs) q (issuer cs) (?st1 sup) = Inr st'"
    using assms(1) by (auto simp: token_issue_def Let_def cs check_def result_simps)
  have stats': "map_of (stats st') = (map_of (stats st))(?c \<mapsto> cs\<lparr>current_supply := sup\<rparr>)"
    by (simp add: add_balance_typed(1)[OF q(3)] update_conv')
  have "map_of (accounts st) k = Some row \<or> snd k = ?c \<and> sym (balance row) = sym (current_supply cs)"
    if "map_of (accounts st') k = Some row" for k row
    using add_balance_typed(2)[OF q(3) that] q(1) by simp
  then show ?thesis
    using asset_plus_exact[OF q(2)] by (intro token_typed_change[OF assms(2) cs stats']) (simp_all, blast)
qed

lemma retire_typed:
  assumes "token_retire lib env q memo st = Inr st'" "token_typed lib st"
  shows "token_typed lib st'"
proof -
  let ?c = "symbol_code_raw lib (sym q)"
  obtain cs where cs: "map_of (stats st) ?c = Some cs"
    using assms(1) by (cases "map_of (stats st) ?c") (auto simp: token_retire_def Let_def result_simps)
  let ?st1 = "\<lambda>sup. st\<lparr>stats := AList.update ?c (cs\<lparr>current_supply := sup\<rparr>) (stats st)\<rparr>"
  obtain sup where q: "asset_minus lib (current_supply cs) q = Inr sup" "sub_balance lib (issuer cs) q (?st1 sup) = Inr st'"
    using assms(1) by (auto simp: token_retire_def Let_def cs check_def result_simps)
  have stats': "map_of (stats st') = (map_of (stats st))(?c \<mapsto> cs\<lparr>current_supply := sup\<rparr>)"
    by (simp add: sub_balance_typed(1)[OF q(2)] update_conv')
  have "\<exists>row'. map_of (accounts st) k = Some row' \<and> sym (balance row) = sym (balance row')"
    if "map_of (accounts st') k = Some row" for k row
    using sub_balance_typed(2)[OF q(2) that] by simp
  then show ?thesis
    using asset_minus_exact[OF q(1)] by (intro token_typed_change[OF assms(2) cs stats']) simp_all
qed

lemma transfer_Inr:
  assumes "token_transfer lib env a b q memo st = Inr st'"
  obtains cs st2 pay where "map_of (stats st) (symbol_code_raw lib (sym q)) = Some cs" "sym q = sym (current_supply cs)"
    "a \<noteq> b" "a \<in> set (authorized env)" "is_account env b" "asset_is_valid lib q" "0 < amount q" "length memo \<le> 256"
    "sub_balance lib a q (require_recipient b (require_recipient a st)) = Inr st2" "add_balance lib b q pay st2 = Inr st'"
proof -
  obtain cs where cs: "map_of (stats st) (symbol_code_raw lib (sym q)) = Some cs"
    using assms by (cases "map_of (stats st) (symbol_code_raw lib (sym q))") (auto simp: token_transfer_def Let_def result_simps)
  show ?thesis
    using assms that[OF cs] by (auto simp: token_transfer_def Let_def cs check_def require_auth_def result_simps)
qed

lemma require_recipient_tables:
  "stats (require_recipient a st) = stats st" "accounts (require_recipient a st) = accounts st"
  by (simp_all add: require_recipient_def)

lemma transfer_typed:
  assumes "token_transfer lib env a b q memo st = Inr st'" "token_typed lib st"
  shows "token_typed lib st'"
proof (rule transfer_Inr[OF assms(1)])
  fix cs st2 pay
  assume cs: "map_of (stats st) (symbol_code_raw lib (sym q)) = Some cs" and q: "sym q = sym (current_supply cs)"
    and sub: "sub_balance lib a q (require_recipient b (require_recipient a st)) = Inr st2"
    and add: "add_balance lib b q pay st2 = Inr st'"
  have stats': "map_of (stats st') = (map_of (stats st))(symbol_code_raw lib (sym q) \<mapsto> cs)"
    using cs by (simp add: add_balance_typed(1)[OF add] sub_balance_typed(1)[OF sub] require_recipient_tables fun_upd_idem)
  show ?thesis
  proof (rule token_typed_change[OF assms(2) cs stats'])
    fix k row
    assume "map_of (accounts st') k = Some row"
    from add_balance_typed(2)[OF add this]
    show "(\<exists>row'. map_of (accounts st) k = Some row' \<and> sym (balance row) = sym (balance row')) \<or>
      snd k = symbol_code_raw lib (sym q) \<and> sym (balance row) = sym (current_supply cs)"
      using sub_balance_typed(2)[OF sub, of k row] q by (auto simp: require_recipient_tables)
  qed simp_all
qed

lemma open_typed:
  assumes "token_open lib env owner s pay st = Inr st'" "token_typed lib st"
  shows "token_typed lib st'"
proof -
  let ?c = "symbol_code_raw lib s"
  obtain cs where cs: "map_of (stats st) ?c = Some cs"
    using assms(1) by (cases "map_of (stats st) ?c") (auto simp: token_open_def Let_def result_simps)
  have "sym (current_supply cs) = s" "stats st' = stats st" "accounts st' = accounts st \<or>
    (\<exists>b. asset_of lib 0 s = Inr b \<and> accounts st' = AList.update (owner, ?c) \<lparr>balance = b, payer = pay\<rparr> (accounts st))"
    using assms(1) by (auto simp: token_open_def Let_def cs check_def result_simps split: if_splits)
  moreover from this have "map_of (stats st') = (map_of (stats st))(?c \<mapsto> cs)"
    using cs by (simp add: fun_upd_idem)
  ultimately show ?thesis
    by (elim disjE exE conjE; intro token_typed_change[OF assms(2) cs, where cs' = cs])
       (auto simp: update_conv' dest: asset_of_exact split: if_splits)
qed

lemma create_typed:
  assumes "token_create lib env iss m st = Inr st'" "token_typed lib st"
  shows "token_typed lib st'"
proof -
  let ?c = "symbol_code_raw lib (sym m)"
  have "map_of (stats st) ?c = None" "asset_is_valid lib m"
    "st' = st\<lparr>stats := AList.update ?c \<lparr>current_supply = \<lparr>amount = 0, sym = sym m\<rparr>, max_supply = m, issuer = iss\<rparr> (stats st)\<rparr>"
    using assms(1) by (auto simp: token_create_def Let_def check_def require_auth_def result_simps)
  then show ?thesis
    using assms(2) unfolding token_typed_def by (fastforce simp: update_conv' split: if_splits)
qed

lemma close_typed:
  assumes "token_close lib env owner s st = Inr st'" "token_typed lib st"
  shows "token_typed lib st'"
proof -
  have "st' = st\<lparr>accounts := AList.delete (owner, symbol_code_raw lib s) (accounts st)\<rparr>"
    using assms(1) by (auto simp: token_close_def Let_def check_def require_auth_def result_simps split: option.splits)
  then show ?thesis
    using assms(2) unfolding token_typed_def by (auto simp: delete_conv' split: if_splits)
qed

lemma token_reachable_typed: "token_reachable lib st \<Longrightarrow> token_typed lib st"
proof (induction rule: token_reachable.induct)
  case init
  then show ?case by (simp add: token_typed_def empty_token_state_def)
next
  case (step st env act st')
  from step.hyps(2) have "token_dispatch lib env act (st\<lparr>notified := [get_self env]\<rparr>) = Inr st'"
    by (simp add: token_apply_def)
  moreover have "token_typed lib (st\<lparr>notified := [get_self env]\<rparr>)"
    using step.IH by (simp add: token_typed_def)
  ultimately show ?case
    by (cases act) (auto intro: create_typed issue_typed retire_typed transfer_typed open_typed close_typed)
qed

end

section \<open>Transfers\<close>

text \<open>Arithmetic on assets fails only if the symbols differ or the result is out of range.\<close>

locale contract_arith = contract_assets +
  assumes asset_plus_total: "sym a = sym b \<Longrightarrow> asset_is_valid lib m \<Longrightarrow> sym m = sym a \<Longrightarrow> 0 \<le> amount a + amount b \<Longrightarrow>
      amount a + amount b \<le> amount m \<Longrightarrow> \<exists>c. asset_plus lib a b = Inr c"
    and asset_minus_total: "sym a = sym b \<Longrightarrow> asset_is_valid lib m \<Longrightarrow> sym m = sym a \<Longrightarrow> 0 \<le> amount a - amount b \<Longrightarrow>
      amount a - amount b \<le> amount m \<Longrightarrow> \<exists>c. asset_minus lib a b = Inr c"

interpretation node_arith: contract_arith node_assets
  by unfold_locales
     (auto simp: node_assets_def asset_add_def asset_sub_def make_asset_def is_valid_def is_amount_within_range_def max_amount_def)

definition transfer_guard :: "contract_lib \<Rightarrow> action_env \<Rightarrow> 64 word \<Rightarrow> 64 word \<Rightarrow> asset \<Rightarrow> string \<Rightarrow> token_state \<Rightarrow> bool" where
  "transfer_guard lib env a b q memo st \<longleftrightarrow>
     a \<noteq> b \<and> a \<in> set (authorized env) \<and> is_account env b \<and> asset_is_valid lib q \<and> 0 < amount q \<and> length memo \<le> 256 \<and>
     (case map_of (stats st) (symbol_code_raw lib (sym q)) of None \<Rightarrow> False | Some cs \<Rightarrow> sym q = sym (current_supply cs)) \<and>
     amount q \<le> held (accounts st) (a, symbol_code_raw lib (sym q))"

lemma held_le_holdings:
  assumes "\<And>e. e \<in> set al \<Longrightarrow> 0 \<le> amount (balance (snd e))"
  shows "0 \<le> holdings al (snd k) \<and> held al k \<le> holdings al (snd k)"
  using assms
proof (induction al)
  case (Cons e al)
  have "0 \<le> holdings al (snd k) \<and> held al k \<le> holdings al (snd k)" "0 \<le> amount (balance (snd e))"
    using Cons by simp_all
  moreover have "holdings (e # al) c = (if snd (fst e) = c then amount (balance (snd e)) else 0) + holdings al c" for c
    by (simp add: holdings_def)
  moreover have "held (e # al) k = (if fst e = k then amount (balance (snd e)) else held al k)"
    by (simp add: held_def)
  ultimately show ?case
    by simp
qed (simp add: holdings_def held_def)

lemma held_pair_le:
  assumes ok: "token_ok lib st" and diff: "a \<noteq> b"
  shows "held (accounts st) (a, c) + held (accounts st) (b, c) \<le> holdings (accounts st) c"
proof -
  let ?al = "AList.delete (a, c) (accounts st)"
  have nonneg: "0 \<le> amount (balance (snd e))" if "e \<in> set (accounts st)" for e
    using token_okD(1)[OF ok] token_okD(4)[OF ok, of "fst e" "snd e"] that by (simp add: map_of_is_SomeI)
  have "held ?al (b, c) \<le> holdings ?al c"
    using held_le_holdings[of ?al "(b, c)"] nonneg by (auto simp: AList.delete_eq)
  moreover have "held ?al (b, c) = held (accounts st) (b, c)"
    using diff by (simp add: held_def delete_conv')
  ultimately show ?thesis
    using holdings_delete[OF token_okD(1)[OF ok], of "(a, c)" c] by simp
qed

context contract_arith
begin

lemma sub_balance_total:
  assumes "map_of (accounts st) (a, symbol_code_raw lib (sym q)) = Some row" "amount q \<le> amount (balance row)" "0 < amount q"
    "sym (balance row) = sym q" "asset_is_valid lib m" "sym m = sym q" "amount (balance row) \<le> amount m"
  shows "\<exists>st'. sub_balance lib a q st = Inr st'"
proof -
  obtain b where "asset_minus lib (balance row) q = Inr b"
    using asset_minus_total[of "balance row" q m] assms by auto
  then show ?thesis
    using assms by (simp add: sub_balance_def check_def assert_res_def)
qed

lemma add_balance_total:
  assumes "\<And>row. map_of (accounts st) (a, symbol_code_raw lib (sym q)) = Some row \<Longrightarrow> sym (balance row) = sym q \<and> 0 \<le> amount (balance row)"
    "held (accounts st) (a, symbol_code_raw lib (sym q)) + amount q \<le> amount m" "0 < amount q" "asset_is_valid lib m" "sym m = sym q"
  shows "\<exists>st'. add_balance lib a q pay st = Inr st'"
proof (cases "map_of (accounts st) (a, symbol_code_raw lib (sym q))")
  case (Some row)
  then obtain b where "asset_plus lib (balance row) q = Inr b"
    using asset_plus_total[of "balance row" q m] assms by (auto simp: held_def)
  then show ?thesis
    using Some by (simp add: add_balance_def)
qed (simp add: add_balance_def)

lemma transfer_total:
  assumes ok: "token_ok lib st" and typed: "token_typed lib st" and guard: "transfer_guard lib env a b q memo st"
  shows "\<exists>st'. token_transfer lib env a b q memo st = Inr st'"
proof -
  let ?c = "symbol_code_raw lib (sym q)" and ?st1 = "require_recipient b (require_recipient a st)"
  obtain cs where cs: "map_of (stats st) ?c = Some cs" "sym q = sym (current_supply cs)"
    using guard by (auto simp: transfer_guard_def split: option.splits)
  have g: "a \<noteq> b" "0 < amount q" "amount q \<le> held (accounts st) (a, ?c)"
    using guard by (simp_all add: transfer_guard_def)
  obtain row where row: "map_of (accounts st) (a, ?c) = Some row" "amount q \<le> amount (balance row)"
    using g(2,3) by (auto simp: held_def split: option.splits)
  have sym_row: "sym (balance r) = sym q" if "map_of (accounts st) (o', ?c) = Some r" for o' r
    using typed that cs unfolding token_typed_def by fastforce
  have m: "asset_is_valid lib (max_supply cs)" "sym (max_supply cs) = sym q"
    using typed cs unfolding token_typed_def by auto
  have le: "held (accounts st) (a, ?c) + held (accounts st) (b, ?c) \<le> amount (max_supply cs)"
    using held_pair_le[OF ok g(1), of ?c] token_okD(2)[OF ok cs(1)] by linarith
  have b0: "0 \<le> held (accounts st) (b, ?c)"
    using token_okD(4)[OF ok] by (auto simp: held_def split: option.splits)
  have "amount (balance row) \<le> amount (max_supply cs)"
    using le b0 row(1) by (simp add: held_def)
  then obtain st2 where st2: "sub_balance lib a q ?st1 = Inr st2"
    using sub_balance_total[of ?st1 a q row "max_supply cs"] row g(2) sym_row[OF row(1)] m by (auto simp: require_recipient_tables)
  obtain r1 where acc2: "accounts st2 = AList.update (a, ?c) r1 (accounts st)"
    by (rule sub_balance_Inr[OF st2]) (simp add: require_recipient_tables)
  have map2: "map_of (accounts st2) (b, ?c) = map_of (accounts st) (b, ?c)"
    using g(1) by (simp add: acc2 update_conv')
  have "\<exists>st'. add_balance lib b q pay st2 = Inr st'" for pay
    by (rule add_balance_total[where m = "max_supply cs"])
       (use map2 sym_row token_okD(4)[OF ok] le g m in \<open>auto simp: held_def\<close>)
  then show ?thesis
    using guard cs st2 by (simp add: token_transfer_def transfer_guard_def Let_def check_def require_auth_def assert_res_def)
qed

end

context contract_assets
begin

lemma transfer_guarded:
  assumes "token_transfer lib env a b q memo st = Inr st'"
  shows "transfer_guard lib env a b q memo st" "stats st' = stats st"
    "held (accounts st') = (held (accounts st))
       ((a, symbol_code_raw lib (sym q)) := held (accounts st) (a, symbol_code_raw lib (sym q)) - amount q,
        (b, symbol_code_raw lib (sym q)) := held (accounts st) (b, symbol_code_raw lib (sym q)) + amount q)"
proof -
  let ?c = "symbol_code_raw lib (sym q)"
  obtain cs st2 pay where t: "map_of (stats st) ?c = Some cs" "sym q = sym (current_supply cs)"
    "a \<noteq> b" "a \<in> set (authorized env)" "is_account env b" "asset_is_valid lib q" "0 < amount q" "length memo \<le> 256"
    "sub_balance lib a q (require_recipient b (require_recipient a st)) = Inr st2" "add_balance lib b q pay st2 = Inr st'"
    using transfer_Inr[OF assms] .
  obtain r1 where r1: "amount q \<le> held (accounts st) (a, ?c)" "accounts st2 = AList.update (a, ?c) r1 (accounts st)"
    "amount (balance r1) = held (accounts st) (a, ?c) - amount q"
    by (rule sub_balance_Inr[OF t(9)]) (simp add: require_recipient_tables held_def)
  obtain r2 where r2: "accounts st' = AList.update (b, ?c) r2 (accounts st2)"
    "amount (balance r2) = held (accounts st2) (b, ?c) + amount q"
    by (rule add_balance_Inr[OF t(10)]) simp
  show "transfer_guard lib env a b q memo st"
    using t(1-8) r1(1) by (simp add: transfer_guard_def)
  show "stats st' = stats st"
    by (simp add: add_balance_typed(1)[OF t(10)] sub_balance_typed(1)[OF t(9)] require_recipient_tables)
  show "held (accounts st') = (held (accounts st))((a, ?c) := held (accounts st) (a, ?c) - amount q, (b, ?c) := held (accounts st) (b, ?c) + amount q)"
    using t(3) r1(3) r2(2) unfolding r2(1) r1(2) by (auto simp: fun_eq_iff held_update)
qed

end

section \<open>Properties\<close>

text \<open>
  C3: after any sequence of successful actions of the contract from its empty tables, by any accounts and with any
  arguments, the balances of a token add up to exactly its supply, and the supply lies between zero and the maximum fixed at its creation.
  The hypothesis on the library is that sums and differences of assets are exact when they return.
\<close>

theorem token_conservation:
  assumes "contract_assets lib" "token_reachable lib st" "map_of (stats st) c = Some cs"
  shows "holdings (accounts st) c = amount (current_supply cs) \<and> 0 \<le> amount (current_supply cs) \<and>
    amount (current_supply cs) \<le> amount (max_supply cs)"
  using token_okD(2)[OF contract_assets.token_reachable_ok[OF assms(1,2)] assms(3)] by simp_all

definition sample_env :: "64 word list \<Rightarrow> action_env" where
  "sample_env as = \<lparr>get_self = 1, authorized = as, is_account = (\<lambda>a. a < 10)\<rparr>"

definition sample_created :: token_state where
  "sample_created =
     \<lparr>stats = [(0x444344, \<lparr>current_supply = sample_asset 0, max_supply = sample_asset 1000, issuer = 2\<rparr>)],
      accounts = [], notified = [1]\<rparr>"

definition sample_issued :: token_state where
  "sample_issued =
     \<lparr>stats = [(0x444344, \<lparr>current_supply = sample_asset 600, max_supply = sample_asset 1000, issuer = 2\<rparr>)],
      accounts = [((2, 0x444344), \<lparr>balance = sample_asset 600, payer = 2\<rparr>)], notified = [1]\<rparr>"

definition sample_moved :: token_state where
  "sample_moved =
     \<lparr>stats = [(0x444344, \<lparr>current_supply = sample_asset 600, max_supply = sample_asset 1000, issuer = 2\<rparr>)],
      accounts = [((2, 0x444344), \<lparr>balance = sample_asset 350, payer = 2\<rparr>), ((3, 0x444344), \<lparr>balance = sample_asset 250, payer = 2\<rparr>)],
      notified = [1, 2, 3]\<rparr>"

lemma sample_create: "token_apply node_assets (sample_env [1]) (Create 2 (sample_asset 1000)) empty_token_state = Inr sample_created"
  by code_simp

lemma sample_issue: "token_apply node_assets (sample_env [2]) (Issue 2 (sample_asset 600) ''first'') sample_created = Inr sample_issued"
  by code_simp

lemma sample_transfer:
  "token_apply node_assets (sample_env [2]) (Transfer 2 3 (sample_asset 250) ''pay'') sample_issued = Inr sample_moved"
  by code_simp

lemma sample_transfer': "token_transfer node_assets (sample_env [2]) 2 3 (sample_asset 250) ''pay'' sample_issued = Inr sample_moved"
  by code_simp

lemma sample_moved_reachable: "token_reachable node_assets sample_issued" "token_reachable node_assets sample_moved"
  by (blast intro: token_reachable.intros sample_create sample_issue sample_transfer)+

theorem token_conservation_witness:
  "holdings (accounts sample_moved) 0x444344 = 600 \<and> map_of (stats sample_moved) 0x444344 \<noteq> None"
proof -
  have row: "map_of (stats sample_moved) 0x444344 =
      Some \<lparr>current_supply = sample_asset 600, max_supply = sample_asset 1000, issuer = 2\<rparr>"
    by (simp add: sample_moved_def)
  from token_conservation[OF node.contract_assets_axioms sample_moved_reachable(2) row]
  show ?thesis by (simp add: row sample_asset_def)
qed

text \<open>
  C14: no action of the contract lowers the balance of an account unless that account has authorized the
  transaction's action. This covers every action: creating, issuing, retiring, transferring, opening and closing.
\<close>

theorem token_spending_authorized:
  assumes "contract_assets lib" "token_apply lib env act st = Inr st'"
    "held (accounts st') (owner, c) < held (accounts st) (owner, c)"
  shows "owner \<in> set (authorized env)"
  using contract_assets.apply_held[OF assms] by simp

theorem token_spending_authorized_witness:
  "held (accounts sample_moved) (2, 0x444344) < held (accounts sample_issued) (2, 0x444344) \<and> 2 \<in> set (authorized (sample_env [2]))"
proof -
  have less: "held (accounts sample_moved) (2, 0x444344) < held (accounts sample_issued) (2, 0x444344)"
    by (simp add: held_def sample_moved_def sample_issued_def sample_asset_def)
  from token_spending_authorized[OF node.contract_assets_axioms sample_transfer less] less
  show ?thesis by simp
qed

text \<open>
  C18: in every reachable state a transfer succeeds exactly if the accounts differ, the sender has authorized it,
  the receiver exists, the quantity is a valid positive amount in the symbol of an existing token, the memo is not too long and the
  sender's balance covers the quantity: no transfer fails because the receiver's balance would overflow. If it succeeds it moves exactly
  the quantity from the sender to the receiver, and changes no other balance and no supply.
\<close>

theorem transfer_accepted_iff:
  assumes "contract_arith lib" "token_reachable lib st"
  shows "((\<exists>st'. token_transfer lib env a b q memo st = Inr st') \<longleftrightarrow> transfer_guard lib env a b q memo st) \<and>
    (\<forall>st'. token_transfer lib env a b q memo st = Inr st' \<longrightarrow> stats st' = stats st \<and>
       held (accounts st') = (held (accounts st))
         ((a, symbol_code_raw lib (sym q)) := held (accounts st) (a, symbol_code_raw lib (sym q)) - amount q,
          (b, symbol_code_raw lib (sym q)) := held (accounts st) (b, symbol_code_raw lib (sym q)) + amount q))"
proof -
  note l = contract_arith.axioms(1)[OF assms(1)]
  note total = contract_arith.transfer_total[OF assms(1) contract_assets.token_reachable_ok[OF l assms(2)]
      contract_assets.token_reachable_typed[OF l assms(2)]]
  show ?thesis
    by (intro conjI iffI allI impI total) (auto dest: contract_assets.transfer_guarded(1)[OF l] simp only: contract_assets.transfer_guarded(2,3)[OF l])
qed

theorem transfer_accepted_iff_witness:
  "(\<exists>st'. token_transfer node_assets (sample_env [2]) 2 3 (sample_asset 250) ''pay'' sample_issued = Inr st') \<and>
   held (accounts sample_moved) (3, 0x444344) = 250 \<and>
   \<not> (\<exists>st'. token_transfer node_assets (sample_env [3]) 2 3 (sample_asset 250) ''pay'' sample_issued = Inr st')"
proof -
  note t = transfer_accepted_iff[OF node_arith.contract_arith_axioms sample_moved_reachable(1)]
  have "transfer_guard node_assets (sample_env [2]) 2 3 (sample_asset 250) ''pay'' sample_issued"
    "\<not> transfer_guard node_assets (sample_env [3]) 2 3 (sample_asset 250) ''pay'' sample_issued"
    by code_simp+
  moreover have "symbol_code_raw node_assets (sym (sample_asset 250)) = 0x444344"
    by code_simp
  moreover have "held (accounts sample_issued) (3, 0x444344) = 0" "amount (sample_asset 250) = 250"
    by (simp_all add: held_def sample_issued_def sample_asset_def)
  ultimately show ?thesis
    using t sample_transfer' by (metis fun_upd_same add_0)
qed


end
