(* ===== verification/Unapplied_Queue.thy ===== *)
theory Unapplied_Queue
  imports Chain_Prelude
begin

text \<open>
  The queue of transactions that are not yet in a block (\<^verbatim>\<open>unapplied_transaction_queue.hpp\<close>). The entries are a list in the
  order of their insertion, which is also their order among equal expiries; the index by type, which the block producer
  walks, is a list of ids. A callback is a number, and the calls made are recorded as a list of events.

  An operation that may throw after it has changed the queue returns both the changed queue and the outcome.
\<close>

section \<open>State\<close>

datatype trx_enum_type = Unknown | Persisted | Forked | Aborted | Incoming_persisted | Incoming

primrec type_rank :: "trx_enum_type \<Rightarrow> nat" where
  "type_rank Unknown = 0"
| "type_rank Persisted = 1"
| "type_rank Forked = 2"
| "type_rank Aborted = 3"
| "type_rank Incoming_persisted = 4"
| "type_rank Incoming = 5"

definition is_incoming :: "trx_enum_type \<Rightarrow> bool" where
  "is_incoming t \<longleftrightarrow> t = Incoming \<or> t = Incoming_persisted"

record transaction_metadata =
  trx_id :: nat
  trx_expiration :: int
  get_estimated_size :: "64 word"

record unapplied_transaction =
  trx_meta :: transaction_metadata
  expiry :: int
  trx_type :: trx_enum_type
  next_func :: "nat option"

record unapplied_queue =
  queue :: "unapplied_transaction list"
  type_order :: "nat list"
  max_transaction_queue_size :: "64 word"
  size_in_bytes :: "64 word"
  incoming_count :: "64 word"

definition empty_queue :: unapplied_queue where
  "empty_queue = \<lparr>queue = [], type_order = [], max_transaction_queue_size = 1024 * 1024 * 1024, size_in_bytes = 0, incoming_count = 0\<rparr>"

datatype queue_event = Callback nat trx_enum_type | Next_called nat chain_exc

definition entry_id :: "unapplied_transaction \<Rightarrow> nat" where
  "entry_id u = trx_id (trx_meta u)"

definition find_trx :: "nat \<Rightarrow> unapplied_queue \<Rightarrow> unapplied_transaction option" where
  "find_trx i q = find (\<lambda>u. entry_id u = i) (queue q)"

definition get_trx :: "nat \<Rightarrow> unapplied_queue \<Rightarrow> transaction_metadata option" where
  "get_trx i q = (case find_trx i q of None \<Rightarrow> None | Some u \<Rightarrow> Some (trx_meta u))"

section \<open>The index by type\<close>

definition rank_in :: "unapplied_queue \<Rightarrow> nat \<Rightarrow> nat" where
  "rank_in q i = (case find_trx i q of None \<Rightarrow> 0 | Some u \<Rightarrow> type_rank (trx_type u))"

definition insert_upper :: "(nat \<Rightarrow> nat) \<Rightarrow> nat \<Rightarrow> nat list \<Rightarrow> nat list" where
  "insert_upper r x ys = takeWhile (\<lambda>y. r y \<le> r x) ys @ x # dropWhile (\<lambda>y. r y \<le> r x) ys"

text \<open>After a change of its type, an element stays where it is if its neighbours allow it, and moves to the end of its type otherwise.\<close>

definition relink :: "(nat \<Rightarrow> nat) \<Rightarrow> nat \<Rightarrow> nat list \<Rightarrow> nat list" where
  "relink r x ys =
     (let before = takeWhile (\<lambda>y. y \<noteq> x) ys; after = tl (dropWhile (\<lambda>y. y \<noteq> x) ys) in
      if (before = [] \<or> r (last before) \<le> r x) \<and> (after = [] \<or> r x \<le> r (hd after)) then ys
      else insert_upper r x (before @ after))"

definition queue_insert :: "unapplied_transaction \<Rightarrow> unapplied_queue \<Rightarrow> unapplied_queue \<times> bool" where
  "queue_insert u q =
     (if find_trx (entry_id u) q \<noteq> None then (q, False)
      else
        let q1 = q\<lparr>queue := queue q @ [u]\<rparr> in
        (q1\<lparr>type_order := insert_upper (rank_in q1) (entry_id u) (type_order q)\<rparr>, True))"

definition queue_modify :: "nat \<Rightarrow> (unapplied_transaction \<Rightarrow> unapplied_transaction) \<Rightarrow> unapplied_queue \<Rightarrow> unapplied_queue" where
  "queue_modify i f q =
     (let q1 = q\<lparr>queue := map (\<lambda>u. if entry_id u = i then f u else u) (queue q)\<rparr> in
      q1\<lparr>type_order := relink (rank_in q1) i (type_order q)\<rparr>)"

definition queue_erase :: "nat \<Rightarrow> unapplied_queue \<Rightarrow> unapplied_queue" where
  "queue_erase i q = q\<lparr>queue := filter (\<lambda>u. entry_id u \<noteq> i) (queue q), type_order := filter (\<lambda>j. j \<noteq> i) (type_order q)\<rparr>"

section \<open>Accounting\<close>

definition calc_size :: "64 word \<Rightarrow> transaction_metadata \<Rightarrow> 64 word" where
  "calc_size sz t = sz + get_estimated_size t"

definition added :: "64 word \<Rightarrow> unapplied_transaction \<Rightarrow> unapplied_queue \<Rightarrow> unapplied_queue \<times> unit result" where
  "added sz u q =
     (let s = calc_size sz (trx_meta u) in
      if is_incoming (trx_type u) then
        (let q1 = q\<lparr>incoming_count := incoming_count q + 1\<rparr> in
         if size_in_bytes q1 + s < max_transaction_queue_size q1
         then (q1\<lparr>size_in_bytes := size_in_bytes q1 + s\<rparr>, Inr ())
         else (q1, Inl Tx_resource_exhaustion))
      else (q\<lparr>size_in_bytes := size_in_bytes q + s\<rparr>, Inr ()))"

definition removed :: "64 word \<Rightarrow> unapplied_transaction \<Rightarrow> unapplied_queue \<Rightarrow> unapplied_queue" where
  "removed sz u q =
     (let q1 = (if is_incoming (trx_type u) then q\<lparr>incoming_count := incoming_count q - 1\<rparr> else q) in
      q1\<lparr>size_in_bytes := size_in_bytes q1 - calc_size sz (trx_meta u)\<rparr>)"

section \<open>Operations\<close>

definition clear_queue :: "unapplied_queue \<Rightarrow> unapplied_queue" where
  "clear_queue q = q\<lparr>queue := [], type_order := []\<rparr>"

definition set_max_transaction_queue_size :: "64 word \<Rightarrow> unapplied_queue \<Rightarrow> unapplied_queue" where
  "set_max_transaction_queue_size v q = q\<lparr>max_transaction_queue_size := v\<rparr>"

definition by_expiry :: "unapplied_queue \<Rightarrow> unapplied_transaction list" where
  "by_expiry q = sort_key expiry (queue q)"

definition call_next :: "unapplied_transaction \<Rightarrow> chain_exc \<Rightarrow> queue_event list" where
  "call_next u e = (case next_func u of None \<Rightarrow> [] | Some f \<Rightarrow> [Next_called f e])"

text \<open>The loop of \<open>clear_expired\<close>, over the index by expiry; \<open>now i\<close> is the time read in its \<open>i\<close>-th round.\<close>

fun clear_expired_loop :: "64 word \<Rightarrow> int \<Rightarrow> int \<Rightarrow> (nat \<Rightarrow> int) \<Rightarrow> nat \<Rightarrow> unapplied_transaction list \<Rightarrow> unapplied_queue \<Rightarrow>
    bool \<times> unapplied_queue \<times> queue_event list" where
  "clear_expired_loop sz pending_block_time deadline now i [] q = (True, q, [])"
| "clear_expired_loop sz pending_block_time deadline now i (u # us) q =
     (if pending_block_time < expiry u then (True, q, [])
      else if deadline \<le> now i then (False, q, [])
      else
        let (r, q', ev) = clear_expired_loop sz pending_block_time deadline now (Suc i) us (queue_erase (entry_id u) (removed sz u q)) in
        (r, q', Callback (entry_id u) (trx_type u) # call_next u Expired_tx_exception @ ev))"

definition clear_expired :: "64 word \<Rightarrow> int \<Rightarrow> int \<Rightarrow> (nat \<Rightarrow> int) \<Rightarrow> unapplied_queue \<Rightarrow> bool \<times> unapplied_queue \<times> queue_event list" where
  "clear_expired sz pending_block_time deadline now q =
     clear_expired_loop sz pending_block_time deadline now 0 (by_expiry q) q"

datatype receipt_trx = Packed_transaction nat | Transaction_id nat

definition clear_applied_trx :: "64 word \<Rightarrow> receipt_trx \<Rightarrow> unapplied_queue \<Rightarrow> unapplied_queue \<times> queue_event list" where
  "clear_applied_trx sz receipt q =
     (case receipt of
        Transaction_id _ \<Rightarrow> (q, [])
      | Packed_transaction i \<Rightarrow>
          (case find_trx i q of
             None \<Rightarrow> (q, [])
           | Some u \<Rightarrow>
               (if trx_type u \<noteq> Persisted \<and> trx_type u \<noteq> Incoming_persisted then queue_erase i (removed sz u q)
                else if next_func u \<noteq> None then queue_modify i (\<lambda>u. u\<lparr>next_func := None\<rparr>) q
                else q,
                call_next u Tx_duplicate)))"

fun clear_applied_loop :: "64 word \<Rightarrow> receipt_trx list \<Rightarrow> unapplied_queue \<Rightarrow> unapplied_queue \<times> queue_event list" where
  "clear_applied_loop sz [] q = (q, [])"
| "clear_applied_loop sz (r # rs) q =
     (let (q1, ev1) = clear_applied_trx sz r q; (q2, ev2) = clear_applied_loop sz rs q1 in (q2, ev1 @ ev2))"

definition clear_applied :: "64 word \<Rightarrow> receipt_trx list \<Rightarrow> unapplied_queue \<Rightarrow> unapplied_queue \<times> queue_event list" where
  "clear_applied sz receipts q = (if queue q = [] then (q, []) else clear_applied_loop sz receipts q)"

definition add_entry :: "64 word \<Rightarrow> unapplied_transaction \<Rightarrow> unapplied_queue \<Rightarrow> unapplied_queue \<times> unit result" where
  "add_entry sz u q = (let (q1, inserted) = queue_insert u q in if inserted then added sz u q1 else (q1, Inr ()))"

definition new_entry :: "transaction_metadata \<Rightarrow> trx_enum_type \<Rightarrow> nat option \<Rightarrow> unapplied_transaction" where
  "new_entry trx t next_cb = \<lparr>trx_meta = trx, expiry = trx_expiration trx, trx_type = t, next_func = next_cb\<rparr>"

text \<open>The branch is in reverse order. Entries that are not incoming are never refused.\<close>

definition add_forked :: "64 word \<Rightarrow> transaction_metadata list list \<Rightarrow> unapplied_queue \<Rightarrow> unapplied_queue" where
  "add_forked sz forked_branch q =
     fold (\<lambda>trx q. fst (add_entry sz (new_entry trx Forked None) q)) (concat (rev forked_branch)) q"

definition add_aborted :: "64 word \<Rightarrow> transaction_metadata list \<Rightarrow> unapplied_queue \<Rightarrow> unapplied_queue" where
  "add_aborted sz aborted_trxs q = fold (\<lambda>trx q. fst (add_entry sz (new_entry trx Aborted None) q)) aborted_trxs q"

definition add_persisted :: "64 word \<Rightarrow> transaction_metadata \<Rightarrow> unapplied_queue \<Rightarrow> unapplied_queue" where
  "add_persisted sz trx q =
     (case find_trx (trx_id trx) q of
        None \<Rightarrow> fst (add_entry sz (new_entry trx Persisted None) q)
      | Some u \<Rightarrow>
          if trx_type u \<noteq> Persisted then
            (let q1 = (if is_incoming (trx_type u) then q\<lparr>incoming_count := incoming_count q - 1\<rparr> else q) in
             queue_modify (trx_id trx) (\<lambda>u. u\<lparr>trx_type := Persisted\<rparr>) q1)
          else q)"

definition add_incoming :: "64 word \<Rightarrow> transaction_metadata \<Rightarrow> bool \<Rightarrow> nat option \<Rightarrow> unapplied_queue \<Rightarrow> unapplied_queue \<times> unit result" where
  "add_incoming sz trx persist_until_expired next_cb q =
     (let t = (if persist_until_expired then Incoming_persisted else Incoming) in
      case find_trx (trx_id trx) q of
        None \<Rightarrow> add_entry sz (new_entry trx t next_cb) q
      | Some u \<Rightarrow>
          (let q1 = (if \<not> is_incoming (trx_type u) then q\<lparr>incoming_count := incoming_count q + 1\<rparr> else q) in
           (queue_modify (trx_id trx) (\<lambda>u. u\<lparr>trx_type := t, next_func := next_cb\<rparr>) q1, Inr ())))"

definition erase_entry :: "64 word \<Rightarrow> nat \<Rightarrow> unapplied_queue \<Rightarrow> unapplied_queue" where
  "erase_entry sz i q = (case find_trx i q of None \<Rightarrow> q | Some u \<Rightarrow> queue_erase i (removed sz u q))"

text \<open>The ranges of the index by type that the producer walks.\<close>

definition unapplied_range :: "unapplied_queue \<Rightarrow> nat list" where
  "unapplied_range q = takeWhile (\<lambda>i. rank_in q i \<le> type_rank Aborted) (type_order q)"

definition persisted_range :: "unapplied_queue \<Rightarrow> nat list" where
  "persisted_range q =
     takeWhile (\<lambda>i. rank_in q i \<le> type_rank Persisted) (dropWhile (\<lambda>i. rank_in q i < type_rank Persisted) (type_order q))"

definition incoming_range :: "unapplied_queue \<Rightarrow> nat list" where
  "incoming_range q = dropWhile (\<lambda>i. rank_in q i < type_rank Incoming_persisted) (type_order q)"

end
