(* ===== verification/Unapplied_Properties.thy ===== *)
theory Unapplied_Properties
  imports Unapplied_Queue "HOL-Library.Multiset"
begin

text \<open>
  Properties of the queue of unapplied transactions: the indices and the counters are exact as long as no incoming transaction is
  refused, \<open>clear_expired\<close> removes exactly what has expired, and what a refused transaction does to the counters.
\<close>

section \<open>Finding entries\<close>

lemma find_trx_Some: "find_trx i q = Some u \<Longrightarrow> u \<in> set (queue q) \<and> entry_id u = i"
  by (auto simp: find_trx_def find_Some_iff)

lemma find_trx_None: "find_trx i q = None \<longleftrightarrow> i \<notin> entry_id ` set (queue q)"
  by (auto simp: find_trx_def find_None_iff)

lemma find_trx_eq:
  assumes "distinct (map entry_id (queue q))" "u \<in> set (queue q)"
  shows "find_trx (entry_id u) q = Some u"
proof -
  obtain v where "find_trx (entry_id u) q = Some v"
    using assms(2) find_trx_None[of "entry_id u" q] by fastforce
  then show ?thesis
    using find_trx_Some[of "entry_id u" q v] assms by (metis distinct_map inj_onD)
qed

lemma find_snoc: "find P (xs @ [x]) = (case find P xs of None \<Rightarrow> if P x then Some x else None | Some y \<Rightarrow> Some y)"
  by (induction xs) auto

lemma find_map_same:
  assumes "\<And>u. entry_id (f u) = entry_id u"
  shows "find (\<lambda>u. entry_id u = j) (map (\<lambda>u. if entry_id u = i then f u else u) xs) =
    map_option (\<lambda>u. if entry_id u = i then f u else u) (find (\<lambda>u. entry_id u = j) xs)"
  using assms by (induction xs) auto

lemma find_filter_other: "j \<noteq> i \<Longrightarrow> find (\<lambda>u. entry_id u = j) (filter (\<lambda>u. entry_id u \<noteq> i) xs) = find (\<lambda>u. entry_id u = j) xs"
  by (induction xs) auto

section \<open>The index by type\<close>

lemma sorted_drop_above:
  assumes "sorted (map r ys)" "y \<in> set (dropWhile (\<lambda>y. r y \<le> b) ys)"
  shows "b < (r y :: nat)"
proof -
  have "dropWhile (\<lambda>y. r y \<le> b) ys \<noteq> []"
    using assms(2) by (metis empty_iff list.set(1))
  then obtain z zs where z: "dropWhile (\<lambda>y. r y \<le> b) ys = z # zs" "b < r z"
    using hd_dropWhile[of "\<lambda>y. r y \<le> b" ys] by (cases "dropWhile (\<lambda>y. r y \<le> b) ys") auto
  have "sorted (map r (z # zs))"
    using assms(1) z(1) by (metis dropWhile_eq_drop drop_map sorted_wrt_drop)
  then show ?thesis
    using assms(2) z by fastforce
qed

lemma insert_upper_sorted:
  assumes "sorted (map r ys)"
  shows "sorted (map r (insert_upper r x ys))"
proof -
  have "sorted (map r (takeWhile (\<lambda>y. r y \<le> r x) ys))" "sorted (map r (dropWhile (\<lambda>y. r y \<le> r x) ys))"
    using assms by (metis sorted_append takeWhile_dropWhile_id map_append)+
  moreover have "r y \<le> r x" if "y \<in> set (takeWhile (\<lambda>y. r y \<le> r x) ys)" for y
    using set_takeWhileD[OF that] by simp
  moreover have "r x < r y" if "y \<in> set (dropWhile (\<lambda>y. r y \<le> r x) ys)" for y
    by (rule sorted_drop_above[OF assms that])
  ultimately show ?thesis
    unfolding insert_upper_def by (force simp: sorted_append)
qed

lemma insert_upper_perm: "mset (insert_upper r x ys) = add_mset x (mset ys)"
  by (simp add: insert_upper_def) (metis mset_append takeWhile_dropWhile_id)

lemma relink_split:
  assumes "i \<in> set ys"
  obtains before after where "ys = before @ i # after" "before = takeWhile (\<lambda>y. y \<noteq> i) ys" "after = tl (dropWhile (\<lambda>y. y \<noteq> i) ys)"
proof -
  have "dropWhile (\<lambda>y. y \<noteq> i) ys \<noteq> []" "hd (dropWhile (\<lambda>y. y \<noteq> i) ys) = i"
    using assms hd_dropWhile[of "\<lambda>y. y \<noteq> i" ys] by auto
  then show ?thesis
    using that takeWhile_dropWhile_id[of "\<lambda>y. y \<noteq> i" ys] by (metis list.collapse)
qed

lemma relink_perm: "i \<in> set ys \<Longrightarrow> mset (relink r i ys) = mset ys"
proof -
  assume i: "i \<in> set ys"
  obtain before after where split: "ys = before @ i # after" "before = takeWhile (\<lambda>y. y \<noteq> i) ys" "after = tl (dropWhile (\<lambda>y. y \<noteq> i) ys)"
    using relink_split[OF i] .
  have "mset (insert_upper r i (before @ after)) = mset ys"
    unfolding insert_upper_perm by (simp add: split(1))
  then show ?thesis
    by (simp add: relink_def Let_def flip: split(2,3))
qed

lemma relink_sorted:
  assumes "i \<in> set ys" "distinct ys" "sorted (map r ys)" "\<And>j. j \<noteq> i \<Longrightarrow> r' j = r j"
  shows "sorted (map r' (relink r' i ys))"
proof -
  obtain before after where split: "ys = before @ i # after" "before = takeWhile (\<lambda>y. y \<noteq> i) ys" "after = tl (dropWhile (\<lambda>y. y \<noteq> i) ys)"
    using relink_split[OF assms(1)] .
  have "map r' (before @ after) = map r (before @ after)"
    using assms(2) by (auto simp: split(1) intro!: assms(4))
  moreover have "sorted (map r (before @ after))"
    using assms(3) by (auto simp: split(1) sorted_append)
  ultimately have rest: "sorted (map r' (before @ after))"
    by (simp only:)
  show ?thesis
  proof (cases "(before = [] \<or> r' (last before) \<le> r' i) \<and> (after = [] \<or> r' i \<le> r' (hd after))")
    case True
    have "r' y \<le> r' i" if "y \<in> set before" for y
      using that True rest by (cases before rule: rev_cases) (auto simp: sorted_append)
    moreover have "r' i \<le> r' y" if "y \<in> set after" for y
      using that True rest by (cases after) (auto simp: sorted_append)
    ultimately have "sorted (map r' ys)"
      using rest by (auto simp: split(1) sorted_append)
    then show ?thesis
      using True by (simp add: relink_def Let_def flip: split(2,3))
  next
    case False
    then show ?thesis
      using insert_upper_sorted[OF rest, of i] by (auto simp: relink_def Let_def simp flip: split(2,3))
  qed
qed

section \<open>Invariant\<close>

definition index_ok :: "unapplied_queue \<Rightarrow> bool" where
  "index_ok q \<longleftrightarrow> distinct (map entry_id (queue q)) \<and> mset (type_order q) = mset (map entry_id (queue q)) \<and>
     sorted (map (rank_in q) (type_order q))"

definition incoming_entries :: "unapplied_queue \<Rightarrow> unapplied_transaction list" where
  "incoming_entries q = filter (\<lambda>u. is_incoming (trx_type u)) (queue q)"

definition total_size :: "64 word \<Rightarrow> unapplied_queue \<Rightarrow> 64 word" where
  "total_size sz q = (\<Sum>u\<leftarrow>queue q. calc_size sz (trx_meta u))"

definition queue_ok :: "64 word \<Rightarrow> unapplied_queue \<Rightarrow> bool" where
  "queue_ok sz q \<longleftrightarrow> index_ok q \<and> incoming_count q = of_nat (length (incoming_entries q)) \<and> size_in_bytes q = total_size sz q"

lemma index_ok_order: "index_ok q \<Longrightarrow> distinct (type_order q) \<and> set (type_order q) = entry_id ` set (queue q)"
  unfolding index_ok_def by (metis list.set_map mset_eq_imp_distinct_iff set_mset_mset)

lemma index_ok_insert:
  assumes "index_ok q" "queue_insert u q = (q', True)"
  shows "index_ok q'"
proof -
  let ?q1 = "q\<lparr>queue := queue q @ [u]\<rparr>"
  have new: "entry_id u \<notin> entry_id ` set (queue q)"
    and q': "q' = ?q1\<lparr>type_order := insert_upper (rank_in ?q1) (entry_id u) (type_order q)\<rparr>"
    using assms(2) by (auto simp: queue_insert_def Let_def find_trx_None split: if_splits)
  have "rank_in ?q1 j = rank_in q j" if "j \<in> set (type_order q)" for j
    using that index_ok_order[OF assms(1)] new by (auto simp: rank_in_def find_trx_def find_snoc split: option.splits)
  then have "map (rank_in ?q1) (type_order q) = map (rank_in q) (type_order q)"
    by simp
  then have "sorted (map (rank_in ?q1) (insert_upper (rank_in ?q1) (entry_id u) (type_order q)))"
    using assms(1) by (intro insert_upper_sorted) (simp only: index_ok_def)
  moreover have "rank_in q' = rank_in ?q1"
    by (simp add: q' rank_in_def find_trx_def fun_eq_iff)
  ultimately show ?thesis
    using assms(1) new by (auto simp: index_ok_def q' insert_upper_perm)
qed

lemma index_ok_modify:
  assumes ok: "index_ok q" and i: "i \<in> entry_id ` set (queue q)" and f: "\<And>u. entry_id (f u) = entry_id u"
  shows "index_ok (queue_modify i f q)"
proof -
  let ?q1 = "q\<lparr>queue := map (\<lambda>u. if entry_id u = i then f u else u) (queue q)\<rparr>"
  have "rank_in ?q1 j = rank_in q j" if "j \<noteq> i" for j
    using that f find_trx_Some[of j q] by (auto simp: rank_in_def find_trx_def find_map_same split: option.splits)
  then have "sorted (map (rank_in ?q1) (relink (rank_in ?q1) i (type_order q)))"
    using ok i index_ok_order[OF ok] by (intro relink_sorted[of i _ "rank_in q"]) (auto simp: index_ok_def)
  moreover have "rank_in (queue_modify i f q) = rank_in ?q1"
    by (simp add: queue_modify_def Let_def rank_in_def find_trx_def fun_eq_iff)
  moreover have "entry_id \<circ> (\<lambda>u. if entry_id u = i then f u else u) = entry_id"
    using f by (simp add: fun_eq_iff)
  ultimately show ?thesis
    using ok relink_perm[of i "type_order q"] i index_ok_order[OF ok]
    by (simp add: index_ok_def queue_modify_def Let_def)
qed

lemma index_ok_erase:
  assumes ok: "index_ok q"
  shows "index_ok (queue_erase i q)"
proof -
  have "rank_in (queue_erase i q) j = rank_in q j" if "j \<noteq> i" for j
    using that by (simp add: rank_in_def find_trx_def queue_erase_def find_filter_other)
  then have "map (rank_in (queue_erase i q)) (filter (\<lambda>j. j \<noteq> i) (type_order q)) = map (rank_in q) (filter (\<lambda>j. j \<noteq> i) (type_order q))"
    by simp
  moreover have "mset (filter (\<lambda>j. j \<noteq> i) (type_order q)) = mset (filter (\<lambda>j. j \<noteq> i) (map entry_id (queue q)))"
    using ok unfolding index_ok_def by (metis mset_filter)
  ultimately show ?thesis
    using ok sorted_filter[of "rank_in q" "type_order q" "\<lambda>j. j \<noteq> i"]
    by (simp add: index_ok_def queue_erase_def filter_map o_def distinct_map_filter del: map_eq_conv)
qed

section \<open>Counters\<close>

lemma count_as_sum: "(of_nat (length (filter P xs)) :: 64 word) = (\<Sum>x\<leftarrow>xs. if P x then 1 else 0)"
  by (induction xs) auto

lemma sum_filter_id:
  fixes g :: "unapplied_transaction \<Rightarrow> 64 word"
  assumes "distinct (map entry_id xs)" "u \<in> set xs"
  shows "(\<Sum>x\<leftarrow>filter (\<lambda>x. entry_id x \<noteq> entry_id u) xs. g x) = (\<Sum>x\<leftarrow>xs. g x) - g u"
  using assms
proof (induction xs)
  case (Cons x xs)
  have "filter (\<lambda>y. entry_id y \<noteq> entry_id u) xs = xs" if "u = x"
    using Cons.prems(1) that by (intro filter_True) (auto simp: image_iff)
  moreover have "entry_id x \<noteq> entry_id u" if "u \<in> set xs"
    using Cons.prems(1) that by auto
  ultimately show ?case
    using Cons by auto
qed simp

lemma sum_modify_id:
  fixes g :: "unapplied_transaction \<Rightarrow> 64 word"
  assumes "distinct (map entry_id xs)" "u \<in> set xs"
  shows "(\<Sum>x\<leftarrow>map (\<lambda>x. if entry_id x = entry_id u then f x else x) xs. g x) = (\<Sum>x\<leftarrow>xs. g x) - g u + g (f u)"
  using assms
proof (induction xs)
  case (Cons x xs)
  have "map (\<lambda>y. if entry_id y = entry_id u then f y else y) xs = xs" if "u = x"
    using Cons.prems(1) that by (intro map_idI) (auto simp: image_iff)
  moreover have "entry_id x \<noteq> entry_id u" if "u \<in> set xs"
    using Cons.prems(1) that by auto
  ultimately show ?case
    using Cons by (auto simp del: map_map)
qed simp

definition incoming_sum :: "unapplied_queue \<Rightarrow> 64 word" where
  "incoming_sum q = (\<Sum>u\<leftarrow>queue q. if is_incoming (trx_type u) then 1 else 0)"

lemma queue_ok_alt: "queue_ok sz q \<longleftrightarrow> index_ok q \<and> incoming_count q = incoming_sum q \<and> size_in_bytes q = total_size sz q"
  by (simp add: queue_ok_def incoming_entries_def incoming_sum_def count_as_sum)

lemma index_ok_counters [simp]:
  "index_ok (q\<lparr>incoming_count := n\<rparr>) \<longleftrightarrow> index_ok q" "index_ok (q\<lparr>size_in_bytes := s\<rparr>) \<longleftrightarrow> index_ok q"
  "index_ok (q\<lparr>max_transaction_queue_size := s\<rparr>) \<longleftrightarrow> index_ok q"
proof -
  have "rank_in (q\<lparr>incoming_count := n\<rparr>) = rank_in q" "rank_in (q\<lparr>size_in_bytes := s\<rparr>) = rank_in q"
    "rank_in (q\<lparr>max_transaction_queue_size := s\<rparr>) = rank_in q"
    by (simp_all add: rank_in_def find_trx_def fun_eq_iff)
  then show "index_ok (q\<lparr>incoming_count := n\<rparr>) \<longleftrightarrow> index_ok q" "index_ok (q\<lparr>size_in_bytes := s\<rparr>) \<longleftrightarrow> index_ok q"
    "index_ok (q\<lparr>max_transaction_queue_size := s\<rparr>) \<longleftrightarrow> index_ok q"
    by (simp_all add: index_ok_def)
qed

lemma queue_ok_erase:
  assumes ok: "queue_ok sz q" and u: "u \<in> set (queue q)"
  shows "queue_ok sz (queue_erase (entry_id u) (removed sz u q))"
proof -
  have distinct: "distinct (map entry_id (queue q))"
    using ok by (simp add: queue_ok_alt index_ok_def)
  have "index_ok (queue_erase (entry_id u) (removed sz u q))"
    using ok by (intro index_ok_erase) (simp add: queue_ok_alt removed_def Let_def)
  then show ?thesis
    using ok sum_filter_id[OF distinct u, of "\<lambda>u. if is_incoming (trx_type u) then 1 else 0"]
      sum_filter_id[OF distinct u, of "\<lambda>u. calc_size sz (trx_meta u)"]
    by (simp add: queue_ok_alt incoming_sum_def total_size_def queue_erase_def removed_def Let_def)
qed

lemma queue_ok_modify:
  assumes ok: "queue_ok sz q" and u: "find_trx i q = Some u" and f: "\<And>u. trx_meta (f u) = trx_meta u"
  shows "queue_ok sz (queue_modify i f (q\<lparr>incoming_count := incoming_count q
    - (if is_incoming (trx_type u) then 1 else 0) + (if is_incoming (trx_type (f u)) then 1 else 0)\<rparr>))" (is "queue_ok sz (queue_modify i f ?q)")
proof -
  have distinct: "distinct (map entry_id (queue q))" and mem: "u \<in> set (queue q)" "i = entry_id u"
    using ok find_trx_Some[OF u] by (simp_all add: queue_ok_alt index_ok_def)
  have "index_ok (queue_modify i f ?q)"
    using ok mem f by (intro index_ok_modify) (auto simp: queue_ok_alt entry_id_def)
  then show ?thesis
    using ok f sum_modify_id[OF distinct mem(1), of "\<lambda>u. if is_incoming (trx_type u) then 1 else 0" f]
      sum_modify_id[OF distinct mem(1), of "\<lambda>u. calc_size sz (trx_meta u)" f]
    by (simp add: queue_ok_alt incoming_sum_def total_size_def queue_modify_def Let_def mem(2) o_def)
qed

lemma queue_ok_add_entry:
  assumes ok: "queue_ok sz q" and add: "add_entry sz u q = (q', Inr ())"
  shows "queue_ok sz q'"
proof (cases "find_trx (entry_id u) q = None")
  case True
  then obtain q1 where q1: "queue_insert u q = (q1, True)" "queue q1 = queue q @ [u]"
    "incoming_count q1 = incoming_count q" "size_in_bytes q1 = size_in_bytes q"
    by (simp add: queue_insert_def Let_def)
  have "index_ok q1"
    using index_ok_insert[OF _ q1(1)] ok by (simp add: queue_ok_alt)
  moreover have "added sz u q1 = (q', Inr ())"
    using add q1(1) by (simp add: add_entry_def)
  ultimately show ?thesis
    using ok q1 by (auto simp: queue_ok_alt incoming_sum_def total_size_def added_def Let_def split: if_splits)
next
  case False
  then show ?thesis using ok add by (auto simp: add_entry_def queue_insert_def)
qed

lemma add_entry_not_incoming: "\<not> is_incoming (trx_type u) \<Longrightarrow> add_entry sz u q = (fst (add_entry sz u q), Inr ())"
  by (auto simp: add_entry_def added_def Let_def split: prod.splits)

lemma queue_ok_plain_entry: "queue_ok sz q \<Longrightarrow> \<not> is_incoming (trx_type u) \<Longrightarrow> queue_ok sz (fst (add_entry sz u q))"
  using queue_ok_add_entry[OF _ add_entry_not_incoming] .


section \<open>Operations keep the counters\<close>

lemma queue_ok_add_forked: "queue_ok sz q \<Longrightarrow> queue_ok sz (add_forked sz branch q)"
  unfolding add_forked_def
  by (rule fold_invariant[where Q = "\<lambda>_. True"]) (simp_all add: queue_ok_plain_entry new_entry_def is_incoming_def)

lemma queue_ok_add_aborted: "queue_ok sz q \<Longrightarrow> queue_ok sz (add_aborted sz trxs q)"
  unfolding add_aborted_def
  by (rule fold_invariant[where Q = "\<lambda>_. True"]) (simp_all add: queue_ok_plain_entry new_entry_def is_incoming_def)

lemma queue_ok_add_persisted:
  assumes "queue_ok sz q"
  shows "queue_ok sz (add_persisted sz trx q)"
proof (cases "find_trx (trx_id trx) q")
  case None
  then show ?thesis
    using assms by (simp add: add_persisted_def queue_ok_plain_entry new_entry_def is_incoming_def)
next
  case (Some u)
  have "queue_ok sz (queue_modify (trx_id trx) (\<lambda>u. u\<lparr>trx_type := Persisted\<rparr>)
      (q\<lparr>incoming_count := incoming_count q - (if is_incoming (trx_type u) then 1 else 0) + 0\<rparr>))"
    using queue_ok_modify[OF assms Some, of "\<lambda>u. u\<lparr>trx_type := Persisted\<rparr>"] by (simp add: is_incoming_def)
  then show ?thesis
    using Some assms by (auto simp: add_persisted_def Let_def)
qed

lemma queue_ok_add_incoming:
  assumes "queue_ok sz q" "add_incoming sz trx persist cb q = (q', Inr ())"
  shows "queue_ok sz q'"
proof (cases "find_trx (trx_id trx) q")
  case None
  then show ?thesis
    using assms queue_ok_add_entry by (auto simp: add_incoming_def Let_def)
next
  case (Some u)
  let ?f = "\<lambda>u. u\<lparr>trx_type := if persist then Incoming_persisted else Incoming, next_func := cb\<rparr>"
  have "queue_ok sz (queue_modify (trx_id trx) ?f
      (q\<lparr>incoming_count := incoming_count q - (if is_incoming (trx_type u) then 1 else 0) + 1\<rparr>))"
    using queue_ok_modify[OF assms(1) Some, of ?f] by (cases persist) (simp_all add: is_incoming_def cong: if_cong)
  then show ?thesis
    using Some assms(2) by (auto simp: add_incoming_def Let_def split: if_splits)
qed

lemma queue_ok_clear_applied_trx:
  assumes "queue_ok sz q"
  shows "queue_ok sz (fst (clear_applied_trx sz r q))"
proof (cases "\<exists>i u. r = Packed_transaction i \<and> find_trx i q = Some u")
  case True
  then obtain i u where u: "r = Packed_transaction i" "find_trx i q = Some u"
    by blast
  have "queue_ok sz (queue_erase i (removed sz u q))"
    using queue_ok_erase[OF assms] find_trx_Some[OF u(2)] by blast
  moreover have "queue_ok sz (queue_modify i (\<lambda>u. u\<lparr>next_func := None\<rparr>) q)"
    using queue_ok_modify[OF assms u(2), of "\<lambda>u. u\<lparr>next_func := None\<rparr>"] by simp
  ultimately show ?thesis
    using u assms by (simp add: clear_applied_trx_def)
next
  case False
  then show ?thesis
    using assms by (auto simp: clear_applied_trx_def split: receipt_trx.splits option.splits)
qed

lemma queue_ok_clear_applied: "queue_ok sz q \<Longrightarrow> queue_ok sz (fst (clear_applied sz rs q))"
proof -
  have "queue_ok sz q \<Longrightarrow> queue_ok sz (fst (clear_applied_loop sz rs q))" for q
    using queue_ok_clear_applied_trx by (induction rs arbitrary: q) (simp_all add: split_beta Let_def)
  then show "queue_ok sz q \<Longrightarrow> queue_ok sz (fst (clear_applied sz rs q))"
    by (simp add: clear_applied_def)
qed

definition expired_events :: "unapplied_transaction \<Rightarrow> queue_event list" where
  "expired_events u = Callback (entry_id u) (trx_type u) # call_next u Expired_tx_exception"

lemma clear_expired_loop_result:
  assumes "queue_ok sz q" "sorted (map expiry us)" "distinct (map entry_id us)" "set us \<subseteq> set (queue q)"
    "clear_expired_loop sz pbt dl now i us q = (r, q', ev)"
  shows "\<exists>n \<le> length (filter (\<lambda>u. expiry u \<le> pbt) us). let gone = take n (filter (\<lambda>u. expiry u \<le> pbt) us) in
    queue_ok sz q' \<and> queue q' = filter (\<lambda>u. u \<notin> set gone) (queue q) \<and> ev = concat (map expired_events gone) \<and>
    (r \<longleftrightarrow> n = length (filter (\<lambda>u. expiry u \<le> pbt) us)) \<and> (\<not> r \<longrightarrow> dl \<le> now (i + n))"
  using assms
proof (induction us arbitrary: i q r q' ev)
  case Nil
  then show ?case by simp
next
  case (Cons u us)
  note distinct = Cons.prems(1)[unfolded queue_ok_def index_ok_def, THEN conjunct1, THEN conjunct1]
  consider (later) "pbt < expiry u" | (stop) "expiry u \<le> pbt" "dl \<le> now i" | (next_round) "expiry u \<le> pbt" "now i < dl"
    by linarith
  then show ?case
  proof cases
    case later
    then have "filter (\<lambda>u. expiry u \<le> pbt) (u # us) = []"
      using Cons.prems(2) by (force simp: filter_empty_conv)
    moreover have "r" "q' = q" "ev = []"
      using Cons.prems(5) later by auto
    ultimately show ?thesis
      using Cons.prems(1) by simp
  next
    case stop
    then have "\<not> r" "q' = q" "ev = []"
      using Cons.prems(5) by auto
    then show ?thesis
      using stop Cons.prems(1) by (intro exI[of _ 0]) simp
  next
    case next_round
    let ?q = "queue_erase (entry_id u) (removed sz u q)"
    obtain ev' where loop: "clear_expired_loop sz pbt dl now (Suc i) us ?q = (r, q', ev')" "ev = expired_events u @ ev'"
      using Cons.prems(5) next_round by (auto simp: expired_events_def split: prod.splits)
    have u: "u \<in> set (queue q)"
      using Cons.prems(4) by simp
    have eq: "queue ?q = filter (\<lambda>v. v \<noteq> u) (queue q)"
      unfolding queue_erase_def removed_def Let_def
      using distinct u by (auto simp: distinct_map intro!: filter_cong dest: inj_onD)
    have "set us \<subseteq> set (queue ?q)"
      using Cons.prems(3,4) by (auto simp: eq)
    then obtain n where n: "n \<le> length (filter (\<lambda>u. expiry u \<le> pbt) us)" "queue_ok sz q'"
      "queue q' = filter (\<lambda>v. v \<notin> set (take n (filter (\<lambda>u. expiry u \<le> pbt) us))) (queue ?q)"
      "ev' = concat (map expired_events (take n (filter (\<lambda>u. expiry u \<le> pbt) us)))"
      "r \<longleftrightarrow> n = length (filter (\<lambda>u. expiry u \<le> pbt) us)" "\<not> r \<longrightarrow> dl \<le> now (Suc i + n)"
      using Cons.IH[OF queue_ok_erase[OF Cons.prems(1) u] _ _ _ loop(1)] Cons.prems(2,3) unfolding Let_def by auto
    then show ?thesis
      using next_round loop(2) by (intro exI[of _ "Suc n"]) (auto simp: eq intro!: filter_cong)
  qed
qed


section \<open>Reachable queues\<close>

inductive queue_reachable :: "64 word \<Rightarrow> unapplied_queue \<Rightarrow> bool" for sz where
  init: "queue_reachable sz empty_queue"
| set_max: "queue_reachable sz q \<Longrightarrow> queue_reachable sz (set_max_transaction_queue_size v q)"
| forked: "queue_reachable sz q \<Longrightarrow> queue_reachable sz (add_forked sz branch q)"
| aborted: "queue_reachable sz q \<Longrightarrow> queue_reachable sz (add_aborted sz trxs q)"
| persisted: "queue_reachable sz q \<Longrightarrow> queue_reachable sz (add_persisted sz trx q)"
| incoming: "queue_reachable sz q \<Longrightarrow> add_incoming sz trx persist cb q = (q', Inr ()) \<Longrightarrow> queue_reachable sz q'"
| expired: "queue_reachable sz q \<Longrightarrow> clear_expired sz pbt dl now q = (r, q', ev) \<Longrightarrow> queue_reachable sz q'"
| applied: "queue_reachable sz q \<Longrightarrow> clear_applied sz rs q = (q', ev) \<Longrightarrow> queue_reachable sz q'"
| erase: "queue_reachable sz q \<Longrightarrow> queue_reachable sz (erase_entry sz i q)"

lemma clear_expired_result:
  assumes "queue_ok sz q" "clear_expired sz pbt dl now q = (r, q', ev)"
  shows "\<exists>n \<le> length (filter (\<lambda>u. expiry u \<le> pbt) (by_expiry q)). let gone = take n (filter (\<lambda>u. expiry u \<le> pbt) (by_expiry q)) in
    queue_ok sz q' \<and> queue q' = filter (\<lambda>u. u \<notin> set gone) (queue q) \<and> ev = concat (map expired_events gone) \<and>
    (r \<longleftrightarrow> n = length (filter (\<lambda>u. expiry u \<le> pbt) (by_expiry q))) \<and> (\<not> r \<longrightarrow> dl \<le> now n)"
proof -
  have "mset (map entry_id (by_expiry q)) = mset (map entry_id (queue q))"
    by (simp add: by_expiry_def)
  then have "distinct (map entry_id (by_expiry q))"
    using assms(1) unfolding queue_ok_def index_ok_def by (metis mset_eq_imp_distinct_iff)
  then show ?thesis
    using clear_expired_loop_result[OF assms(1) _ _ _ assms(2)[unfolded clear_expired_def]] by (simp add: by_expiry_def)
qed

lemma queue_reachable_ok: "queue_reachable sz q \<Longrightarrow> queue_ok sz q"
proof (induction rule: queue_reachable.induct)
  case init
  then show ?case by (simp add: queue_ok_def index_ok_def empty_queue_def incoming_entries_def total_size_def)
next
  case (set_max q v)
  then show ?case by (simp add: set_max_transaction_queue_size_def queue_ok_def incoming_entries_def total_size_def)
next
  case (expired q pbt dl now r q' ev)
  then show ?case using clear_expired_result[OF expired.IH expired.hyps(2)] unfolding Let_def by blast
next
  case (applied q rs q' ev)
  then show ?case using queue_ok_clear_applied[OF applied.IH, of rs] by simp
next
  case (erase q i)
  then show ?case
    using queue_ok_erase[OF erase.IH] find_trx_Some[of i q] by (auto simp: erase_entry_def split: option.splits)
qed (auto intro: queue_ok_add_forked queue_ok_add_aborted queue_ok_add_persisted queue_ok_add_incoming)

lemma sorted_takeWhile_filter: "sorted (map r ys) \<Longrightarrow> takeWhile (\<lambda>y. r y \<le> (b :: nat)) ys = filter (\<lambda>y. r y \<le> b) ys"
  by (induction ys) (force simp: empty_filter_conv)+

lemma sorted_dropWhile_filter: "sorted (map r ys) \<Longrightarrow> dropWhile (\<lambda>y. r y < (b :: nat)) ys = filter (\<lambda>y. b \<le> r y) ys"
proof (induction ys)
  case (Cons y ys)
  then have "filter (\<lambda>y. b \<le> r y) (y # ys) = y # ys" if "b \<le> r y"
    using that by (intro filter_True) force
  then show ?case
    using Cons by auto
qed simp

lemma type_rank_incoming: "type_rank t \<le> 3 \<longleftrightarrow> \<not> is_incoming t" "4 \<le> type_rank t \<longleftrightarrow> is_incoming t"
  by (cases t; simp add: is_incoming_def)+

lemma mset_type_order:
  assumes "index_ok q"
  shows "mset (filter (\<lambda>i. P (rank_in q i)) (type_order q)) = mset (map entry_id (filter (\<lambda>u. P (type_rank (trx_type u))) (queue q)))"
proof -
  have "mset (filter (\<lambda>i. P (rank_in q i)) (type_order q)) = mset (filter (\<lambda>i. P (rank_in q i)) (map entry_id (queue q)))"
    using assms unfolding index_ok_def by (metis mset_filter)
  also have "\<dots> = mset (map entry_id (filter (\<lambda>u. P (rank_in q (entry_id u))) (queue q)))"
    by (simp add: filter_map o_def)
  also have "filter (\<lambda>u. P (rank_in q (entry_id u))) (queue q) = filter (\<lambda>u. P (type_rank (trx_type u))) (queue q)"
    using assms find_trx_eq[of q] by (intro filter_cong) (simp_all add: index_ok_def rank_in_def)
  finally show ?thesis .
qed

section \<open>Properties\<close>


definition sample_trx :: "nat \<Rightarrow> transaction_metadata" where
  "sample_trx n = \<lparr>trx_id = n, trx_expiration = 100 * int n, get_estimated_size = 50\<rparr>"

definition sample_queue :: unapplied_queue where
  "sample_queue =
     (let q1 = fst (add_incoming 10 (sample_trx 1) False (Some 7) empty_queue);
          q2 = add_aborted 10 [sample_trx 2, sample_trx 3] q1 in
      add_persisted 10 (sample_trx 3) q2)"

lemma sample_queue_reachable: "queue_reachable 10 sample_queue"
proof -
  have "add_incoming 10 (sample_trx 1) False (Some 7) empty_queue = (fst (add_incoming 10 (sample_trx 1) False (Some 7) empty_queue), Inr ())"
    by code_simp
  then show ?thesis
    unfolding sample_queue_def Let_def by (intro queue_reachable.persisted queue_reachable.aborted) (rule queue_reachable.incoming[OF queue_reachable.init])
qed


text \<open>
  C36. \<open>clear_expired\<close> removes a prefix, in the order of expiry, of the transactions whose expiry is not after the time of the pending
  block, and calls the callbacks of exactly these. It returns true exactly if none is left, and otherwise the deadline has passed.
  Nothing else leaves the queue.
\<close>

theorem clear_expired_exact:
  assumes "queue_reachable sz q" "clear_expired sz pending_block_time deadline now q = (r, q', ev)"
  shows "\<exists>gone left. filter (\<lambda>u. expiry u \<le> pending_block_time) (by_expiry q) = gone @ left \<and>
    queue q' = filter (\<lambda>u. u \<notin> set gone) (queue q) \<and> ev = concat (map expired_events gone) \<and>
    r = (left = []) \<and> (r \<or> deadline \<le> now (length gone))"
proof -
  let ?e = "filter (\<lambda>u. expiry u \<le> pending_block_time) (by_expiry q)"
  obtain n where n: "n \<le> length ?e" "queue q' = filter (\<lambda>u. u \<notin> set (take n ?e)) (queue q)"
    "ev = concat (map expired_events (take n ?e))" "r = (n = length ?e)" "r \<or> deadline \<le> now n"
    using clear_expired_result[OF queue_reachable_ok[OF assms(1)] assms(2)] unfolding Let_def by blast
  show ?thesis
    by (rule exI[of _ "take n ?e"], rule exI[of _ "drop n ?e"]) (use n in \<open>auto simp: min_absorb2\<close>)
qed

theorem clear_expired_exact_witness:
  "\<exists>q'. clear_expired 10 250 9 (\<lambda>i. int i) sample_queue = (True, q', [Callback 1 Incoming, Next_called 7 Expired_tx_exception, Callback 2 Aborted]) \<and>
    map entry_id (queue q') = [3]"
proof -
  obtain r q' ev where run: "clear_expired 10 250 9 (\<lambda>i. int i) sample_queue = (r, q', ev)"
    by (metis prod_cases3)
  have e: "filter (\<lambda>u. expiry u \<le> 250) (by_expiry sample_queue) = [new_entry (sample_trx 1) Incoming (Some 7), new_entry (sample_trx 2) Aborted None]"
    "queue sample_queue = [new_entry (sample_trx 1) Incoming (Some 7), new_entry (sample_trx 2) Aborted None, new_entry (sample_trx 3) Persisted None]"
    by code_simp+
  obtain gone left where gone: "[new_entry (sample_trx 1) Incoming (Some 7), new_entry (sample_trx 2) Aborted None] = gone @ left"
    "queue q' = filter (\<lambda>u. u \<notin> set gone) (queue sample_queue)" "ev = concat (map expired_events gone)" "r = (left = [])"
    "r \<or> 9 \<le> int (length gone)"
    using clear_expired_exact[OF sample_queue_reachable run] unfolding e(1) by blast
  have "length gone \<le> 2"
    using arg_cong[OF gone(1), of length] by simp
  then have "left = []"
    using gone(4,5) by simp
  then have "gone = [new_entry (sample_trx 1) Incoming (Some 7), new_entry (sample_trx 2) Aborted None]" "r"
    using gone(1,4) by simp_all
  then show ?thesis
    using run gone(2,3) by (simp add: e(2) new_entry_def sample_trx_def expired_events_def call_next_def entry_id_def)
qed

text \<open>
  C37. An incoming transaction that is refused because it would exceed the size limit stays in the queue, although its
  size was not added. When it is taken out later its size is subtracted all the same: the size of the then empty queue wraps
  around, and every smaller incoming transaction is refused from then on.
\<close>

theorem refused_transaction_blocks_queue:
  assumes "m \<le> calc_size sz trx" "unat (calc_size sz trx) \<le> 2 ^ 63" "calc_size sz trx2 < calc_size sz trx"
  shows "let q0 = set_max_transaction_queue_size m empty_queue; q1 = fst (add_incoming sz trx persist cb q0);
      q2 = erase_entry sz (trx_id trx) q1 in
    snd (add_incoming sz trx persist cb q0) = Inl Tx_resource_exhaustion \<and> queue q2 = [] \<and>
    snd (add_incoming sz trx2 persist2 cb2 q2) = Inl Tx_resource_exhaustion"
proof -
  define q0 where "q0 = set_max_transaction_queue_size m empty_queue"
  define q1 where "q1 = fst (add_incoming sz trx persist cb q0)"
  define q2 where "q2 = erase_entry sz (trx_id trx) q1"
  let ?t = "if persist then Incoming_persisted else Incoming"
  have inc: "is_incoming ?t" "is_incoming (if persist2 then Incoming_persisted else Incoming)"
    by (simp_all add: is_incoming_def)
  have first: "snd (add_incoming sz trx persist cb q0) = Inl Tx_resource_exhaustion" "queue q1 = [new_entry trx ?t cb]"
    "size_in_bytes q1 = 0" "max_transaction_queue_size q1 = m"
    using assms(1) inc unfolding q1_def q0_def
    by (simp_all add: add_incoming_def set_max_transaction_queue_size_def empty_queue_def find_trx_def add_entry_def
        queue_insert_def added_def new_entry_def entry_id_def Let_def not_less[symmetric])
  then have q2: "queue q2 = []" "size_in_bytes q2 = - calc_size sz trx" "max_transaction_queue_size q2 = m"
    using inc unfolding q2_def
    by (simp_all add: erase_entry_def find_trx_def new_entry_def entry_id_def queue_erase_def removed_def Let_def)
  have "\<not> calc_size sz trx2 - calc_size sz trx < m"
  proof -
    have less: "unat (calc_size sz trx2) < unat (calc_size sz trx)" "unat m \<le> unat (calc_size sz trx)"
      using assms(1,3) by (simp_all add: word_less_nat_alt word_le_nat_alt)
    then have "unat (calc_size sz trx2 - calc_size sz trx) = 2 ^ 64 - unat (calc_size sz trx) + unat (calc_size sz trx2)"
      using assms(2) unat_sub_if_size[of "calc_size sz trx2" "calc_size sz trx"] by (simp add: word_size)
    then show ?thesis
      using less assms(2) by (simp add: word_less_nat_alt)
  qed
  then have "snd (add_incoming sz trx2 persist2 cb2 q2) = Inl Tx_resource_exhaustion"
    using q2 inc by (simp add: add_incoming_def find_trx_def add_entry_def queue_insert_def added_def new_entry_def entry_id_def Let_def)
  then show ?thesis
    using first(1) q2(1) unfolding Let_def q2_def q1_def q0_def by blast
qed

theorem refused_transaction_blocks_queue_witness:
  "snd (add_incoming 10 (sample_trx 2) False None
     (erase_entry 10 1 (fst (add_incoming 10 \<lparr>trx_id = 1, trx_expiration = 5, get_estimated_size = 1000\<rparr> False None
       (set_max_transaction_queue_size 500 empty_queue))))) = Inl Tx_resource_exhaustion \<and>
   calc_size 10 (sample_trx 2) < 500"
proof -
  let ?trx = "\<lparr>trx_id = 1, trx_expiration = 5, get_estimated_size = 1000\<rparr>"
  have "(500 :: 64 word) \<le> calc_size 10 ?trx" "unat (calc_size 10 ?trx) \<le> 2 ^ 63" "calc_size 10 (sample_trx 2) < calc_size 10 ?trx"
    "calc_size 10 (sample_trx 2) < 500"
    by (simp_all add: calc_size_def sample_trx_def)
  then show ?thesis
    using refused_transaction_blocks_queue[of 500 10 ?trx "sample_trx 2" False None False None] by (simp add: Let_def)
qed


end
