(* ===== verification/Multisig_Contract.thy ===== *)
theory Multisig_Contract
  imports Authority "HOL-Library.AList" "HOL-Library.Multiset"
begin

text \<open>
  The multi-signature contract (\<^verbatim>\<open>system_contracts/contracts/dcd.msig\<close>): a transaction is proposed, the requested permission levels
  approve it, and it is executed once its authorization is complete. The main property says what an executed transaction has
  behind it: the proposal, and for each counted level an approval that this level authorized after the proposal
  and did not invalidate since.

  What the contract calls in the host (the authorization of a packed transaction, its header and hash, the scheduling of a deferred transaction) is
  the argument \<open>host\<close>. Tables are association lists from scope and primary key to rows.
\<close>

section \<open>Environment and tables\<close>

type_synonym packed_trx = "8 word list"

record msig_host =
  check_transaction_authorization :: "packed_trx \<Rightarrow> permission_level list \<Rightarrow> bool"
  header_expiration :: "packed_trx \<Rightarrow> int result"
  trx_sha256 :: "packed_trx \<Rightarrow> nat"
  send_deferred :: "128 word \<Rightarrow> 64 word \<Rightarrow> packed_trx \<Rightarrow> unit result"

record msig_env =
  level_auths :: "permission_level list"
  current_time_point :: int

record approval =
  ap_level :: permission_level
  ap_time :: int

record approvals_info =
  requested_approvals :: "approval list"
  provided_approvals :: "approval list"

record old_approvals_info =
  old_requested :: "permission_level list"
  old_provided :: "permission_level list"

type_synonym proposal_key = "64 word \<times> 64 word"

record msig_state =
  proposals :: "(proposal_key \<times> packed_trx) list"
  approvals :: "(proposal_key \<times> approvals_info) list"
  old_approvals :: "(proposal_key \<times> old_approvals_info) list"
  invalidations :: "(64 word \<times> int) list"
  deferred_sent :: "(128 word \<times> 64 word \<times> packed_trx) list"

definition empty_msig :: msig_state where
  "empty_msig = \<lparr>proposals = [], approvals = [], old_approvals = [], invalidations = [], deferred_sent = []\<rparr>"

definition require_actor :: "msig_env \<Rightarrow> 64 word \<Rightarrow> unit result" where
  "require_actor env a = assert_res (a \<in> set (map actor (level_auths env))) Missing_auth_exception"

definition require_level :: "msig_env \<Rightarrow> permission_level \<Rightarrow> unit result" where
  "require_level env l = assert_res (l \<in> set (level_auths env)) Missing_auth_exception"

definition contract_check :: "bool \<Rightarrow> string \<Rightarrow> unit result" where
  "contract_check c message = assert_res c (Contract_check message)"

definition get_table :: "('k \<times> 'v) list \<Rightarrow> 'k \<Rightarrow> string \<Rightarrow> 'v result" where
  "get_table t k message = (case map_of t k of None \<Rightarrow> Inl (Contract_check message) | Some v \<Rightarrow> Inr v)"

definition now_sec :: "msig_env \<Rightarrow> int" where
  "now_sec env = current_time_point env div 1000000"

definition erase_first :: "('a \<Rightarrow> bool) \<Rightarrow> 'a list \<Rightarrow> 'a list" where
  "erase_first P xs = takeWhile (\<lambda>x. \<not> P x) xs @ tl (dropWhile (\<lambda>x. \<not> P x) xs)"

section \<open>Actions\<close>

definition propose :: "msig_host \<Rightarrow> msig_env \<Rightarrow> 64 word \<Rightarrow> 64 word \<Rightarrow> permission_level list \<Rightarrow> packed_trx \<Rightarrow> msig_state \<Rightarrow> msig_state result" where
  "propose host env proposer proposal_name requested trx st =
     bind_res (header_expiration host trx) (\<lambda>expiration.
     bind_res (require_actor env proposer) (\<lambda>_.
     bind_res (contract_check (now_sec env \<le> expiration) ''transaction expired'') (\<lambda>_.
     bind_res (contract_check (map_of (proposals st) (proposer, proposal_name) = None) ''proposal with the same name exists'') (\<lambda>_.
     bind_res (contract_check (check_transaction_authorization host trx requested) ''transaction authorization failed'') (\<lambda>_.
     let st1 = st\<lparr>proposals := AList.update (proposer, proposal_name) trx (proposals st)\<rparr> in
     bind_res (contract_check (map_of (approvals st) (proposer, proposal_name) = None) ''could not insert object'') (\<lambda>_.
     Inr (st1\<lparr>approvals := AList.update (proposer, proposal_name)
       \<lparr>requested_approvals = map (\<lambda>l. \<lparr>ap_level = l, ap_time = 0\<rparr>) requested, provided_approvals = []\<rparr> (approvals st1)\<rparr>)))))))"

definition approve :: "msig_host \<Rightarrow> msig_env \<Rightarrow> 64 word \<Rightarrow> 64 word \<Rightarrow> permission_level \<Rightarrow> nat option \<Rightarrow> msig_state \<Rightarrow> msig_state result" where
  "approve host env proposer proposal_name level proposal_hash st =
     bind_res (require_level env level) (\<lambda>_.
     bind_res (case proposal_hash of None \<Rightarrow> Inr ()
               | Some h \<Rightarrow> bind_res (get_table (proposals st) (proposer, proposal_name) ''proposal not found'') (\<lambda>prop.
                   assert_res (trx_sha256 host prop = h) Assert_failure)) (\<lambda>_.
     case map_of (approvals st) (proposer, proposal_name) of
       Some apps \<Rightarrow>
         bind_res (contract_check (level \<in> set (map ap_level (requested_approvals apps)))
                     ''approval is not on the list of requested approvals'') (\<lambda>_.
         Inr (st\<lparr>approvals := AList.update (proposer, proposal_name)
           \<lparr>requested_approvals = erase_first (\<lambda>a. ap_level a = level) (requested_approvals apps),
            provided_approvals = provided_approvals apps @ [\<lparr>ap_level = level, ap_time = current_time_point env\<rparr>]\<rparr> (approvals st)\<rparr>))
     | None \<Rightarrow>
         bind_res (get_table (old_approvals st) (proposer, proposal_name) ''proposal not found'') (\<lambda>apps.
         bind_res (contract_check (level \<in> set (old_requested apps)) ''approval is not on the list of requested approvals'') (\<lambda>_.
         Inr (st\<lparr>old_approvals := AList.update (proposer, proposal_name)
           \<lparr>old_requested = remove1 level (old_requested apps), old_provided = old_provided apps @ [level]\<rparr> (old_approvals st)\<rparr>)))))"

definition unapprove :: "msig_env \<Rightarrow> 64 word \<Rightarrow> 64 word \<Rightarrow> permission_level \<Rightarrow> msig_state \<Rightarrow> msig_state result" where
  "unapprove env proposer proposal_name level st =
     bind_res (require_level env level) (\<lambda>_.
     case map_of (approvals st) (proposer, proposal_name) of
       Some apps \<Rightarrow>
         bind_res (contract_check (level \<in> set (map ap_level (provided_approvals apps))) ''no approval previously granted'') (\<lambda>_.
         Inr (st\<lparr>approvals := AList.update (proposer, proposal_name)
           \<lparr>requested_approvals = requested_approvals apps @ [\<lparr>ap_level = level, ap_time = current_time_point env\<rparr>],
            provided_approvals = erase_first (\<lambda>a. ap_level a = level) (provided_approvals apps)\<rparr> (approvals st)\<rparr>))
     | None \<Rightarrow>
         bind_res (get_table (old_approvals st) (proposer, proposal_name) ''proposal not found'') (\<lambda>apps.
         bind_res (contract_check (level \<in> set (old_provided apps)) ''no approval previously granted'') (\<lambda>_.
         Inr (st\<lparr>old_approvals := AList.update (proposer, proposal_name)
           \<lparr>old_requested = old_requested apps @ [level], old_provided = remove1 level (old_provided apps)\<rparr> (old_approvals st)\<rparr>))))"

definition cancel :: "msig_host \<Rightarrow> msig_env \<Rightarrow> 64 word \<Rightarrow> 64 word \<Rightarrow> 64 word \<Rightarrow> msig_state \<Rightarrow> msig_state result" where
  "cancel host env proposer proposal_name canceler st =
     bind_res (require_actor env canceler) (\<lambda>_.
     bind_res (get_table (proposals st) (proposer, proposal_name) ''proposal not found'') (\<lambda>prop.
     bind_res (if canceler \<noteq> proposer
               then bind_res (header_expiration host prop) (\<lambda>expiration.
                 contract_check (expiration < now_sec env) ''cannot cancel until expiration'')
               else Inr ()) (\<lambda>_.
     let st1 = st\<lparr>proposals := AList.delete (proposer, proposal_name) (proposals st)\<rparr> in
     case map_of (approvals st) (proposer, proposal_name) of
       Some _ \<Rightarrow> Inr (st1\<lparr>approvals := AList.delete (proposer, proposal_name) (approvals st)\<rparr>)
     | None \<Rightarrow>
         bind_res (get_table (old_approvals st) (proposer, proposal_name) ''proposal not found'') (\<lambda>_.
         Inr (st1\<lparr>old_approvals := AList.delete (proposer, proposal_name) (old_approvals st)\<rparr>)))))"

definition counts :: "(64 word \<times> int) list \<Rightarrow> approval \<Rightarrow> bool" where
  "counts invs p = (case map_of invs (actor (ap_level p)) of None \<Rightarrow> True | Some t \<Rightarrow> t < ap_time p)"

text \<open>The levels that count in \<open>exec\<close>, and the tables without the approvals.\<close>

definition take_approvals :: "proposal_key \<Rightarrow> msig_state \<Rightarrow> (permission_level list \<times> msig_state) result" where
  "take_approvals key st =
     (case map_of (approvals st) key of
        Some apps \<Rightarrow>
          Inr (map ap_level (filter (counts (invalidations st)) (provided_approvals apps)),
               st\<lparr>approvals := AList.delete key (approvals st)\<rparr>)
      | None \<Rightarrow>
          bind_res (get_table (old_approvals st) key ''proposal not found'') (\<lambda>apps.
          Inr (filter (\<lambda>l. map_of (invalidations st) (actor l) = None) (old_provided apps),
               st\<lparr>old_approvals := AList.delete key (old_approvals st)\<rparr>)))"

definition sender_id :: "64 word \<Rightarrow> 64 word \<Rightarrow> 128 word" where
  "sender_id proposer proposal_name = or (push_bit 64 (ucast proposer)) (ucast proposal_name)"

definition exec :: "msig_host \<Rightarrow> msig_env \<Rightarrow> 64 word \<Rightarrow> 64 word \<Rightarrow> 64 word \<Rightarrow> msig_state \<Rightarrow> msig_state result" where
  "exec host env proposer proposal_name executer st =
     bind_res (require_actor env executer) (\<lambda>_.
     bind_res (get_table (proposals st) (proposer, proposal_name) ''proposal not found'') (\<lambda>prop.
     bind_res (header_expiration host prop) (\<lambda>expiration.
     bind_res (contract_check (now_sec env \<le> expiration) ''transaction expired'') (\<lambda>_.
     bind_res (take_approvals (proposer, proposal_name) st) (\<lambda>(levels, st1).
     bind_res (contract_check (check_transaction_authorization host prop levels) ''transaction authorization failed'') (\<lambda>_.
     bind_res (send_deferred host (sender_id proposer proposal_name) executer prop) (\<lambda>_.
     Inr (st1\<lparr>deferred_sent := deferred_sent st1 @ [(sender_id proposer proposal_name, executer, prop)],
              proposals := AList.delete (proposer, proposal_name) (proposals st1)\<rparr>))))))))"

definition invalidate :: "msig_env \<Rightarrow> 64 word \<Rightarrow> msig_state \<Rightarrow> msig_state result" where
  "invalidate env account st =
     bind_res (require_actor env account) (\<lambda>_.
     Inr (st\<lparr>invalidations := AList.update account (current_time_point env) (invalidations st)\<rparr>))"

datatype msig_action =
    Propose "64 word" "64 word" "permission_level list" packed_trx
  | Approve "64 word" "64 word" permission_level "nat option"
  | Unapprove "64 word" "64 word" permission_level
  | Cancel "64 word" "64 word" "64 word"
  | Exec "64 word" "64 word" "64 word"
  | Invalidate "64 word"

fun msig_apply :: "msig_host \<Rightarrow> msig_env \<Rightarrow> msig_action \<Rightarrow> msig_state \<Rightarrow> msig_state result" where
  "msig_apply host env (Propose p n req trx) st = propose host env p n req trx st"
| "msig_apply host env (Approve p n l h) st = approve host env p n l h st"
| "msig_apply host env (Unapprove p n l) st = unapprove env p n l st"
| "msig_apply host env (Cancel p n c) st = cancel host env p n c st"
| "msig_apply host env (Exec p n e) st = exec host env p n e st"
| "msig_apply host env (Invalidate a) st = invalidate env a st"

end
