(* ===== verification/Multisig_Properties.thy ===== *)
theory Multisig_Properties
  imports Multisig_Contract
begin

text \<open>
  What an executed multi-signature proposal has behind it, over all histories of successful actions whose times do not decrease.
\<close>

section \<open>Histories\<close>

type_synonym msig_history = "(msig_env \<times> msig_action) list"

inductive msig_run :: "msig_host \<Rightarrow> msig_history \<Rightarrow> msig_state \<Rightarrow> bool" for host where
  init: "msig_run host [] empty_msig"
| step: "msig_run host h st \<Longrightarrow> list_all (\<lambda>e. current_time_point (fst e) \<le> current_time_point env) h \<Longrightarrow>
    msig_apply host env act st = Inr st' \<Longrightarrow> msig_run host (h @ [(env, act)]) st'"

text \<open>An approval of level \<open>l\<close> at time \<open>t\<close> in the history since the proposal.\<close>

definition approved_in :: "proposal_key \<Rightarrow> approval \<Rightarrow> msig_history \<Rightarrow> bool" where
  "approved_in key a h \<longleftrightarrow> (\<exists>h3 env ph h4. h = h3 @ (env, Approve (fst key) (snd key) (ap_level a) ph) # h4 \<and>
     ap_level a \<in> set (level_auths env) \<and> current_time_point env = ap_time a)"

definition proposal_backed :: "msig_host \<Rightarrow> proposal_key \<Rightarrow> packed_trx \<Rightarrow> approvals_info \<Rightarrow> msig_history \<Rightarrow> bool" where
  "proposal_backed host key trx apps h \<longleftrightarrow> (\<exists>h1 env req h2. h = h1 @ (env, Propose (fst key) (snd key) req trx) # h2 \<and>
     mset (map ap_level (requested_approvals apps)) + mset (map ap_level (provided_approvals apps)) = mset req \<and>
     (\<forall>a \<in> set (provided_approvals apps). approved_in key a h2))"

definition msig_ok :: "msig_host \<Rightarrow> msig_history \<Rightarrow> msig_state \<Rightarrow> bool" where
  "msig_ok host h st \<longleftrightarrow> old_approvals st = [] \<and>
     (\<forall>key. case (map_of (proposals st) key, map_of (approvals st) key) of
        (None, None) \<Rightarrow> True | (Some trx, Some apps) \<Rightarrow> proposal_backed host key trx apps h | _ \<Rightarrow> False) \<and>
     (\<forall>acc t. map_of (invalidations st) acc = Some t \<longrightarrow> (\<exists>e \<in> set h. t = current_time_point (fst e))) \<and>
     (\<forall>e \<in> set h. \<forall>acc. snd e = Invalidate acc \<longrightarrow> (\<exists>t. map_of (invalidations st) acc = Some t \<and> current_time_point (fst e) \<le> t))"

lemma approved_in_snoc: "approved_in key a h \<Longrightarrow> approved_in key a (h @ [x])"
  unfolding approved_in_def by (metis append.assoc append_Cons)

lemma proposal_backed_snoc:
  assumes "proposal_backed host key trx apps h"
  shows "proposal_backed host key trx apps (h @ [x])"
proof -
  obtain h1 env req h2 where b: "h = h1 @ (env, Propose (fst key) (snd key) req trx) # h2"
    "mset (map ap_level (requested_approvals apps)) + mset (map ap_level (provided_approvals apps)) = mset req"
    "\<forall>a \<in> set (provided_approvals apps). approved_in key a h2"
    using assms unfolding proposal_backed_def by blast
  show ?thesis
    unfolding proposal_backed_def
    by (intro exI[of _ h1] exI[of _ env] exI[of _ req] exI[of _ "h2 @ [x]"]) (use b approved_in_snoc in auto)
qed

lemma mset_erase_first: "\<exists>x \<in> set xs. P x \<Longrightarrow> \<exists>x \<in> set xs. P x \<and> mset xs = add_mset x (mset (erase_first P xs))"
proof (induction xs)
  case (Cons y ys)
  show ?case
  proof (cases "P y")
    case True
    then show ?thesis by (simp add: erase_first_def)
  next
    case False
    then show ?thesis using Cons by (auto simp: erase_first_def)
  qed
qed simp

lemma erase_first_level:
  assumes "l \<in> set (map ap_level xs)"
  shows "mset (map ap_level xs) = add_mset l (mset (map ap_level (erase_first (\<lambda>a. ap_level a = l) xs)))"
    "set (erase_first (\<lambda>a. ap_level a = l) xs) \<subseteq> set xs"
proof -
  obtain x where "x \<in> set xs" "ap_level x = l" and m: "mset xs = add_mset x (mset (erase_first (\<lambda>a. ap_level a = l) xs))"
    using mset_erase_first[of xs "\<lambda>a. ap_level a = l"] assms by auto
  then show "mset (map ap_level xs) = add_mset l (mset (map ap_level (erase_first (\<lambda>a. ap_level a = l) xs)))"
    by simp
  show "set (erase_first (\<lambda>a. ap_level a = l) xs) \<subseteq> set xs"
    using arg_cong[OF m, of set_mset] by auto
qed

section \<open>Every action keeps the invariant\<close>

definition key_ok :: "msig_host \<Rightarrow> msig_history \<Rightarrow> msig_state \<Rightarrow> proposal_key \<Rightarrow> bool" where
  "key_ok host h st key =
     (case (map_of (proposals st) key, map_of (approvals st) key) of
        (None, None) \<Rightarrow> True | (Some trx, Some apps) \<Rightarrow> proposal_backed host key trx apps h | _ \<Rightarrow> False)"

lemma msig_ok_step:
  assumes ok: "msig_ok host h st" and old: "old_approvals st' = []"
    and invs: "\<And>acc t. map_of (invalidations st) acc = Some t \<Longrightarrow> \<exists>t'. map_of (invalidations st') acc = Some t' \<and> t \<le> t'"
    and new_inv: "\<And>acc. act = Invalidate acc \<Longrightarrow> \<exists>t'. map_of (invalidations st') acc = Some t' \<and> current_time_point env \<le> t'"
    and origin: "\<And>acc t. map_of (invalidations st') acc = Some t \<Longrightarrow> map_of (invalidations st) acc = Some t \<or> t = current_time_point env"
    and keys: "\<And>key. key_ok host (h @ [(env, act)]) st' key \<or>
      map_of (proposals st') key = map_of (proposals st) key \<and> map_of (approvals st') key = map_of (approvals st) key"
  shows "msig_ok host (h @ [(env, act)]) st'"
proof -
  have "key_ok host (h @ [(env, act)]) st' key" for key
  proof -
    have "key_ok host h st key"
      using ok unfolding msig_ok_def key_ok_def by blast
    then show ?thesis
      using keys[of key] unfolding key_ok_def by (auto split: option.splits intro: proposal_backed_snoc)
  qed
  moreover have "\<exists>t. map_of (invalidations st') acc = Some t \<and> current_time_point (fst e) \<le> t"
    if e: "e \<in> set (h @ [(env, act)])" "snd e = Invalidate acc" for e acc
  proof (cases "e \<in> set h")
    case True
    then obtain t where "map_of (invalidations st) acc = Some t" "current_time_point (fst e) \<le> t"
      using ok e(2) unfolding msig_ok_def by blast
    then show ?thesis using invs by fastforce
  next
    case False
    then show ?thesis using e new_inv by auto
  qed
  moreover have "\<exists>e \<in> set (h @ [(env, act)]). t = current_time_point (fst e)" if "map_of (invalidations st') acc = Some t" for acc t
    using origin[OF that] ok unfolding msig_ok_def by auto
  ultimately show ?thesis
    using old unfolding msig_ok_def key_ok_def by blast
qed

lemma msig_ok_key: "msig_ok host h st \<Longrightarrow> key_ok host h st key"
  unfolding msig_ok_def key_ok_def by blast

lemma get_table_Inr: "get_table t k m = Inr v \<longleftrightarrow> map_of t k = Some v"
  by (auto simp: get_table_def split: option.splits)

lemma propose_ok:
  assumes ok: "msig_ok host h st" and run: "propose host env p n req trx st = Inr st'"
  shows "msig_ok host (h @ [(env, Propose p n req trx)]) st'"
proof -
  let ?apps = "\<lparr>requested_approvals = map (\<lambda>l. \<lparr>ap_level = l, ap_time = 0\<rparr>) req, provided_approvals = []\<rparr>"
  have st': "st' = st\<lparr>proposals := AList.update (p, n) trx (proposals st), approvals := AList.update (p, n) ?apps (approvals st)\<rparr>"
    using run by (auto simp: propose_def Let_def result_simps)
  have "proposal_backed host (p, n) trx ?apps (h @ [(env, Propose p n req trx)])"
    unfolding proposal_backed_def by (intro exI[of _ h] exI[of _ env] exI[of _ req] exI[of _ "[]"]) (simp add: o_def)
  then have "key_ok host (h @ [(env, Propose p n req trx)]) st' (p, n)"
    by (simp add: key_ok_def st' update_conv')
  then show ?thesis
    using ok by (intro msig_ok_step[OF ok]) (auto simp: st' update_conv' msig_ok_def)
qed

lemma approve_ok:
  assumes ok: "msig_ok host h st" and run: "approve host env p n l ph st = Inr st'"
  shows "msig_ok host (h @ [(env, Approve p n l ph)]) st'"
proof -
  let ?a = "\<lparr>ap_level = l, ap_time = current_time_point env\<rparr>"
  obtain apps where apps: "map_of (approvals st) (p, n) = Some apps"
    using run ok by (cases "map_of (approvals st) (p, n)") (auto simp: approve_def result_simps get_table_Inr msig_ok_def)
  let ?apps = "\<lparr>requested_approvals = erase_first (\<lambda>a. ap_level a = l) (requested_approvals apps),
    provided_approvals = provided_approvals apps @ [?a]\<rparr>"
  have l: "l \<in> set (level_auths env)" "l \<in> set (map ap_level (requested_approvals apps))"
    and st': "st' = st\<lparr>approvals := AList.update (p, n) ?apps (approvals st)\<rparr>"
    using run by (auto simp: approve_def apps require_level_def contract_check_def result_simps)
  obtain trx where trx: "map_of (proposals st) (p, n) = Some trx" "proposal_backed host (p, n) trx apps h"
    using msig_ok_key[OF ok, of "(p, n)"] apps by (auto simp: key_ok_def split: option.splits)
  obtain h1 e req h2 where b: "h = h1 @ (e, Propose p n req trx) # h2"
    "mset (map ap_level (requested_approvals apps)) + mset (map ap_level (provided_approvals apps)) = mset req"
    "\<forall>a \<in> set (provided_approvals apps). approved_in (p, n) a h2"
    using trx(2) unfolding proposal_backed_def by auto
  let ?x = "(env, Approve p n l ph)"
  have "approved_in (p, n) ?a (h2 @ [?x])"
    unfolding approved_in_def by (intro exI[of _ h2] exI[of _ env] exI[of _ ph] exI[of _ "[]"]) (simp add: l)
  then have "proposal_backed host (p, n) trx ?apps (h @ [?x])"
    unfolding proposal_backed_def
    by (intro exI[of _ h1] exI[of _ e] exI[of _ req] exI[of _ "h2 @ [?x]"])
       (use b approved_in_snoc erase_first_level(1)[OF l(2)] in auto)
  then have "key_ok host (h @ [?x]) st' (p, n)"
    by (simp add: key_ok_def st' update_conv' trx(1))
  then show ?thesis
    using ok by (intro msig_ok_step[OF ok]) (auto simp: st' update_conv' msig_ok_def)
qed

lemma unapprove_ok:
  assumes ok: "msig_ok host h st" and run: "unapprove env p n l st = Inr st'"
  shows "msig_ok host (h @ [(env, Unapprove p n l)]) st'"
proof -
  obtain apps where apps: "map_of (approvals st) (p, n) = Some apps"
    using run ok by (cases "map_of (approvals st) (p, n)") (auto simp: unapprove_def result_simps get_table_Inr msig_ok_def)
  let ?apps = "\<lparr>requested_approvals = requested_approvals apps @ [\<lparr>ap_level = l, ap_time = current_time_point env\<rparr>],
    provided_approvals = erase_first (\<lambda>a. ap_level a = l) (provided_approvals apps)\<rparr>"
  have l: "l \<in> set (map ap_level (provided_approvals apps))"
    and st': "st' = st\<lparr>approvals := AList.update (p, n) ?apps (approvals st)\<rparr>"
    using run by (auto simp: unapprove_def apps require_level_def contract_check_def result_simps)
  obtain trx where trx: "map_of (proposals st) (p, n) = Some trx" "proposal_backed host (p, n) trx apps h"
    using msig_ok_key[OF ok, of "(p, n)"] apps by (auto simp: key_ok_def split: option.splits)
  obtain h1 e req h2 where b: "h = h1 @ (e, Propose p n req trx) # h2"
    "mset (map ap_level (requested_approvals apps)) + mset (map ap_level (provided_approvals apps)) = mset req"
    "\<forall>a \<in> set (provided_approvals apps). approved_in (p, n) a h2"
    using trx(2) unfolding proposal_backed_def by auto
  let ?x = "(env, Unapprove p n l)"
  have "proposal_backed host (p, n) trx ?apps (h @ [?x])"
    unfolding proposal_backed_def
    by (intro exI[of _ h1] exI[of _ e] exI[of _ req] exI[of _ "h2 @ [?x]"])
       (use b approved_in_snoc erase_first_level[OF l] in auto)
  then have "key_ok host (h @ [?x]) st' (p, n)"
    by (simp add: key_ok_def st' update_conv' trx(1))
  then show ?thesis
    using ok by (intro msig_ok_step[OF ok]) (auto simp: st' update_conv' msig_ok_def)
qed


lemma cancel_ok:
  assumes ok: "msig_ok host h st" and run: "cancel host env p n c st = Inr st'"
  shows "msig_ok host (h @ [(env, Cancel p n c)]) st'"
proof -
  obtain trx where "map_of (proposals st) (p, n) = Some trx"
    using run by (auto simp: cancel_def result_simps get_table_Inr)
  then obtain apps where apps: "map_of (approvals st) (p, n) = Some apps"
    using msig_ok_key[OF ok, of "(p, n)"] by (auto simp: key_ok_def split: option.splits)
  have st': "st' = st\<lparr>proposals := AList.delete (p, n) (proposals st), approvals := AList.delete (p, n) (approvals st)\<rparr>"
    using run by (auto simp: cancel_def apps Let_def result_simps)
  have "key_ok host (h @ [(env, Cancel p n c)]) st' (p, n)"
    by (simp add: key_ok_def st' delete_conv')
  then show ?thesis
    using ok by (intro msig_ok_step[OF ok]) (auto simp: st' delete_conv' msig_ok_def)
qed

lemma exec_Inr:
  assumes ok: "msig_ok host h st" and run: "exec host env p n e st = Inr st'"
  obtains trx apps expiration where "map_of (proposals st) (p, n) = Some trx" "map_of (approvals st) (p, n) = Some apps"
    "proposal_backed host (p, n) trx apps h" "header_expiration host trx = Inr expiration" "now_sec env \<le> expiration"
    "check_transaction_authorization host trx (map ap_level (filter (counts (invalidations st)) (provided_approvals apps)))"
    "st' = st\<lparr>approvals := AList.delete (p, n) (approvals st), proposals := AList.delete (p, n) (proposals st),
       deferred_sent := deferred_sent st @ [(sender_id p n, e, trx)]\<rparr>"
proof -
  obtain trx where trx: "map_of (proposals st) (p, n) = Some trx"
    using run by (auto simp: exec_def result_simps get_table_Inr)
  then obtain apps where apps: "map_of (approvals st) (p, n) = Some apps" "proposal_backed host (p, n) trx apps h"
    using msig_ok_key[OF ok, of "(p, n)"] by (auto simp: key_ok_def split: option.splits)
  show ?thesis
    using run that[OF trx apps] by (auto simp: exec_def trx take_approvals_def apps(1) get_table_def contract_check_def result_simps)
qed

lemma exec_ok:
  assumes ok: "msig_ok host h st" and run: "exec host env p n e st = Inr st'"
  shows "msig_ok host (h @ [(env, Exec p n e)]) st'"
proof -
  obtain trx where st': "st' = st\<lparr>approvals := AList.delete (p, n) (approvals st), proposals := AList.delete (p, n) (proposals st),
      deferred_sent := deferred_sent st @ [(sender_id p n, e, trx)]\<rparr>"
    by (rule exec_Inr[OF ok run]) simp
  have "key_ok host (h @ [(env, Exec p n e)]) st' (p, n)"
    by (simp add: key_ok_def st' delete_conv')
  then show ?thesis
    using ok by (intro msig_ok_step[OF ok]) (auto simp: st' delete_conv' msig_ok_def)
qed

lemma invalidate_ok:
  assumes ok: "msig_ok host h st" and run: "invalidate env acc st = Inr st'"
    and times: "list_all (\<lambda>e. current_time_point (fst e) \<le> current_time_point env) h"
  shows "msig_ok host (h @ [(env, Invalidate acc)]) st'"
proof -
  have st': "st' = st\<lparr>invalidations := AList.update acc (current_time_point env) (invalidations st)\<rparr>"
    using run by (auto simp: invalidate_def result_simps)
  have "t \<le> current_time_point env" if "map_of (invalidations st) a = Some t" for a t
    using ok times that unfolding msig_ok_def list_all_iff by blast
  then show ?thesis
    using ok by (intro msig_ok_step[OF ok]) (auto simp: st' update_conv' msig_ok_def split: if_splits)
qed

lemma msig_run_ok: "msig_run host h st \<Longrightarrow> msig_ok host h st"
proof (induction rule: msig_run.induct)
  case init
  then show ?case by (simp add: msig_ok_def empty_msig_def)
next
  case (step h st env act st')
  then show ?case
    by (cases act) (auto intro: propose_ok approve_ok unapprove_ok cancel_ok exec_ok invalidate_ok)
qed

lemma msig_run_times:
  assumes "msig_run host h st" "h = h3 @ x # h4" "y \<in> set h4"
  shows "current_time_point (fst x) \<le> current_time_point (fst y)"
  using assms
proof (induction arbitrary: h4 rule: msig_run.induct)
  case (step h st env act st')
  show ?case
  proof (cases h4 rule: rev_cases)
    case (snoc h5 z)
    then have h: "h = h3 @ x # h5" "z = (env, act)"
      using step.prems(1) by auto
    show ?thesis
    proof (cases "y \<in> set h5")
      case True
      then show ?thesis using step.IH[OF h(1)] by blast
    next
      case False
      then show ?thesis using step.prems(2) step.hyps(2) h snoc by simp
    qed
  qed (use step.prems in simp)
qed simp

lemma counted_approval:
  assumes run: "msig_run host h st" and h: "h = h1 @ x # h2" and a: "approved_in key a h2" "counts (invalidations st) a"
  shows "\<exists>h3 e ph h4. h2 = h3 @ (e, Approve (fst key) (snd key) (ap_level a) ph) # h4 \<and> ap_level a \<in> set (level_auths e) \<and>
    (\<forall>y \<in> set h4. snd y \<noteq> Invalidate (actor (ap_level a)))"
proof -
  obtain h3 e ph h4 where d: "h2 = h3 @ (e, Approve (fst key) (snd key) (ap_level a) ph) # h4" "ap_level a \<in> set (level_auths e)"
    "current_time_point e = ap_time a"
    using a(1) unfolding approved_in_def by blast
  have "snd y \<noteq> Invalidate (actor (ap_level a))" if y: "y \<in> set h4" for y
  proof
    assume inv: "snd y = Invalidate (actor (ap_level a))"
    have "y \<in> set h"
      using y by (simp add: h d(1))
    then obtain t where "map_of (invalidations st) (actor (ap_level a)) = Some t" "current_time_point (fst y) \<le> t"
      using msig_run_ok[OF run] inv unfolding msig_ok_def by blast
    moreover have "ap_time a \<le> current_time_point (fst y)"
      using msig_run_times[OF run, of "h1 @ x # h3" _ h4 y] y by (simp add: h d(1,3))
    ultimately show False
      using a(2) by (simp add: counts_def)
  qed
  then show ?thesis using d by blast
qed

section \<open>Property\<close>

text \<open>
  C12. When a proposal is executed, exactly one deferred transaction is sent: the packed transaction of the
  proposal, not expired. The host accepts it for a list of levels, all of them among the requested ones, and each level
  has, after the proposal was made, approved it in an action that carries its own authority; its account has not invalidated its approvals
  since. The proposal is gone afterwards. This holds in every history of successful actions whose times do not decrease.
\<close>

theorem exec_approved:
  assumes "msig_run host h st" "exec host env proposer proposal_name executer st = Inr st'"
  shows "\<exists>trx levels h1 e req h2 expiration. h = h1 @ (e, Propose proposer proposal_name req trx) # h2 \<and>
    deferred_sent st' = deferred_sent st @ [(sender_id proposer proposal_name, executer, trx)] \<and>
    header_expiration host trx = Inr expiration \<and> now_sec env \<le> expiration \<and>
    check_transaction_authorization host trx levels \<and> mset levels \<subseteq># mset req \<and>
    (\<forall>l \<in> set levels. \<exists>h3 e' ph h4. h2 = h3 @ (e', Approve proposer proposal_name l ph) # h4 \<and>
       l \<in> set (level_auths e') \<and> (\<forall>x \<in> set h4. snd x \<noteq> Invalidate (actor l))) \<and>
    map_of (proposals st') (proposer, proposal_name) = None"
proof -
  note ok = msig_run_ok[OF assms(1)]
  let ?key = "(proposer, proposal_name)"
  obtain trx apps expiration where x: "map_of (proposals st) ?key = Some trx" "map_of (approvals st) ?key = Some apps"
    "proposal_backed host ?key trx apps h" "header_expiration host trx = Inr expiration" "now_sec env \<le> expiration"
    "check_transaction_authorization host trx (map ap_level (filter (counts (invalidations st)) (provided_approvals apps)))"
    "st' = st\<lparr>approvals := AList.delete ?key (approvals st), proposals := AList.delete ?key (proposals st),
       deferred_sent := deferred_sent st @ [(sender_id proposer proposal_name, executer, trx)]\<rparr>"
    using exec_Inr[OF ok assms(2)] .
  let ?levels = "map ap_level (filter (counts (invalidations st)) (provided_approvals apps))"
  obtain h1 e req h2 where b: "h = h1 @ (e, Propose proposer proposal_name req trx) # h2"
    "mset (map ap_level (requested_approvals apps)) + mset (map ap_level (provided_approvals apps)) = mset req"
    "\<forall>a \<in> set (provided_approvals apps). approved_in ?key a h2"
    using x(3) unfolding proposal_backed_def by auto
  have "\<exists>h3 e' ph h4. h2 = h3 @ (e', Approve proposer proposal_name l ph) # h4 \<and> l \<in> set (level_auths e') \<and>
      (\<forall>x \<in> set h4. snd x \<noteq> Invalidate (actor l))" if "l \<in> set ?levels" for l
    using counted_approval[OF assms(1) b(1), of ?key] b(3) that by fastforce
  moreover have "mset ?levels \<subseteq># mset req"
    using b(2) by (metis image_mset_subseteq_mono mset_filter multiset_filter_subset mset_map mset_subset_eq_add_right subset_mset.order_trans)
  moreover have "map_of (proposals st') ?key = None" "deferred_sent st' = deferred_sent st @ [(sender_id proposer proposal_name, executer, trx)]"
    by (simp_all add: x(7) delete_conv')
  ultimately show ?thesis
    using b(1) x(4-6) by blast
qed


definition sample_level :: "64 word \<Rightarrow> permission_level" where
  "sample_level a = \<lparr>actor = a, permission = 1\<rparr>"

definition sample_host :: msig_host where
  "sample_host = \<lparr>check_transaction_authorization = (\<lambda>trx levels. sample_level 5 \<in> set levels \<and> sample_level 6 \<in> set levels),
     header_expiration = (\<lambda>trx. Inr 1000), trx_sha256 = length, send_deferred = (\<lambda>_ _ _. Inr ())\<rparr>"

definition sample_msig_env :: "64 word \<Rightarrow> int \<Rightarrow> msig_env" where
  "sample_msig_env a t = \<lparr>level_auths = [sample_level a], current_time_point = t\<rparr>"

definition sample_history :: msig_history where
  "sample_history =
     [(sample_msig_env 4 1000000, Propose 4 9 [sample_level 5, sample_level 6] [1, 2]),
      (sample_msig_env 5 2000000, Approve 4 9 (sample_level 5) (Some 2)),
      (sample_msig_env 5 3000000, Invalidate 5),
      (sample_msig_env 5 4000000, Unapprove 4 9 (sample_level 5)),
      (sample_msig_env 6 5000000, Approve 4 9 (sample_level 6) None),
      (sample_msig_env 5 6000000, Approve 4 9 (sample_level 5) None)]"

fun run_history :: "msig_host \<Rightarrow> msig_history \<Rightarrow> msig_state \<Rightarrow> msig_state result" where
  "run_history host [] st = Inr st"
| "run_history host (e # h) st = bind_res (msig_apply host (fst e) (snd e) st) (run_history host h)"

lemma run_history_msig_run:
  assumes "msig_run host g st" "sorted (map (\<lambda>e. current_time_point (fst e)) (g @ h))" "run_history host h st = Inr st'"
  shows "msig_run host (g @ h) st'"
  using assms
proof (induction h arbitrary: g st)
  case (Cons e h)
  then obtain st1 where st1: "msig_apply host (fst e) (snd e) st = Inr st1" "run_history host h st1 = Inr st'"
    by (auto simp: result_simps)
  have "list_all (\<lambda>x. current_time_point (fst x) \<le> current_time_point (fst e)) g"
    using Cons.prems(2) by (auto simp: sorted_append list_all_iff)
  then have "msig_run host (g @ [e]) st1"
    using msig_run.step[OF Cons.prems(1), of "fst e" "snd e" st1] st1(1) by simp
  then show ?case
    using Cons.IH[of "g @ [e]" st1] Cons.prems(2) st1(2) by simp
qed simp

theorem exec_approved_witness:
  "\<exists>st st' trx. run_history sample_host sample_history empty_msig = Inr st \<and>
    exec sample_host (sample_msig_env 7 7000000) 4 9 7 st = Inr st' \<and> deferred_sent st' = [(sender_id 4 9, 7, trx)] \<and>
    (\<exists>h1 e req h2. sample_history = h1 @ (e, Propose 4 9 req trx) # h2)"
proof -
  define st where "st = projr (run_history sample_host sample_history empty_msig)"
  define st' where "st' = projr (exec sample_host (sample_msig_env 7 7000000) 4 9 7 st)"
  have st: "run_history sample_host sample_history empty_msig = Inr st"
    unfolding st_def by code_simp
  have st': "exec sample_host (sample_msig_env 7 7000000) 4 9 7 st = Inr st'"
    unfolding st'_def st_def by code_simp
  have none: "deferred_sent st = []"
    unfolding st_def by code_simp
  have "sorted (map (\<lambda>e. current_time_point (fst e)) sample_history)"
    by code_simp
  then have "msig_run sample_host sample_history st"
    using run_history_msig_run[OF msig_run.init, of sample_history sample_host st] st by simp
  from exec_approved[OF this st'] obtain trx h1 e req h2 where
    "sample_history = h1 @ (e, Propose 4 9 req trx) # h2" "deferred_sent st' = deferred_sent st @ [(sender_id 4 9, 7, trx)]"
    by blast
  then show ?thesis
    using st st' none by (intro exI[of _ st] exI[of _ st'] exI[of _ trx] conjI) (simp, simp, simp, blast)
qed


end
