(* ===== verification/Kv_Bytes.thy ===== *)
theory Kv_Bytes
  imports Chain_Prelude
begin

unbundle bit_operations_syntax

text \<open>
  Byte strings as keys of an ordered store (\<^verbatim>\<open>chain_kv.hpp\<close>): integers are written with their most significant byte first and
  floating-point numbers after a change of their bits, so that the comparison of byte strings is the order of the values.
  Integers are stored with their least significant byte first in memory.
\<close>

type_synonym bytes = "8 word list"

section \<open>Comparison\<close>

fun memcmp :: "nat \<Rightarrow> bytes \<Rightarrow> bytes \<Rightarrow> int" where
  "memcmp 0 a b = 0"
| "memcmp (Suc n) (x # a) (y # b) = (if x < y then - 1 else if y < x then 1 else memcmp n a b)"
| "memcmp (Suc n) a b = 0"

definition compare_blob :: "bytes \<Rightarrow> bytes \<Rightarrow> int" where
  "compare_blob a b =
     (let r = memcmp (min (length a) (length b)) a b in
      if r \<noteq> 0 then r else if length a < length b then - 1 else if length b < length a then 1 else 0)"

definition less_blob :: "bytes \<Rightarrow> bytes \<Rightarrow> bool" where
  "less_blob a b \<longleftrightarrow> compare_blob a b < 0"

text \<open>The loop of \<open>get_next_prefix\<close>, on the reversed bytes.\<close>

fun next_prefix_rev :: "bytes \<Rightarrow> bytes" where
  "next_prefix_rev [] = []"
| "next_prefix_rev (b # bs) = (if b + 1 \<noteq> 0 then (b + 1) # bs else next_prefix_rev bs)"

definition get_next_prefix :: "bytes \<Rightarrow> bytes" where
  "get_next_prefix prefix = rev (next_prefix_rev (rev prefix))"

section \<open>Integers and arrays of integers\<close>

fun le_bytes :: "nat \<Rightarrow> nat \<Rightarrow> bytes" where
  "le_bytes 0 v = []"
| "le_bytes (Suc n) v = of_nat v # le_bytes n (v div 256)"

fun le_value :: "bytes \<Rightarrow> nat" where
  "le_value [] = 0"
| "le_value (b # bs) = unat b + 256 * le_value bs"

definition append_uint :: "nat \<Rightarrow> bytes \<Rightarrow> nat \<Rightarrow> bytes" where
  "append_uint n dest v = dest @ rev (le_bytes n v)"

definition append_array :: "nat \<Rightarrow> bytes \<Rightarrow> nat list \<Rightarrow> bytes" where
  "append_array n dest vs = dest @ rev (concat (map (le_bytes n) (rev vs)))"

definition extract_uint :: "nat \<Rightarrow> bytes \<Rightarrow> (nat \<times> bytes) option" where
  "extract_uint n bs = (if length bs < n then None else Some (le_value (rev (take n bs)), drop n bs))"

fun chunks :: "nat \<Rightarrow> nat \<Rightarrow> bytes \<Rightarrow> bytes list" where
  "chunks n 0 bs = []"
| "chunks n (Suc c) bs = take n bs # chunks n c (drop n bs)"

definition extract_array :: "nat \<Rightarrow> nat \<Rightarrow> bytes \<Rightarrow> (nat list \<times> bytes) option" where
  "extract_array n c bs =
     (if length bs < n * c then None
      else Some (rev (map le_value (chunks n c (rev (take (n * c) bs)))), drop (n * c) bs))"

section \<open>Floating-point numbers\<close>

definition signbit :: "'a :: len word" where
  "signbit = push_bit (LENGTH('a) - 1) 1"

definition float_to_key :: "'a :: len word \<Rightarrow> 'a word" where
  "float_to_key v =
     (let result = (if v = signbit then 0 else v);
          mask = (if result AND signbit \<noteq> 0 then NOT 0 else 0) in
      result XOR (mask OR signbit))"

definition key_to_float :: "'a :: len word \<Rightarrow> 'a word" where
  "key_to_float v = (let mask = (if v AND signbit = 0 then NOT 0 else 0) in v XOR (mask OR signbit))"

end
