(* ===== verification/Db_Key_Format.thy ===== *)
theory Db_Key_Format
  imports Kv_Bytes
begin

text \<open>
  The keys of contract tables in the key-value store (\<^verbatim>\<open>backing_store/db_key_value_format\<close>). A key is the scope and the name
  of a table, a byte for its type, and the primary key, the secondary key or both; a full key has a byte for the kind of
  store and the account of the contract in front. A template parameter for the type of a secondary key is an argument of type \<open>sec_kind\<close>;
  the length of the prefix, which depends on the kind of a byte string, is the argument \<open>psize\<close>.
\<close>

section \<open>Types of keys\<close>

type_synonym key_type = "8 word"

definition kt_primary :: key_type where "kt_primary = 0"
definition kt_primary_to_sec :: key_type where "kt_primary_to_sec = 1"
definition kt_sec_i64 :: key_type where "kt_sec_i64 = 2"
definition kt_sec_i128 :: key_type where "kt_sec_i128 = 3"
definition kt_sec_i256 :: key_type where "kt_sec_i256 = 4"
definition kt_sec_double :: key_type where "kt_sec_double = 5"
definition kt_sec_long_double :: key_type where "kt_sec_long_double = 6"
definition kt_table :: key_type where "kt_table = 127"

lemmas kt_defs = kt_primary_def kt_primary_to_sec_def kt_sec_i64_def kt_sec_i128_def kt_sec_i256_def kt_sec_double_def
  kt_sec_long_double_def kt_table_def

datatype sec_kind = K_i64 | K_i128 | K_i256 | K_double | K_long_double

text \<open>Floating-point numbers are their bits.\<close>

datatype sec_key = I64 "64 word" | I128 "128 word" | I256 "128 word" "128 word" | Double "64 word" | Long_double "128 word"

primrec kind_of :: "sec_key \<Rightarrow> sec_kind" where
  "kind_of (I64 v) = K_i64"
| "kind_of (I128 v) = K_i128"
| "kind_of (I256 v w) = K_i256"
| "kind_of (Double v) = K_double"
| "kind_of (Long_double v) = K_long_double"

primrec determine_sec_type :: "sec_kind \<Rightarrow> key_type" where
  "determine_sec_type K_i64 = kt_sec_i64"
| "determine_sec_type K_i128 = kt_sec_i128"
| "determine_sec_type K_i256 = kt_sec_i256"
| "determine_sec_type K_double = kt_sec_double"
| "determine_sec_type K_long_double = kt_sec_long_double"

primrec sizeof_key :: "sec_kind \<Rightarrow> nat" where
  "sizeof_key K_i64 = 8"
| "sizeof_key K_i128 = 16"
| "sizeof_key K_i256 = 32"
| "sizeof_key K_double = 8"
| "sizeof_key K_long_double = 16"

definition key_size :: "key_type \<Rightarrow> nat result" where
  "key_size kt =
     (if kt = kt_primary \<or> kt = kt_sec_i64 \<or> kt = kt_sec_double then Inr 8
      else if kt = kt_sec_i128 \<or> kt = kt_sec_long_double then Inr 16
      else if kt = kt_sec_i256 then Inr 32
      else if kt = kt_table then Inr 0
      else Inl Bad_composite_key_exception)"

definition append_u64 :: "bytes \<Rightarrow> 64 word \<Rightarrow> bytes" where
  "append_u64 dest v = append_uint 8 dest (unat v)"

primrec append_sec :: "bytes \<Rightarrow> sec_key \<Rightarrow> bytes" where
  "append_sec dest (I64 v) = append_u64 dest v"
| "append_sec dest (I128 v) = append_uint 16 dest (unat v)"
| "append_sec dest (I256 v w) = append_array 16 dest [unat v, unat w]"
| "append_sec dest (Double v) = append_u64 dest (float_to_key v)"
| "append_sec dest (Long_double v) = append_uint 16 dest (unat (float_to_key v))"

definition extract_u64 :: "bytes \<Rightarrow> (64 word \<times> bytes) option" where
  "extract_u64 bs = (case extract_uint 8 bs of None \<Rightarrow> None | Some (v, r) \<Rightarrow> Some (of_nat v, r))"

definition extract_u128 :: "bytes \<Rightarrow> (128 word \<times> bytes) option" where
  "extract_u128 bs = (case extract_uint 16 bs of None \<Rightarrow> None | Some (v, r) \<Rightarrow> Some (of_nat v, r))"

primrec extract_sec :: "sec_kind \<Rightarrow> bytes \<Rightarrow> (sec_key \<times> bytes) option" where
  "extract_sec K_i64 bs = map_option (\<lambda>(v, r). (I64 v, r)) (extract_u64 bs)"
| "extract_sec K_i128 bs = map_option (\<lambda>(v, r). (I128 v, r)) (extract_u128 bs)"
| "extract_sec K_i256 bs = map_option (\<lambda>(vs, r). (I256 (of_nat (vs ! 0)) (of_nat (vs ! 1)), r)) (extract_array 16 2 bs)"
| "extract_sec K_double bs = map_option (\<lambda>(v, r). (Double (key_to_float v), r)) (extract_u64 bs)"
| "extract_sec K_long_double bs = map_option (\<lambda>(v, r). (Long_double (key_to_float v), r)) (extract_u128 bs)"

definition need :: "chain_exc \<Rightarrow> 'a option \<Rightarrow> 'a result" where
  "need e x = (case x of None \<Rightarrow> Inl e | Some v \<Rightarrow> Inr v)"

abbreviation need_key :: "'a option \<Rightarrow> 'a result" where
  "need_key \<equiv> need Bad_composite_key_exception"

section \<open>Keys of a table\<close>

definition prepare_composite_key_prefix :: "64 word \<Rightarrow> 64 word \<Rightarrow> bytes" where
  "prepare_composite_key_prefix scope table = append_u64 (append_u64 [] scope) table"

definition prepare_composite_key :: "64 word \<Rightarrow> 64 word \<Rightarrow> key_type \<Rightarrow> bytes" where
  "prepare_composite_key scope table kt = prepare_composite_key_prefix scope table @ [kt]"

definition extract_from_composite_key_prefix :: "bytes \<Rightarrow> (64 word \<times> 64 word \<times> bytes) result" where
  "extract_from_composite_key_prefix bs =
     bind_res (need_key (extract_u64 bs)) (\<lambda>(scope, r).
     bind_res (need_key (extract_u64 r)) (\<lambda>(table, r').
     Inr (scope, table, r')))"

definition extract_from_composite_key :: "bytes \<Rightarrow> (64 word \<times> 64 word \<times> bytes \<times> key_type) result" where
  "extract_from_composite_key bs =
     bind_res (extract_from_composite_key_prefix bs) (\<lambda>(scope, table, r).
     case r of [] \<Rightarrow> Inl Bad_composite_key_exception | kt # r' \<Rightarrow> Inr (scope, table, r', kt))"

definition create_primary_key :: "64 word \<Rightarrow> 64 word \<Rightarrow> 64 word \<Rightarrow> bytes" where
  "create_primary_key scope table primary_key = append_u64 (prepare_composite_key scope table kt_primary) primary_key"

definition get_primary_key :: "bytes \<Rightarrow> (64 word \<times> 64 word \<times> 64 word) option result" where
  "get_primary_key bs =
     bind_res (extract_from_composite_key bs) (\<lambda>(scope, table, r, kt).
     if kt \<noteq> kt_primary then Inr None
     else
       bind_res (need_key (extract_u64 r)) (\<lambda>(primary_key, r').
       bind_res (assert_res (r' = []) Bad_composite_key_exception) (\<lambda>_.
       Inr (Some (scope, table, primary_key)))))"

definition create_prefix_type_key :: "64 word \<Rightarrow> 64 word \<Rightarrow> key_type \<Rightarrow> bytes" where
  "create_prefix_type_key scope table kt = prepare_composite_key scope table kt"

definition create_table_key :: "64 word \<Rightarrow> 64 word \<Rightarrow> bytes" where
  "create_table_key scope table = create_prefix_type_key scope table kt_table"

definition get_table_key :: "bytes \<Rightarrow> (64 word \<times> 64 word) option result" where
  "get_table_key bs =
     bind_res (extract_from_composite_key bs) (\<lambda>(scope, table, r, kt).
     if kt \<noteq> kt_table then Inr None
     else bind_res (assert_res (r = []) Bad_composite_key_exception) (\<lambda>_. Inr (Some (scope, table))))"

definition create_prefix_key :: "64 word \<Rightarrow> 64 word \<Rightarrow> bytes" where
  "create_prefix_key scope table = prepare_composite_key_prefix scope table"

definition get_prefix_key :: "bytes \<Rightarrow> (64 word \<times> 64 word) result" where
  "get_prefix_key bs = bind_res (extract_from_composite_key_prefix bs) (\<lambda>(scope, table, _). Inr (scope, table))"

definition extract_key_type :: "bytes \<Rightarrow> key_type result" where
  "extract_key_type bs = bind_res (extract_from_composite_key bs) (\<lambda>(_, _, _, kt). Inr kt)"

definition extract_primary_to_sec_key_type :: "bytes \<Rightarrow> key_type result" where
  "extract_primary_to_sec_key_type bs =
     bind_res (extract_from_composite_key bs) (\<lambda>(_, _, r, kt).
     bind_res (assert_res (kt = kt_primary_to_sec) Bad_composite_key_exception) (\<lambda>_.
     case r of [] \<Rightarrow> Inl Bad_composite_key_exception | sec_kt # _ \<Rightarrow> Inr sec_kt))"

text \<open>The comparison of \<open>n\<close> bytes reads past the end of a shorter string.\<close>

definition same_bytes :: "nat \<Rightarrow> bytes \<Rightarrow> bytes \<Rightarrow> bool result" where
  "same_bytes n a b = (if length a < n \<or> length b < n then Inl Undefined_behaviour else Inr (memcmp n a b = 0))"

definition get_trailing_primary_key :: "bytes \<Rightarrow> bytes \<Rightarrow> 64 word option result" where
  "get_trailing_primary_key full_key secondary_key_prefix =
     (let n = length secondary_key_prefix in
      bind_res (assert_res (length full_key = n + 8) Bad_composite_key_exception) (\<lambda>_.
      bind_res (same_bytes n secondary_key_prefix full_key) (\<lambda>same.
      if \<not> same then Inr None
      else bind_res (need_key (extract_u64 (take 8 (drop n full_key)))) (\<lambda>(primary_key, _). Inr (Some primary_key)))))"

section \<open>Secondary keys\<close>

definition append_primary_and_secondary_key_types :: "sec_kind \<Rightarrow> bytes \<Rightarrow> bytes" where
  "append_primary_and_secondary_key_types k composite_key = composite_key @ [kt_primary_to_sec] @ [determine_sec_type k]"

definition append_primary_and_secondary_keys :: "bytes \<Rightarrow> 64 word \<Rightarrow> sec_key \<Rightarrow> bytes" where
  "append_primary_and_secondary_keys composite_key primary_key sec =
     append_sec (append_u64 (append_primary_and_secondary_key_types (kind_of sec) composite_key) primary_key) sec"

definition create_secondary_key :: "64 word \<Rightarrow> 64 word \<Rightarrow> sec_key \<Rightarrow> 64 word \<Rightarrow> bytes" where
  "create_secondary_key scope table sec primary_key =
     append_u64 (append_sec (prepare_composite_key scope table (determine_sec_type (kind_of sec))) sec) primary_key"

definition create_prefix_secondary_key :: "64 word \<Rightarrow> 64 word \<Rightarrow> sec_key \<Rightarrow> bytes" where
  "create_prefix_secondary_key scope table sec =
     append_sec (prepare_composite_key scope table (determine_sec_type (kind_of sec))) sec"

definition get_secondary_key :: "sec_kind \<Rightarrow> bytes \<Rightarrow> (64 word \<times> 64 word \<times> sec_key \<times> 64 word) option result" where
  "get_secondary_key k bs =
     bind_res (extract_from_composite_key bs) (\<lambda>(scope, table, r, kt).
     if kt \<noteq> determine_sec_type k then Inr None
     else
       bind_res (need_key (extract_sec k r)) (\<lambda>(sec, r').
       bind_res (need_key (extract_u64 r')) (\<lambda>(primary_key, _).
       Inr (Some (scope, table, sec, primary_key)))))"

definition prefix_size_bytes :: nat where
  "prefix_size_bytes = 16"

definition prefix_size_full :: nat where
  "prefix_size_full = 25"

definition create_secondary_key_pair :: "64 word \<Rightarrow> 64 word \<Rightarrow> sec_key \<Rightarrow> 64 word \<Rightarrow> bytes \<times> bytes" where
  "create_secondary_key_pair scope table sec primary_key =
     (let secondary_key = create_secondary_key scope table sec primary_key in
      (secondary_key, append_primary_and_secondary_keys (take prefix_size_bytes secondary_key) primary_key sec))"

definition create_primary_to_secondary_key :: "64 word \<Rightarrow> 64 word \<Rightarrow> 64 word \<Rightarrow> sec_key \<Rightarrow> bytes" where
  "create_primary_to_secondary_key scope table primary_key sec =
     append_primary_and_secondary_keys (prepare_composite_key_prefix scope table) primary_key sec"

definition create_prefix_primary_to_secondary_key :: "sec_kind \<Rightarrow> 64 word \<Rightarrow> 64 word \<Rightarrow> 64 word \<Rightarrow> bytes" where
  "create_prefix_primary_to_secondary_key k scope table primary_key =
     append_u64 (append_primary_and_secondary_key_types k (prepare_composite_key_prefix scope table)) primary_key"

definition create_prefix_primary_to_secondary_type :: "sec_kind \<Rightarrow> 64 word \<Rightarrow> 64 word \<Rightarrow> bytes" where
  "create_prefix_primary_to_secondary_type k scope table =
     append_primary_and_secondary_key_types k (prepare_composite_key_prefix scope table)"

datatype prim_to_sec_type_result = Invalid_type | Wrong_sec_type | Valid_type "64 word" "64 word" "64 word" sec_key

definition get_primary_to_secondary_keys :: "sec_kind \<Rightarrow> bytes \<Rightarrow> prim_to_sec_type_result result" where
  "get_primary_to_secondary_keys k bs =
     bind_res (extract_from_composite_key bs) (\<lambda>(scope, table, r, kt).
     if kt \<noteq> kt_primary_to_sec then Inr Invalid_type
     else
       (case r of
          [] \<Rightarrow> Inl Bad_composite_key_exception
        | sec_kt # r1 \<Rightarrow>
            if sec_kt \<noteq> determine_sec_type k then Inr Wrong_sec_type
            else
              bind_res (need_key (extract_u64 r1)) (\<lambda>(primary_key, r2).
              bind_res (need_key (extract_sec k r2)) (\<lambda>(sec, _).
              Inr (Valid_type scope table primary_key sec)))))"

section \<open>Prefixes of keys that lead from a primary to a secondary key\<close>

definition validate_primary_to_sec_type_prefix :: "bytes \<Rightarrow> nat \<Rightarrow> key_type \<Rightarrow> bool result" where
  "validate_primary_to_sec_type_prefix type_prefix psize expected_sec_kt =
     (let has_sec_type = psize + 2 \<le> length type_prefix in
      bind_res (assert_res (length type_prefix = psize + 1 \<or> length type_prefix = psize + 2 \<or> length type_prefix = psize + 10)
                  Bad_composite_key_exception) (\<lambda>_.
      bind_res (assert_res (type_prefix ! psize = kt_primary_to_sec) Bad_composite_key_exception) (\<lambda>_.
      bind_res (if has_sec_type then assert_res (type_prefix ! (psize + 1) = expected_sec_kt) Bad_composite_key_exception else Inr ()) (\<lambda>_.
      Inr has_sec_type))))"

definition validate_primary_to_sec_type_size :: "sec_kind \<Rightarrow> bytes \<Rightarrow> nat \<Rightarrow> unit result" where
  "validate_primary_to_sec_type_size k full_key psize =
     assert_res (length full_key = psize + 2 + 8 + sizeof_key k) Bad_composite_key_exception"

definition verify_primary_to_sec_type :: "sec_kind \<Rightarrow> nat \<Rightarrow> bytes \<Rightarrow> bytes \<Rightarrow> bool result" where
  "verify_primary_to_sec_type k psize key type_prefix =
     bind_res (validate_primary_to_sec_type_prefix type_prefix psize (determine_sec_type k)) (\<lambda>has_sec_type.
     bind_res (same_bytes (length type_prefix) type_prefix key) (\<lambda>same.
     if \<not> same then Inr False
     else
       bind_res (if \<not> has_sec_type
                 then if length key \<le> psize + 1 then Inl Undefined_behaviour else Inr (key ! (psize + 1) = determine_sec_type k)
                 else Inr True) (\<lambda>right_type.
       if \<not> right_type then Inr False
       else bind_res (validate_primary_to_sec_type_size k key psize) (\<lambda>_. Inr True))))"

definition locate_trailing_primary_and_secondary_keys :: "sec_kind \<Rightarrow> nat \<Rightarrow> bytes \<Rightarrow> bytes \<times> bytes" where
  "locate_trailing_primary_and_secondary_keys k psize key =
     (take 8 (drop (psize + 2) key), take (sizeof_key k) (drop (psize + 10) key))"

definition extract_trailing_primary_and_secondary_keys :: "sec_kind \<Rightarrow> nat \<Rightarrow> bytes \<Rightarrow> (64 word \<times> sec_key) result" where
  "extract_trailing_primary_and_secondary_keys k psize key =
     (let (p, s) = locate_trailing_primary_and_secondary_keys k psize key in
      bind_res (need_key (extract_u64 (p @ s))) (\<lambda>(primary_key, r).
      bind_res (need_key (extract_sec k r)) (\<lambda>(sec, r').
      bind_res (assert_res (r' = []) Bad_composite_key_exception) (\<lambda>_.
      Inr (primary_key, sec)))))"

definition get_trailing_prim_sec_keys :: "sec_kind \<Rightarrow> nat \<Rightarrow> bytes \<Rightarrow> bytes \<Rightarrow> (64 word \<times> sec_key) option result" where
  "get_trailing_prim_sec_keys k psize full_key primary_to_sec_type_prefix =
     bind_res (verify_primary_to_sec_type k psize full_key primary_to_sec_type_prefix) (\<lambda>ok.
     if \<not> ok then Inr None
     else bind_res (extract_trailing_primary_and_secondary_keys k psize full_key) (\<lambda>keys. Inr (Some keys)))"

definition get_trailing_secondary_key :: "sec_kind \<Rightarrow> nat \<Rightarrow> bytes \<Rightarrow> bytes \<Rightarrow> sec_key option result" where
  "get_trailing_secondary_key k psize full_key sec_type_trailing_prefix =
     (let n = length sec_type_trailing_prefix in
      bind_res (assert_res (n = psize + 10) Bad_composite_key_exception) (\<lambda>_.
      bind_res (verify_primary_to_sec_type k psize full_key sec_type_trailing_prefix) (\<lambda>ok.
      if \<not> ok then Inr None
      else bind_res (need_key (extract_sec k (take (sizeof_key k) (drop n full_key)))) (\<lambda>(sec, _). Inr (Some sec)))))"

definition create_secondary_key_from_primary_to_sec_key :: "sec_kind \<Rightarrow> nat \<Rightarrow> bytes \<Rightarrow> bytes result" where
  "create_secondary_key_from_primary_to_sec_key k psize key =
     bind_res (validate_primary_to_sec_type_size k key psize) (\<lambda>_.
     bind_res (validate_primary_to_sec_type_prefix (take (psize + 10) key) psize (determine_sec_type k)) (\<lambda>sec_kt_checked.
     bind_res (assert_res sec_kt_checked Bad_composite_key_exception) (\<lambda>_.
     let (p, s) = locate_trailing_primary_and_secondary_keys k psize key in
     Inr (take psize key @ [determine_sec_type k] @ s @ p))))"

definition get_trailing_sec_prim_keys :: "sec_kind \<Rightarrow> nat \<Rightarrow> bytes \<Rightarrow> bytes \<Rightarrow> (sec_key \<times> 64 word) option result" where
  "get_trailing_sec_prim_keys k psize full_key secondary_type_prefix =
     (let n = length secondary_type_prefix in
      bind_res (assert_res (n = psize + 1) Bad_composite_key_exception) (\<lambda>_.
      bind_res (assert_res (secondary_type_prefix ! (n - 1) = determine_sec_type k) Bad_composite_key_exception) (\<lambda>_.
      bind_res (assert_res (length full_key = n + (sizeof_key k + 8)) Bad_composite_key_exception) (\<lambda>_.
      bind_res (same_bytes n secondary_type_prefix full_key) (\<lambda>same.
      if \<not> same then Inr None
      else
        bind_res (need_key (extract_sec k (take (sizeof_key k + 8) (drop n full_key)))) (\<lambda>(sec, r).
        bind_res (need_key (extract_u64 r)) (\<lambda>(primary_key, _).
        Inr (Some (sec, primary_key)))))))))"

definition prefix_slice :: "bytes \<Rightarrow> bytes result" where
  "prefix_slice key = bind_res (assert_res (prefix_size_bytes \<le> length key) Bad_composite_key_exception) (\<lambda>_. Inr (take prefix_size_bytes key))"

definition prefix_type_slice :: "bytes \<Rightarrow> bytes result" where
  "prefix_type_slice key =
     bind_res (assert_res (prefix_size_bytes + 1 \<le> length key) Bad_composite_key_exception) (\<lambda>_. Inr (take (prefix_size_bytes + 1) key))"

definition prefix_primary_to_secondary_slice :: "nat \<Rightarrow> bytes \<Rightarrow> bool \<Rightarrow> bytes result" where
  "prefix_primary_to_secondary_slice psize key with_primary_key =
     (let expected_size = psize + 1 + 1 + (if with_primary_key then 8 else 0) in
      bind_res (assert_res (expected_size \<le> length key) Bad_composite_key_exception) (\<lambda>_.
      bind_res (assert_res (key ! psize = kt_primary_to_sec) Bad_composite_key_exception) (\<lambda>_.
      bind_res (assert_res (sint kt_sec_i64 \<le> sint (key ! (psize + 1)) \<and> sint (key ! (psize + 1)) \<le> sint kt_sec_long_double)
                  Bad_composite_key_exception) (\<lambda>_.
      Inr (take expected_size key)))))"

section \<open>Full keys\<close>

definition rocksdb_contract_db_prefix :: "8 word" where
  "rocksdb_contract_db_prefix = 0x12"

definition create_full_key :: "bytes \<Rightarrow> 64 word \<Rightarrow> bytes" where
  "create_full_key composite_key code = [rocksdb_contract_db_prefix] @ append_u64 [] code @ composite_key"

definition create_full_table_key :: "bytes \<Rightarrow> bytes result" where
  "create_full_table_key prefix_key =
     bind_res (assert_res (prefix_size_full \<le> length prefix_key) Bad_composite_key_exception) (\<lambda>_.
     Inr (take prefix_size_full prefix_key @ [kt_table]))"

text \<open>Both functions below start after the byte of the store and the account of the contract; a shorter key is out of range.\<close>

definition extract_legacy_slice :: "bytes \<Rightarrow> bytes result" where
  "extract_legacy_slice full_key = (if length full_key < 9 then Inl Undefined_behaviour else Inr (drop 9 full_key))"

definition extract_legacy_key :: "bytes \<Rightarrow> bytes result" where
  "extract_legacy_key complete_key = extract_legacy_slice complete_key"

datatype end_of_prefix = Pre_type | At_type | At_prim_to_sec_type | At_prim_to_sec_primary_key

primrec prefix_extension :: "end_of_prefix \<Rightarrow> nat" where
  "prefix_extension Pre_type = 0"
| "prefix_extension At_type = 1"
| "prefix_extension At_prim_to_sec_type = 2"
| "prefix_extension At_prim_to_sec_primary_key = 2 + 8"

definition create_full_key_prefix :: "bytes \<Rightarrow> end_of_prefix \<Rightarrow> bytes result" where
  "create_full_key_prefix full_key prefix_end =
     (let n = prefix_size_full + prefix_extension prefix_end in
      bind_res (assert_res (n < length full_key) Db_rocksdb_invalid_operation) (\<lambda>_. Inr (take n full_key)))"

record full_key_data =
  fk_db_type :: "8 word"
  fk_contract :: "64 word option"
  fk_legacy_key :: "bytes option"
  fk_scope :: "64 word option"
  fk_table :: "64 word option"
  fk_kt :: "key_type option"
  fk_type_prefix :: bytes

definition parse_full_key :: "bytes \<Rightarrow> full_key_data result" where
  "parse_full_key full_key =
     (case full_key of
        [] \<Rightarrow> Inl Db_rocksdb_invalid_operation
      | db_type # r \<Rightarrow>
          let data = \<lparr>fk_db_type = db_type, fk_contract = None, fk_legacy_key = None, fk_scope = None, fk_table = None,
                      fk_kt = None, fk_type_prefix = []\<rparr> in
          if db_type \<noteq> rocksdb_contract_db_prefix \<or> r = [] then Inr data
          else
            bind_res (assert_res (9 \<le> length full_key) Db_rocksdb_invalid_operation) (\<lambda>_.
            bind_res (need_key (extract_u64 (take 8 r))) (\<lambda>(contract, r').
            bind_res (assert_res (r' = []) Db_rocksdb_invalid_operation) (\<lambda>_.
            let data1 = data\<lparr>fk_contract := Some contract\<rparr>; legacy_key = drop 8 r in
            if legacy_key = [] then Inr data1
            else
              bind_res (extract_from_composite_key legacy_key) (\<lambda>(scope, table, rest, kt).
              Inr (data1\<lparr>fk_legacy_key := Some legacy_key, fk_scope := Some scope, fk_table := Some table, fk_kt := Some kt,
                         fk_type_prefix := take (length legacy_key - length rest) legacy_key\<rparr>))))))"

definition get_primary_key_after :: "nat \<Rightarrow> bytes \<Rightarrow> bytes \<Rightarrow> 64 word option result" where
  "get_primary_key_after psize full_key type_prefix =
     (let n = length type_prefix in
      bind_res (assert_res (n = psize + 1) Bad_composite_key_exception) (\<lambda>_.
      bind_res (assert_res (length full_key = n + 8) Bad_composite_key_exception) (\<lambda>_.
      bind_res (same_bytes n type_prefix full_key) (\<lambda>same.
      if \<not> same then Inr None
      else
        bind_res (assert_res (type_prefix ! (n - 1) = kt_primary) Bad_composite_key_exception) (\<lambda>_.
        bind_res (need_key (extract_u64 (take 8 (drop n full_key)))) (\<lambda>(primary_key, _). Inr (Some primary_key)))))))"

definition create_full_primary_key :: "64 word \<Rightarrow> 64 word \<Rightarrow> 64 word \<Rightarrow> 64 word \<Rightarrow> bytes" where
  "create_full_primary_key code scope table primary_key = create_full_key (create_primary_key scope table primary_key) code"

definition create_full_prefix_key :: "64 word \<Rightarrow> 64 word \<Rightarrow> 64 word \<Rightarrow> key_type option \<Rightarrow> bytes" where
  "create_full_prefix_key code scope table kt =
     create_full_key (case kt of None \<Rightarrow> create_prefix_key scope table | Some t \<Rightarrow> create_prefix_type_key scope table t) code"

definition create_full_secondary_key :: "64 word \<Rightarrow> 64 word \<Rightarrow> 64 word \<Rightarrow> sec_key \<Rightarrow> 64 word \<Rightarrow> bytes" where
  "create_full_secondary_key code scope table sec primary_key = create_full_key (create_secondary_key scope table sec primary_key) code"

definition create_full_prefix_secondary_key :: "64 word \<Rightarrow> 64 word \<Rightarrow> 64 word \<Rightarrow> sec_key \<Rightarrow> bytes" where
  "create_full_prefix_secondary_key code scope table sec = create_full_key (create_prefix_secondary_key scope table sec) code"


end
