(* ===== verification/Db_Key_Properties.thy ===== *)
theory Db_Key_Properties
  imports Db_Key_Format
begin

text \<open>
  The order and the round trips of the keys of contract tables: the comparison of the encoded keys is the lexicographic order of their parts,
  what is written is read back, and the next prefix bounds exactly the keys with a prefix.
\<close>

section \<open>Bytes\<close>

lemma length_le_bytes [simp]: "length (le_bytes n v) = n"
  by (induction n arbitrary: v) auto

lemma unat_byte: "unat (of_nat v :: 8 word) = v mod 256"
  by (simp add: unat_of_nat)

lemma le_value_le_bytes: "le_value (le_bytes n v) = v mod 256 ^ n"
proof (induction n arbitrary: v)
  case (Suc n)
  have "v mod 256 + 256 * (v div 256 mod 256 ^ n) = v mod (256 * 256 ^ n)"
    by (metis add.commute mod_mult2_eq)
  then show ?case
    by (simp add: Suc unat_byte)
qed simp

lemma le_value_less: "le_value bs < 256 ^ length bs"
proof (induction bs)
  case (Cons b bs)
  have "unat b < 256"
    using unsigned_less[of b, where 'a = nat] by simp
  then show ?case using Cons by simp
qed simp

lemma le_bytes_le_value: "le_bytes (length bs) (le_value bs) = bs"
proof (induction bs)
  case (Cons b bs)
  have b: "unat b < 256"
    using unsigned_less[of b, where 'a = nat] by simp
  then have "(unat b + 256 * le_value bs) div 256 = le_value bs"
    by simp
  moreover have "(of_nat (unat b + 256 * le_value bs) :: 8 word) = b"
    using b by (simp only: word_unat_eq_iff unat_byte) simp
  ultimately show ?case using Cons by simp
qed simp

definition be :: "nat \<Rightarrow> nat \<Rightarrow> bytes" where
  "be n v = rev (le_bytes n v)"

lemma length_be [simp]: "length (be n v) = n"
  by (simp add: be_def)

lemma be_Suc: "be (Suc n) v = be n (v div 256) @ [of_nat v]"
  by (simp add: be_def)

lemma append_uint_be: "append_uint n dest v = dest @ be n v"
  by (simp add: append_uint_def be_def)

lemma extract_uint_be: "v < 256 ^ n \<Longrightarrow> extract_uint n (be n v @ r) = Some (v, r)"
  by (simp add: extract_uint_def be_def le_value_le_bytes)

lemma extract_uint_Some:
  assumes "extract_uint n bs = Some (v, r)"
  shows "bs = be n v @ r" "v < 256 ^ n"
proof -
  have len: "n \<le> length bs" and v: "v = le_value (rev (take n bs))" "r = drop n bs"
    using assms by (auto simp: extract_uint_def split: if_splits)
  have "le_bytes n v = rev (take n bs)"
    using le_bytes_le_value[of "rev (take n bs)"] len v(1) by simp
  then have "be n v = take n bs"
    by (simp add: be_def)
  then show "bs = be n v @ r"
    using v(2) by simp
  show "v < 256 ^ n"
    using le_value_less[of "rev (take n bs)"] len v(1) by simp
qed

section \<open>Integers\<close>

lemma unat_u64_less: "unat (v :: 64 word) < 256 ^ 8"
  using unsigned_less[of v, where 'a = nat] by simp

lemma unat_u128_less: "unat (v :: 128 word) < 256 ^ 16"
  using unsigned_less[of v, where 'a = nat] by simp

lemma append_u64_be: "append_u64 dest v = dest @ be 8 (unat v)"
  by (simp add: append_u64_def append_uint_be)

lemma extract_u64_be: "extract_u64 (be 8 (unat v) @ r) = Some (v, r)"
  by (simp add: extract_u64_def extract_uint_be[OF unat_u64_less])

lemma extract_u64_Some: "extract_u64 bs = Some (v, r) \<Longrightarrow> bs = be 8 (unat v) @ r"
  using extract_uint_Some[of 8 bs] by (auto simp: extract_u64_def unat_of_nat split: option.splits)

lemma extract_u128_be: "extract_u128 (be 16 (unat v) @ r) = Some (v, r)"
  by (simp add: extract_u128_def extract_uint_be[OF unat_u128_less])

lemma append_array_be: "append_array n dest [v, w] = dest @ be n v @ be n w"
  by (simp add: append_array_def be_def)

lemma extract_array_be:
  assumes "v < 256 ^ n" "w < 256 ^ n"
  shows "extract_array n 2 (be n v @ be n w @ r) = Some ([v, w], r)"
  using assms by (simp add: extract_array_def be_def le_value_le_bytes numeral_2_eq_2)

section \<open>Floating-point keys\<close>

lemma bit_signbit: "bit (signbit :: 'a :: len word) n \<longleftrightarrow> n = LENGTH('a) - 1"
  by (auto simp: signbit_def bit_exp_iff possible_bit_word)

lemma and_signbit: "(v :: 'a :: len word) AND signbit = 0 \<longleftrightarrow> \<not> bit v (LENGTH('a) - 1)"
  by (auto simp: bit_eq_iff[of "v AND signbit" 0] bit_and_iff bit_signbit possible_bit_word dest: spec[of _ "LENGTH('a) - 1"])

lemma float_to_key_positive: "\<not> bit v (LENGTH('a) - 1) \<Longrightarrow> float_to_key (v :: 'a :: len word) = v XOR signbit"
  using bit_signbit[where 'a = 'a] by (auto simp: float_to_key_def and_signbit)

lemma float_to_key_negative:
  "bit v (LENGTH('a) - 1) \<Longrightarrow> v \<noteq> signbit \<Longrightarrow> float_to_key (v :: 'a :: len word) = NOT v"
  by (simp add: float_to_key_def and_signbit)

lemma float_to_key_minus_zero: "float_to_key (signbit :: 'a :: len word) = signbit"
  by (simp add: float_to_key_def)

lemma key_to_float_to_key: "key_to_float (float_to_key v) = (if v = (signbit :: 'a :: len word) then 0 else v)"
proof (cases "bit v (LENGTH('a) - 1)")
  case True
  then show ?thesis
    using bit_signbit[where 'a = 'a]
    by (auto simp: key_to_float_def and_signbit float_to_key_negative float_to_key_minus_zero bit_not_iff)
next
  case False
  then show ?thesis
    using bit_signbit[where 'a = 'a]
    by (auto simp: key_to_float_def and_signbit float_to_key_positive bit_xor_iff xor.assoc)
qed

text \<open>The position of a number in the order of its format: by sign and magnitude, with a single zero.\<close>

definition float_rank :: "'a :: len word \<Rightarrow> int" where
  "float_rank v = (if bit v (LENGTH('a) - 1) then - uint (v XOR signbit) else uint v)"

lemma uint_signbit: "uint (signbit :: 'a :: len word) = 2 ^ (LENGTH('a) - 1)"
  unfolding signbit_def unsigned_push_bit_eq by (simp add: take_bit_of_exp)

lemma uint_xor_signbit:
  assumes "\<not> bit v (LENGTH('a) - 1)"
  shows "uint ((v :: 'a :: len word) XOR signbit) = uint v + 2 ^ (LENGTH('a) - 1)"
proof -
  have "uint v AND 2 ^ (LENGTH('a) - 1) = 0"
    using assms by (simp add: and_exp_eq_0_iff_not_bit bit_uint_iff)
  then have "uint v XOR 2 ^ (LENGTH('a) - 1) = uint v + 2 ^ (LENGTH('a) - 1)"
    by (simp add: disjunctive_add_eq_xor)
  then show ?thesis
    by (simp add: unsigned_xor_eq uint_signbit)
qed

lemma float_rank_negative:
  assumes "bit v (LENGTH('a) - 1)"
  shows "float_rank (v :: 'a :: len word) = 2 ^ (LENGTH('a) - 1) - uint v"
proof -
  have "\<not> bit (v XOR signbit) (LENGTH('a) - 1)"
    using assms by (simp add: bit_xor_iff bit_signbit)
  from uint_xor_signbit[OF this] show ?thesis
    using assms by (simp add: float_rank_def xor.assoc)
qed

lemma float_key_value:
  "uint (float_to_key (v :: 'a :: len word)) = 2 ^ (LENGTH('a) - 1) + float_rank v - (if float_rank v < 0 then 1 else 0)"
proof (cases "bit v (LENGTH('a) - 1)")
  case False
  then show ?thesis
    by (simp add: float_to_key_positive uint_xor_signbit float_rank_def not_less)
next
  case True
  have len: "2 ^ LENGTH('a) = 2 * (2 :: int) ^ (LENGTH('a) - 1)"
    by (simp flip: power_Suc)
  show ?thesis
  proof (cases "v = signbit")
    case True
    then show ?thesis
      using float_rank_negative[of v] \<open>bit v _\<close> by (simp add: float_to_key_minus_zero uint_signbit)
  next
    case False
    have "2 ^ (LENGTH('a) - 1) \<noteq> uint v"
      using False uint_signbit[where 'a = 'a] by (metis word_uint_eq_iff)
    moreover have "float_rank v \<le> 0"
      using True by (simp add: float_rank_def)
    ultimately have neg: "float_rank v < 0"
      using float_rank_negative[OF True] by linarith
    have "uint (NOT v) = 2 ^ LENGTH('a) - 1 - uint v"
      by (simp add: unsigned_not_eq take_bit_not_eq_mask_diff mask_eq_exp_minus_1 take_bit_int_eq_self)
    then show ?thesis
      using neg float_rank_negative[OF True] by (simp add: float_to_key_negative[OF True False] len)
  qed
qed

lemma float_key_order:
  fixes v w :: "'a :: len word"
  shows "(unat (float_to_key v) < unat (float_to_key w) \<longleftrightarrow> float_rank v < float_rank w)"
  "(unat (float_to_key v) = unat (float_to_key w) \<longleftrightarrow> float_rank v = float_rank w)"
proof -
  have key: "unat (float_to_key u) = nat (2 ^ (LENGTH('a) - 1) + float_rank u - (if float_rank u < 0 then 1 else 0))"
    "0 \<le> 2 ^ (LENGTH('a) - 1) + float_rank u - (if float_rank u < 0 then 1 else 0)" for u :: "'a word"
    using float_key_value[of u] by (metis unat_eq_nat_uint, metis uint_ge_0)
  show "(unat (float_to_key v) < unat (float_to_key w) \<longleftrightarrow> float_rank v < float_rank w)"
    unfolding key(1) nat_less_eq_zless[OF key(2)] by auto
  show "(unat (float_to_key v) = unat (float_to_key w) \<longleftrightarrow> float_rank v = float_rank w)"
    unfolding key(1) eq_nat_nat_iff[OF key(2) key(2)] by auto
qed

section \<open>Order\<close>

lemma compare_blob_Nil: "compare_blob [] b = (if b = [] then 0 else - 1)" "compare_blob a [] = (if a = [] then 0 else 1)"
  by (auto simp: compare_blob_def)

lemma compare_blob_Cons:
  "compare_blob (x # a) (y # b) = (if x < y then - 1 else if y < x then 1 else compare_blob a b)"
  by (simp add: compare_blob_def Let_def)

lemma less_blob_lexordp: "less_blob a b \<longleftrightarrow> ord_class.lexordp a b"
proof (induction a arbitrary: b)
  case Nil
  then show ?case by (cases b) (simp_all add: less_blob_def compare_blob_Nil)
next
  case (Cons x a)
  then show ?case
    by (cases b) (auto simp: less_blob_def compare_blob_Nil compare_blob_Cons)
qed

lemma less_div_mod: "v < w \<longleftrightarrow> v div 256 < w div 256 \<or> v div 256 = w div 256 \<and> v mod 256 < w mod (256 :: nat)"
proof -
  have "256 * q + r < 256 * q' + r' \<longleftrightarrow> q < q' \<or> q = q' \<and> r < r'" if "r < 256" "r' < 256" for q r q' r' :: nat
    using that by (cases q q' rule: linorder_cases) auto
  from this[of "v mod 256" "w mod 256" "v div 256" "w div 256"] show ?thesis
    by simp
qed

lemma eq_div_mod: "v = w \<longleftrightarrow> v div 256 = w div 256 \<and> v mod 256 = w mod (256 :: nat)"
  by (metis div_mult_mod_eq)

lemma lexordp_be:
  assumes "v < 256 ^ n" "w < 256 ^ n"
  shows "ord_class.lexordp (be n v @ a) (be n w @ b) \<longleftrightarrow> v < w \<or> v = w \<and> ord_class.lexordp a b"
  using assms
proof (induction n arbitrary: v w a b)
  case 0
  then show ?case by (simp add: be_def)
next
  case (Suc n)
  have "ord_class.lexordp (be (Suc n) v @ a) (be (Suc n) w @ b) \<longleftrightarrow>
    v div 256 < w div 256 \<or> v div 256 = w div 256 \<and> ord_class.lexordp ((of_nat v :: 8 word) # a) (of_nat w # b)"
    using Suc.prems Suc.IH[of "v div 256" "w div 256" "of_nat v # a" "of_nat w # b"]
    by (simp add: be_Suc less_mult_imp_div_less mult.commute)
  also have "\<dots> \<longleftrightarrow> v div 256 < w div 256 \<or> v div 256 = w div 256 \<and> (v mod 256 < w mod 256 \<or> v mod 256 = w mod 256 \<and> ord_class.lexordp a b)"
    by (auto simp: word_less_nat_alt unat_byte)
  also have "\<dots> \<longleftrightarrow> v < w \<or> v = w \<and> ord_class.lexordp a b"
    using less_div_mod[of v w] eq_div_mod[of v w] by blast
  finally show ?case .
qed


text \<open>A key as its parts: a part is its width and its value.\<close>

definition encode_parts :: "(nat \<times> nat) list \<Rightarrow> bytes" where
  "encode_parts cs = concat (map (\<lambda>(n, v). be n v) cs)"

lemma encode_parts_simps [simp]: "encode_parts [] = []" "encode_parts ((n, v) # cs) = be n v @ encode_parts cs"
  "encode_parts (cs @ ds) = encode_parts cs @ encode_parts ds"
  by (simp_all add: encode_parts_def)

text \<open>Two lists of parts whose values are ordered like two lists of numbers.\<close>

fun ordered_alike :: "(nat \<times> nat) list \<Rightarrow> int list \<Rightarrow> (nat \<times> nat) list \<Rightarrow> int list \<Rightarrow> bool" where
  "ordered_alike [] [] [] [] = True"
| "ordered_alike ((n, v) # cs) (f # fs) ((m, w) # ds) (g # gs) \<longleftrightarrow>
     n = m \<and> v < 256 ^ n \<and> w < 256 ^ n \<and> (v < w \<longleftrightarrow> f < g) \<and> (v = w \<longleftrightarrow> f = g) \<and> (f = g \<longrightarrow> ordered_alike cs fs ds gs)"
| "ordered_alike _ _ _ _ = False"

lemma ordered_alike_lexordp:
  "ordered_alike cs fs ds gs \<Longrightarrow> ord_class.lexordp (encode_parts cs) (encode_parts ds) \<longleftrightarrow> ord_class.lexordp fs gs"
proof (induction cs fs ds gs rule: ordered_alike.induct)
  case (2 n v cs f fs m w ds g gs)
  then show ?case
    by (auto simp: lexordp_be)
qed simp_all

fun sec_parts :: "sec_key \<Rightarrow> (nat \<times> nat) list" where
  "sec_parts (I64 v) = [(8, unat v)]"
| "sec_parts (I128 v) = [(16, unat v)]"
| "sec_parts (I256 v w) = [(16, unat v), (16, unat w)]"
| "sec_parts (Double v) = [(8, unat (float_to_key v))]"
| "sec_parts (Long_double v) = [(16, unat (float_to_key v))]"

fun sec_fields :: "sec_key \<Rightarrow> int list" where
  "sec_fields (I64 v) = [uint v]"
| "sec_fields (I128 v) = [uint v]"
| "sec_fields (I256 v w) = [uint v, uint w]"
| "sec_fields (Double v) = [float_rank v]"
| "sec_fields (Long_double v) = [float_rank v]"

lemma uint_order:
  fixes v w :: "'a :: len word"
  shows "unat v < unat w \<longleftrightarrow> uint v < uint w" "unat v = unat w \<longleftrightarrow> uint v = uint w"
  using word_less_nat_alt[of v w] word_less_def[of v w] word_unat_eq_iff[of v w] word_uint_eq_iff[of v w] by blast+

lemma ordered_alike_u64:
  "ordered_alike ((8, unat (v :: 64 word)) # cs) (uint v # fs) ((8, unat w) # ds) (uint w # gs) \<longleftrightarrow> (v = w \<longrightarrow> ordered_alike cs fs ds gs)"
  using unat_u64_less[of v] unat_u64_less[of w] by (simp add: uint_order word_uint_eq_iff)

lemma ordered_alike_sec:
  assumes "kind_of s = kind_of t" "sec_fields s = sec_fields t \<Longrightarrow> ordered_alike cs fs ds gs"
  shows "ordered_alike (sec_parts s @ cs) (sec_fields s @ fs) (sec_parts t @ ds) (sec_fields t @ gs)"
  using assms unat_u64_less unat_u128_less by (cases s; cases t) (simp_all add: uint_order float_key_order[unfolded uint_order])

lemma append_sec_parts: "append_sec dest s = dest @ encode_parts (sec_parts s)"
  by (cases s) (simp_all add: append_u64_be append_uint_be append_array_be)

section \<open>Keys of a table\<close>

datatype table_key = Primary "64 word" | Primary_to_sec "64 word" sec_key | Secondary sec_key "64 word" | Table_end

primrec table_key_bytes :: "64 word \<Rightarrow> 64 word \<Rightarrow> table_key \<Rightarrow> bytes" where
  "table_key_bytes scope table (Primary p) = create_primary_key scope table p"
| "table_key_bytes scope table (Primary_to_sec p s) = create_primary_to_secondary_key scope table p s"
| "table_key_bytes scope table (Secondary s p) = create_secondary_key scope table s p"
| "table_key_bytes scope table Table_end = create_table_key scope table"

primrec key_fields :: "table_key \<Rightarrow> int list" where
  "key_fields (Primary p) = [uint kt_primary, uint p]"
| "key_fields (Primary_to_sec p s) = [uint kt_primary_to_sec, uint (determine_sec_type (kind_of s)), uint p] @ sec_fields s"
| "key_fields (Secondary s p) = [uint (determine_sec_type (kind_of s))] @ sec_fields s @ [uint p]"
| "key_fields Table_end = [uint kt_table]"

primrec key_parts :: "table_key \<Rightarrow> (nat \<times> nat) list" where
  "key_parts (Primary p) = [(1, unat kt_primary), (8, unat p)]"
| "key_parts (Primary_to_sec p s) = [(1, unat kt_primary_to_sec), (1, unat (determine_sec_type (kind_of s))), (8, unat p)] @ sec_parts s"
| "key_parts (Secondary s p) = [(1, unat (determine_sec_type (kind_of s)))] @ sec_parts s @ [(8, unat p)]"
| "key_parts Table_end = [(1, unat kt_table)]"

lemma be_byte: "be (Suc 0) (unat (b :: 8 word)) = [b]"
  by (simp add: be_def)

lemma table_key_bytes_parts:
  "table_key_bytes scope table k = encode_parts ([(8, unat scope), (8, unat table)] @ key_parts k)"
  by (cases k)
     (simp_all add: create_primary_key_def create_primary_to_secondary_key_def create_secondary_key_def create_table_key_def
       create_prefix_type_key_def prepare_composite_key_def prepare_composite_key_prefix_def append_primary_and_secondary_keys_def
       append_primary_and_secondary_key_types_def append_u64_be append_sec_parts be_byte)

lemma sec_type_distinct: "determine_sec_type k = determine_sec_type k' \<longleftrightarrow> k = k'" "determine_sec_type k \<noteq> kt_primary"
  "determine_sec_type k \<noteq> kt_primary_to_sec" "determine_sec_type k \<noteq> kt_table"
  by (cases k; cases k'; simp add: kt_defs)+

lemma ordered_alike_type:
  "ordered_alike ((Suc 0, unat (b :: 8 word)) # cs) (uint b # fs) ((Suc 0, unat c) # ds) (uint c # gs) \<longleftrightarrow> (b = c \<longrightarrow> ordered_alike cs fs ds gs)"
  using unsigned_less[of b, where 'a = nat] unsigned_less[of c, where 'a = nat] by (simp add: uint_order word_uint_eq_iff)

lemma ordered_alike_keys: "ordered_alike (key_parts k) (key_fields k) (key_parts l) (key_fields l)"
proof -
  have sec: "ordered_alike (sec_parts s) (sec_fields s) (sec_parts t) (sec_fields t)" if "kind_of s = kind_of t" for s t
    using ordered_alike_sec[OF that, of "[]" "[]" "[]" "[]"] by simp
  have sec_prim: "ordered_alike (sec_parts s @ [(8, unat (p :: 64 word))]) (sec_fields s @ [uint p])
      (sec_parts t @ [(8, unat (q :: 64 word))]) (sec_fields t @ [uint q])" if "kind_of s = kind_of t" for s t p q
    by (rule ordered_alike_sec[OF that]) (simp add: ordered_alike_u64 del: ordered_alike.simps(2))
  have kt: "kt_primary \<noteq> kt_primary_to_sec" "kt_primary \<noteq> kt_table" "kt_primary_to_sec \<noteq> kt_table"
    "kt_primary_to_sec \<noteq> kt_primary" "kt_table \<noteq> kt_primary" "kt_table \<noteq> kt_primary_to_sec"
    by (simp_all add: kt_defs)
  note d = sec_type_distinct sec_type_distinct(2-4)[symmetric]
  show ?thesis
    by (cases k; cases l)
       (simp_all add: ordered_alike_type ordered_alike_u64 d kt sec sec_prim del: ordered_alike.simps(2))
qed


section \<open>The next prefix\<close>

lemma next_prefix_rev_snoc:
  "next_prefix_rev (xs @ [b]) = (if next_prefix_rev xs \<noteq> [] then next_prefix_rev xs @ [b] else if b + 1 \<noteq> 0 then [b + 1] else [])"
  by (induction xs) auto

lemma get_next_prefix_Cons:
  "get_next_prefix (b # p) = (if get_next_prefix p \<noteq> [] then b # get_next_prefix p else if b + 1 \<noteq> 0 then [b + 1] else [])"
  by (simp add: get_next_prefix_def next_prefix_rev_snoc)

lemma byte_less_succ:
  fixes b c :: "8 word"
  shows "b + 1 \<noteq> 0 \<Longrightarrow> c < b + 1 \<longleftrightarrow> c \<le> b" "b + 1 = 0 \<Longrightarrow> c \<le> b"
proof -
  show "c < b + 1 \<longleftrightarrow> c \<le> b" if "b + 1 \<noteq> 0"
  proof -
    have "unat (b + 1) = Suc (unat b)"
      using that by (metis Suc_eq_plus1 unat_1 unatSuc add.commute)
    then show ?thesis by (simp add: word_less_nat_alt word_le_nat_alt less_Suc_eq_le)
  qed
  show "c \<le> b" if "b + 1 = 0"
    using that by (metis add_eq_0_iff2 word_n1_ge)
qed

lemma less_blob_simps [simp]: "\<not> less_blob a []" "less_blob [] b \<longleftrightarrow> b \<noteq> []"
  "less_blob (x # a) (y # b) \<longleftrightarrow> x < y \<or> x = y \<and> less_blob a b"
  by (auto simp: less_blob_lexordp neq_Nil_conv)

section \<open>Round trips\<close>

primrec normal_key :: "sec_key \<Rightarrow> sec_key" where
  "normal_key (I64 v) = I64 v"
| "normal_key (I128 v) = I128 v"
| "normal_key (I256 v w) = I256 v w"
| "normal_key (Double v) = Double (if v = signbit then 0 else v)"
| "normal_key (Long_double v) = Long_double (if v = signbit then 0 else v)"

lemma extract_sec_parts: "extract_sec (kind_of s) (encode_parts (sec_parts s) @ r) = Some (normal_key s, r)"
  by (cases s) (simp_all add: extract_u64_be extract_u128_be extract_array_be[OF unat_u128_less unat_u128_less] key_to_float_to_key)

lemma length_sec_parts: "length (encode_parts (sec_parts s)) = sizeof_key (kind_of s)"
  by (cases s) simp_all

lemma extract_composite_key:
  "extract_from_composite_key (be 8 (unat scope) @ be 8 (unat table) @ kt # r) = Inr (scope, table, r, kt)"
  by (simp add: extract_from_composite_key_def extract_from_composite_key_prefix_def extract_u64_be need_def)

lemma extract_composite_key_Inr:
  assumes "extract_from_composite_key bs = Inr (scope, table, r, kt)"
  shows "bs = be 8 (unat scope) @ be 8 (unat table) @ kt # r"
  using assms
  by (auto simp: extract_from_composite_key_def extract_from_composite_key_prefix_def need_def result_simps
      split: option.splits list.splits prod.splits dest!: extract_u64_Some)

lemma get_primary_key_iff: "get_primary_key bs = Inr (Some (scope, table, p)) \<longleftrightarrow> bs = create_primary_key scope table p"
proof
  assume "get_primary_key bs = Inr (Some (scope, table, p))"
  then obtain r where "extract_from_composite_key bs = Inr (scope, table, r, kt_primary)" "extract_u64 r = Some (p, [])"
    by (auto simp: get_primary_key_def need_def result_simps split: if_splits option.splits prod.splits)
  then show "bs = create_primary_key scope table p"
    using extract_composite_key_Inr extract_u64_Some
    by (fastforce simp: create_primary_key_def prepare_composite_key_def prepare_composite_key_prefix_def append_u64_be)
next
  assume "bs = create_primary_key scope table p"
  then show "get_primary_key bs = Inr (Some (scope, table, p))"
    using extract_u64_be[of p "[]"]
    by (simp add: create_primary_key_def prepare_composite_key_def prepare_composite_key_prefix_def append_u64_be
        get_primary_key_def extract_composite_key need_def)
qed

lemma primary_to_secondary_parts:
  "create_primary_to_secondary_key scope table p s = be 8 (unat scope) @ be 8 (unat table) @
     kt_primary_to_sec # determine_sec_type (kind_of s) # be 8 (unat p) @ encode_parts (sec_parts s)"
  "create_secondary_key scope table s p = be 8 (unat scope) @ be 8 (unat table) @
     determine_sec_type (kind_of s) # encode_parts (sec_parts s) @ be 8 (unat p)"
  by (simp_all add: create_primary_to_secondary_key_def create_secondary_key_def prepare_composite_key_def prepare_composite_key_prefix_def
      append_primary_and_secondary_keys_def append_primary_and_secondary_key_types_def append_u64_be append_sec_parts)

lemma secondary_from_primary_to_sec:
  "create_secondary_key_from_primary_to_sec_key (kind_of s) 16 (create_primary_to_secondary_key scope table p s) =
     Inr (create_secondary_key scope table s p)"
  by (simp add: primary_to_secondary_parts create_secondary_key_from_primary_to_sec_key_def validate_primary_to_sec_type_size_def
      validate_primary_to_sec_type_prefix_def locate_trailing_primary_and_secondary_keys_def length_sec_parts nth_append assert_res_def Let_def)


section \<open>Properties\<close>

text \<open>
  C7. Full keys of contract tables compare as byte strings exactly like their parts compare lexicographically: contract, scope,
  table, type of the key, and then the values of the key, where floating-point numbers are ordered by sign and magnitude.
  In particular the keys of a table are contiguous, and its end key comes after all its other keys.
\<close>

theorem db_key_order:
  "less_blob (create_full_key (table_key_bytes scope table k) code) (create_full_key (table_key_bytes scope' table' k') code') \<longleftrightarrow>
   ord_class.lexordp ([uint code, uint scope, uint table] @ key_fields k) ([uint code', uint scope', uint table'] @ key_fields k')"
proof -
  let ?parts = "\<lambda>code scope table k. (8, unat code) # (8, unat scope) # (8, unat table) # key_parts k"
  have bytes: "create_full_key (table_key_bytes s t k) c = rocksdb_contract_db_prefix # encode_parts (?parts c s t k)" for c s t k
    by (simp add: create_full_key_def table_key_bytes_parts append_u64_be)
  have "ordered_alike (?parts code scope table k) (uint code # uint scope # uint table # key_fields k)
      (?parts code' scope' table' k') (uint code' # uint scope' # uint table' # key_fields k')"
    by (simp add: ordered_alike_u64 ordered_alike_keys del: ordered_alike.simps(2))
  from ordered_alike_lexordp[OF this] show ?thesis
    by (simp add: bytes less_blob_lexordp)
qed

text \<open>
  C21. Every kind of key is read back from the bytes that were written for it, except that a negative zero becomes a positive one;
  a primary key is read exactly from its own encoding; and the key from a primary to a secondary key is turned into the secondary key.
\<close>

theorem db_key_roundtrip:
  "(get_primary_key bs = Inr (Some (scope, table, p)) \<longleftrightarrow> bs = create_primary_key scope table p) \<and>
   get_secondary_key (kind_of s) (create_secondary_key scope table s p) = Inr (Some (scope, table, normal_key s, p)) \<and>
   get_primary_to_secondary_keys (kind_of s) (create_primary_to_secondary_key scope table p s) = Inr (Valid_type scope table p (normal_key s)) \<and>
   create_secondary_key_from_primary_to_sec_key (kind_of s) prefix_size_bytes (create_primary_to_secondary_key scope table p s) =
     Inr (create_secondary_key scope table s p) \<and>
   get_table_key (create_table_key scope table) = Inr (Some (scope, table))"
proof (intro conjI get_primary_key_iff)
  show "get_secondary_key (kind_of s) (create_secondary_key scope table s p) = Inr (Some (scope, table, normal_key s, p))"
    using extract_u64_be[of p "[]"]
    by (simp add: primary_to_secondary_parts get_secondary_key_def extract_composite_key extract_sec_parts need_def)
  show "get_primary_to_secondary_keys (kind_of s) (create_primary_to_secondary_key scope table p s) =
      Inr (Valid_type scope table p (normal_key s))"
    using extract_sec_parts[of s "[]"]
    by (simp add: primary_to_secondary_parts get_primary_to_secondary_keys_def extract_composite_key extract_u64_be need_def)
  show "create_secondary_key_from_primary_to_sec_key (kind_of s) prefix_size_bytes (create_primary_to_secondary_key scope table p s) =
      Inr (create_secondary_key scope table s p)"
    using secondary_from_primary_to_sec by (simp add: prefix_size_bytes_def)
  show "get_table_key (create_table_key scope table) = Inr (Some (scope, table))"
    by (simp add: get_table_key_def create_table_key_def create_prefix_type_key_def prepare_composite_key_def
        prepare_composite_key_prefix_def append_u64_be extract_composite_key)
qed

text \<open>
  The parts of a full key are recovered by \<open>parse_full_key\<close>: the contract, the key without it, the scope,
  the table, the type of the key and the prefix up to the type.
\<close>

theorem full_key_parsed:
  "parse_full_key (create_full_key (table_key_bytes scope table k) code) =
     Inr \<lparr>fk_db_type = rocksdb_contract_db_prefix, fk_contract = Some code, fk_legacy_key = Some (table_key_bytes scope table k),
          fk_scope = Some scope, fk_table = Some table, fk_kt = Some (of_int (hd (key_fields k))),
          fk_type_prefix = create_prefix_type_key scope table (of_int (hd (key_fields k)))\<rparr>"
proof -
  let ?kt = "of_int (hd (key_fields k)) :: 8 word"
  obtain r where k: "encode_parts (key_parts k) = ?kt # r"
    by (cases k) (simp_all add: be_byte)
  have "extract_u64 (be 8 (unat code)) = Some (code, [])"
    using extract_u64_be[of code "[]"] by simp
  then show ?thesis
    by (simp add: parse_full_key_def create_full_key_def append_u64_be table_key_bytes_parts k extract_composite_key need_def assert_res_def
        Let_def create_prefix_type_key_def prepare_composite_key_def prepare_composite_key_prefix_def)
qed

text \<open>
  The keys that start with a prefix are exactly those from the prefix up to, and not including, the next prefix; if there is no
  next prefix, because the prefix has no byte but the largest, they are all keys from the prefix on.
\<close>

theorem next_prefix_bounds:
  "(\<exists>r. k = p @ r) \<longleftrightarrow> \<not> less_blob k p \<and> (get_next_prefix p = [] \<or> less_blob k (get_next_prefix p))"
proof (induction p arbitrary: k)
  case Nil
  then show ?case by (simp add: get_next_prefix_def)
next
  case (Cons b p)
  show ?case
  proof (cases k)
    case Nil
    then show ?thesis by (simp add: get_next_prefix_Cons)
  next
    case (Cons c l)
    consider (more) "get_next_prefix p \<noteq> []" | (succ) "get_next_prefix p = []" "b + 1 \<noteq> 0" | (last) "get_next_prefix p = []" "b + 1 = 0"
      by blast
    then show ?thesis
      by cases (use Cons.IH[of l] byte_less_succ[of b c] in \<open>auto simp: Cons get_next_prefix_Cons\<close>)
  qed
qed


end
