(* ===== verification/Shared_Bytes.thy ===== *)
theory Shared_Bytes
  imports Db_Key_Properties "HOL-Library.List_Lexorder"
begin

text \<open>
  The byte strings of the sessions over the key-value store (\<^verbatim>\<open>shared_bytes.hpp\<close>). A string is the list of its bytes; its buffer is
  padded with zeros to a multiple of eight bytes, and two strings are compared eight bytes at a time. The tests whether two
  strings share one buffer, which only shorten a comparison, are left out; the empty string is the one without a buffer.
\<close>

section \<open>Comparison of padded buffers\<close>

definition aligned_size :: "64 word \<Rightarrow> 64 word" where
  "aligned_size n = (n + 7) AND NOT 7"

definition sb_size :: "bytes \<Rightarrow> 64 word" where
  "sb_size b = of_nat (length b)"

definition sb_buffer :: "bytes \<Rightarrow> bytes" where
  "sb_buffer b = b @ replicate (unat (aligned_size (sb_size b) - sb_size b)) 0"

definition load_swapped :: "bytes \<Rightarrow> 64 word" where
  "load_swapped buffer = of_nat (le_value (rev (take 8 buffer)))"

fun aligned_loop :: "nat \<Rightarrow> bytes \<Rightarrow> bytes \<Rightarrow> int option" where
  "aligned_loop 0 left right = None"
| "aligned_loop (Suc n) left right =
     (let left_value = load_swapped left; right_value = load_swapped right in
      if left_value = right_value then aligned_loop n (drop 8 left) (drop 8 right)
      else Some (if left_value < right_value then - 1 else 1))"

definition aligned_compare :: "bytes \<Rightarrow> bytes \<Rightarrow> int" where
  "aligned_compare left right =
     (let iterations = unat (min (aligned_size (sb_size left)) (aligned_size (sb_size right))) div 8 in
      case aligned_loop iterations (sb_buffer left) (sb_buffer right) of
        Some r \<Rightarrow> r
      | None \<Rightarrow> sint (sb_size left) - sint (sb_size right))"

definition sb_eq :: "bytes \<Rightarrow> bytes \<Rightarrow> bool" where
  "sb_eq a b \<longleftrightarrow> (if sb_size a \<noteq> sb_size b then False else aligned_compare a b = 0)"

definition sb_less :: "bytes \<Rightarrow> bytes \<Rightarrow> bool" where
  "sb_less a b \<longleftrightarrow> aligned_compare a b < 0"

definition sb_less_eq :: "bytes \<Rightarrow> bytes \<Rightarrow> bool" where
  "sb_less_eq a b \<longleftrightarrow> aligned_compare a b \<le> 0"

definition sb_greater :: "bytes \<Rightarrow> bytes \<Rightarrow> bool" where
  "sb_greater a b \<longleftrightarrow> aligned_compare a b > 0"

definition sb_bool :: "bytes \<Rightarrow> bool" where
  "sb_bool a \<longleftrightarrow> \<not> sb_eq a []"

text \<open>The loop of \<open>next()\<close>, on the reversed bytes, and the removal of the last byte.\<close>

fun sb_next_rev :: "bytes \<Rightarrow> bytes" where
  "sb_next_rev [] = []"
| "sb_next_rev (b # bs) = (if b + 1 \<noteq> 0 then (b + 1) # bs else sb_next_rev bs)"

definition sb_next :: "bytes \<Rightarrow> bytes result" where
  "sb_next b =
     (let buffer = sb_next_rev (rev b) in
      bind_res (assert_res (buffer \<noteq> []) Chain_exception) (\<lambda>_. Inr (rev buffer)))"

definition truncate_key :: "bytes \<Rightarrow> bytes result" where
  "truncate_key key = bind_res (assert_res (key \<noteq> []) Chain_exception) (\<lambda>_. Inr (take (length key - 1) key))"

definition make_shared_bytes :: "bytes list \<Rightarrow> bytes" where
  "make_shared_bytes views = concat views"

section \<open>Padding\<close>

definition pad :: "nat \<Rightarrow> bytes \<Rightarrow> bytes" where
  "pad n b = b @ replicate (n - length b) 0"

lemma pad_simps [simp]: "pad (Suc n) (x # b) = x # pad n b" "pad (Suc n) [] = 0 # pad n []" "pad 0 b = b" "pad n [] = replicate n 0"
  by (simp_all add: pad_def)

lemma not_lexordp_zeros: "length a = n \<Longrightarrow> \<not> ord_class.lexordp a (replicate n (0 :: 8 word))"
proof (induction n arbitrary: a)
  case (Suc n)
  then show ?case by (cases a) auto
qed simp

lemma length_pad: "length b \<le> n \<Longrightarrow> length (pad n b) = n"
  by (simp add: pad_def)

lemma pad_lexordp:
  assumes "length a \<le> n" "length b \<le> n" "length a = n \<or> a1 = []" "length b = n \<or> b1 = []" "ord_class.lexordp (pad n a) (pad n b)"
  shows "ord_class.lexordp (a @ a1) (b @ b1)"
  using assms
proof (induction n arbitrary: a b)
  case (Suc n)
  show ?case
  proof (cases b)
    case Nil
    have "length (pad (Suc n) a) = Suc n"
      using Suc.prems(1) by (rule length_pad)
    then show ?thesis
      using not_lexordp_zeros[of "pad (Suc n) a" "Suc n"] Suc.prems(5) Nil by (simp del: replicate_Suc add: pad_simps(4)[of "Suc n"])
  next
    case (Cons y b')
    then show ?thesis
    proof (cases a)
      case Nil
      then show ?thesis
        using Suc.prems(3) Cons by simp
    next
      case (Cons x a')
      then show ?thesis
        using Suc.prems Suc.IH[of a' b'] \<open>b = y # b'\<close> by auto
    qed
  qed
qed simp

lemma pad_eq:
  assumes "length a \<le> n" "length b \<le> n" "pad n a = pad n b" "length a \<le> length b"
  shows "b = a @ replicate (length b - length a) 0"
  using assms
proof (induction n arbitrary: a b)
  case (Suc n)
  then show ?case
    by (cases a; cases b) (force simp del: pad_simps(4))+
qed simp

lemma unat_aligned_size:
  assumes "unat n + 7 < 2 ^ 64"
  shows "unat (aligned_size n) = (unat n + 7) div 8 * 8"
proof -
  let ?w = "n + 7"
  have w: "unat ?w = unat n + 7"
    using assms by (simp add: unat_word_ariths)
  have m: "(7 :: 64 word) = mask 3"
    by (simp add: mask_eq_exp_minus_1)
  have "x AND NOT 7 = push_bit 3 (drop_bit 3 x)" for x :: "64 word"
    unfolding m by (intro bit_word_eqI) (auto simp: bit_simps)
  then have "aligned_size n = push_bit 3 (drop_bit 3 ?w)"
    by (simp only: aligned_size_def)
  then have a: "aligned_size n = ?w - take_bit 3 ?w"
    using bits_ident[of 3 ?w] by (simp add: eq_diff_eq)
  have t: "unat (take_bit 3 ?w) = unat ?w mod 8"
    by (simp add: take_bit_eq_mod unat_mod)
  then have "take_bit 3 ?w \<le> ?w"
    by (simp add: word_le_nat_alt)
  then show ?thesis
    unfolding a by (simp only: unat_sub t w minus_mod_eq_div_mult)
qed

lemma unat_sb_size: "length b < 2 ^ 64 \<Longrightarrow> unat (sb_size b) = length b"
  by (simp add: sb_size_def unat_of_nat)

lemma unat_aligned_sb_size:
  assumes "length b + 7 < 2 ^ 64"
  shows "unat (aligned_size (sb_size b)) = (length b + 7) div 8 * 8"
  using unat_aligned_size[of "sb_size b"] unat_sb_size[of b] assms by simp

lemma sb_buffer_pad:
  assumes "length b + 7 < 2 ^ 64"
  shows "sb_buffer b = pad ((length b + 7) div 8 * 8) b"
proof -
  have "length b \<le> (length b + 7) div 8 * 8"
    by linarith
  then have "sb_size b \<le> aligned_size (sb_size b)"
    using unat_aligned_sb_size[OF assms] unat_sb_size[of b] assms by (simp add: word_le_nat_alt)
  then have "unat (aligned_size (sb_size b) - sb_size b) = (length b + 7) div 8 * 8 - length b"
    using unat_aligned_sb_size[OF assms] unat_sb_size[of b] assms by (simp only: unat_sub)
  then show ?thesis
    by (simp only: sb_buffer_def pad_def)
qed

lemma load_swapped_take: "load_swapped (take 8 b) = load_swapped b"
  by (simp add: load_swapped_def)

lemma be_le_value: "be (length b) (le_value (rev b)) = b"
  using le_bytes_le_value[of "rev b"] by (simp add: be_def)

lemma load_swapped_order:
  assumes "length a = 8" "length b = 8"
  shows "load_swapped a < load_swapped b \<longleftrightarrow> ord_class.lexordp a b" "load_swapped a = load_swapped b \<longleftrightarrow> a = b"
proof -
  have v: "le_value (rev a) < 256 ^ 8" "le_value (rev b) < 256 ^ 8"
    using le_value_less[of "rev a"] le_value_less[of "rev b"] assms by simp_all
  then have n: "unat (load_swapped a) = le_value (rev a)" "unat (load_swapped b) = le_value (rev b)"
    using assms by (simp_all add: load_swapped_def unat_of_nat)
  have be: "be 8 (le_value (rev a)) = a" "be 8 (le_value (rev b)) = b"
    using be_le_value[of a] be_le_value[of b] assms by simp_all
  show "load_swapped a < load_swapped b \<longleftrightarrow> ord_class.lexordp a b"
    using lexordp_be[OF v, of "[]" "[]"] by (simp add: be word_less_nat_alt n)
  show "load_swapped a = load_swapped b \<longleftrightarrow> a = b"
    using be by (metis n word_unat_eq_iff)
qed

lemma pad_round:
  assumes "a \<noteq> []"
  shows "take 8 (pad ((length a + 7) div 8 * 8) a) = pad 8 (take 8 a)"
    "drop 8 (pad ((length a + 7) div 8 * 8) a) = pad ((length (drop 8 a) + 7) div 8 * 8) (drop 8 a)"
    "(length (drop 8 a) + 7) div 8 = (length a + 7) div 8 - 1"
proof -
  have w: "(length a + 7) div 8 = Suc ((length (drop 8 a) + 7) div 8)"
  proof (cases "length a < 8")
    case True
    then have "(length a + 7) div 8 = 1"
      using assms by (intro div_nat_eqI) (auto simp: Suc_le_eq)
    then show ?thesis using True by simp
  next
    case False
    then have "length a + 7 = length (drop 8 a) + 7 + 8"
      by simp
    then show ?thesis by (metis Suc_eq_plus1 div_add_self2 numeral_eq_Suc zero_neq_numeral)
  qed
  then show "(length (drop 8 a) + 7) div 8 = (length a + 7) div 8 - 1"
    by simp
  show "take 8 (pad ((length a + 7) div 8 * 8) a) = pad 8 (take 8 a)"
    "drop 8 (pad ((length a + 7) div 8 * 8) a) = pad ((length (drop 8 a) + 7) div 8 * 8) (drop 8 a)"
    unfolding w by (cases "length a < 8"; simp add: pad_def)+
qed

lemma prefix_order:
  "\<not> ord_class.lexordp (a @ c) a" "a = a @ c \<longleftrightarrow> c = []" "ord_class.lexordp a (a @ c) \<longleftrightarrow> c \<noteq> []" for a c :: bytes
  by (induction a) (auto simp: neq_Nil_conv)

text \<open>
  When the first eight bytes agree after padding and one string ends there, it is a prefix of the other or the other of it, and their
  lengths decide.
\<close>

lemma last_round:
  assumes "pad 8 (take 8 a) = pad 8 (take 8 b)" "length a < 8 \<or> length b < 8"
  shows "ord_class.lexordp a b \<longleftrightarrow> length a < length b" "a = b \<longleftrightarrow> length a = length b"
proof -
  have *: "\<exists>c. y = x @ c" if "pad 8 (take 8 x) = pad 8 (take 8 y)" "length x < 8 \<or> length y < 8" "length x \<le> length y" for x y :: bytes
  proof -
    have "length x \<le> 8"
      using that(2,3) by linarith
    then have "take 8 x = x"
      by simp
    moreover have "take 8 y = take 8 x @ replicate (length (take 8 y) - length (take 8 x)) 0"
      using that by (intro pad_eq[of _ 8]) auto
    ultimately show ?thesis
      by (metis append_take_drop_id append.assoc)
  qed
  show "ord_class.lexordp a b \<longleftrightarrow> length a < length b" "a = b \<longleftrightarrow> length a = length b"
    using *[OF assms] *[OF assms(1)[symmetric]] assms(2) prefix_order
    by (metis append.right_neutral length_append less_add_same_cancel1 length_greater_0_conv nat_le_linear not_less)+
qed

lemma no_words: "(length a + 7) div 8 = 0 \<longleftrightarrow> a = []"
  by (auto simp: div_eq_0_iff)

lemma aligned_loop_order:
  assumes "n = min ((length a + 7) div 8) ((length b + 7) div 8)" "pa = pad ((length a + 7) div 8 * 8) a" "pb = pad ((length b + 7) div 8 * 8) b"
  shows "((case aligned_loop n pa pb of Some r \<Rightarrow> r | None \<Rightarrow> int (length a) - int (length b)) < 0 \<longleftrightarrow> ord_class.lexordp a b) \<and>
    ((case aligned_loop n pa pb of Some r \<Rightarrow> r | None \<Rightarrow> int (length a) - int (length b)) = 0 \<longleftrightarrow> a = b)"
  using assms
proof (induction n arbitrary: a b pa pb)
  case 0
  then have "a = [] \<or> b = []"
    using no_words by (metis min_def)
  then show ?case
    using 0(1) by (auto simp: neq_Nil_conv)
next
  case (Suc n)
  then have ne: "a \<noteq> []" "b \<noteq> []"
    using no_words by (metis min_0R min_0L nat.distinct(1))+
  let ?A = "pad 8 (take 8 a)" and ?B = "pad 8 (take 8 b)"
  have load: "load_swapped pa = load_swapped ?A" "load_swapped pb = load_swapped ?B"
    using pad_round(1)[OF ne(1)] pad_round(1)[OF ne(2)] load_swapped_take Suc.prems(2,3) by metis+
  have len: "length ?A = 8" "length ?B = 8"
    by (simp_all add: length_pad)
  have lexordp_irreflexive': "\<not> ord_class.lexordp x x" for x :: bytes
    by (rule lexordp_irreflexive) simp
  have pred_min: "n = min (x - 1) (y - 1)" if "Suc n = min x y" for n x y :: nat
    using that by (auto simp: min_def split: if_splits)
  note ord = load_swapped_order[OF len] load_swapped_order[OF len(2,1)]
  have lex: "ord_class.lexordp a b" if "ord_class.lexordp (pad 8 (take 8 a)) (pad 8 (take 8 b))" for a b :: bytes
    using pad_lexordp[OF _ _ _ _ that, of "drop 8 a" "drop 8 b"]
    by (metis append_take_drop_id drop_all length_take linorder_not_le min.absorb2 min.cobounded2 nat_less_le)
  have common_head: "(ord_class.lexordp a b \<longleftrightarrow> ord_class.lexordp (drop 8 a) (drop 8 b)) \<and> (a = b \<longleftrightarrow> drop 8 a = drop 8 b)"
    if "take 8 a = take 8 b"
    using that by (metis append_take_drop_id lexordp_append_leftI lexordp_append_left_rightI lexordp_append_leftD less_irrefl same_append_eq)
  show ?case
  proof (cases "?A = ?B")
    case False
    then consider "ord_class.lexordp ?A ?B" | "ord_class.lexordp ?B ?A"
      using ord by (metis linorder_neqE)
    then show ?thesis
    proof cases
      case 1
      then have "aligned_loop (Suc n) pa pb = Some (- 1)"
        using ord(1,2) False by (simp add: load Let_def)
      then show ?thesis
        using lex[OF 1] lexordp_irreflexive'[of b] by auto
    next
      case 2
      then have "aligned_loop (Suc n) pa pb = Some 1"
        using ord(1-3) False by (auto simp: load Let_def)
      then show ?thesis
        using lex[OF 2] lexordp_irreflexive'[of b] lexordp_antisym[of a b] by auto
    qed
  next
    case True
    then have step: "aligned_loop (Suc n) pa pb = aligned_loop n (drop 8 pa) (drop 8 pb)"
      by (simp add: load)
    show ?thesis
    proof (cases "length a < 8 \<or> length b < 8")
      case True
      then have "n = 0"
        using Suc.prems(1) by auto
      then show ?thesis
        using last_round[OF \<open>?A = ?B\<close> True] unfolding step by auto
    next
      case False
      then have "take 8 a = take 8 b"
        using \<open>?A = ?B\<close> by (simp add: pad_def)
      moreover have "n = min ((length (drop 8 a) + 7) div 8) ((length (drop 8 b) + 7) div 8)"
        unfolding pad_round(3)[OF ne(1)] pad_round(3)[OF ne(2)] by (rule pred_min[OF Suc.prems(1)])
      moreover have "int (length (drop 8 a)) - int (length (drop 8 b)) = int (length a) - int (length b)"
        using False by simp
      ultimately show ?thesis
        using Suc.IH[of "drop 8 a" "drop 8 b", OF _ refl refl] common_head
        unfolding step by (simp only: Suc.prems(2,3) pad_round(2)[OF ne(1)] pad_round(2)[OF ne(2)])
    qed
  qed
qed

lemma less_lexordp: "a < b \<longleftrightarrow> ord_class.lexordp a b" for a b :: bytes
  by (simp add: list_less_def lexordp_conv_lexord)

lemma aligned_compare_order:
  assumes "length a < 2 ^ 62" "length b < 2 ^ 62"
  shows "aligned_compare a b < 0 \<longleftrightarrow> a < b" "aligned_compare a b = 0 \<longleftrightarrow> a = b"
proof -
  have s: "length a + 7 < 2 ^ 64" "length b + 7 < 2 ^ 64"
    using assms by auto
  have "sint (sb_size x) = int (length x)" if "length x < 2 ^ 62" for x
    using that by (simp add: sb_size_def signed_of_nat signed_take_bit_int_eq_self)
  moreover have "unat (min (aligned_size (sb_size a)) (aligned_size (sb_size b))) div 8 = min ((length a + 7) div 8) ((length b + 7) div 8)"
    using unat_aligned_sb_size[OF s(1)] unat_aligned_sb_size[OF s(2)] by (auto simp: min_def word_le_nat_alt)
  ultimately have "aligned_compare a b =
    (case aligned_loop (min ((length a + 7) div 8) ((length b + 7) div 8)) (pad ((length a + 7) div 8 * 8) a) (pad ((length b + 7) div 8 * 8) b) of
       Some r \<Rightarrow> r | None \<Rightarrow> int (length a) - int (length b))"
    using assms unfolding aligned_compare_def Let_def sb_buffer_pad[OF s(1)] sb_buffer_pad[OF s(2)] by presburger
  then show "aligned_compare a b < 0 \<longleftrightarrow> a < b" "aligned_compare a b = 0 \<longleftrightarrow> a = b"
    using aligned_loop_order[OF refl refl refl, of a b] by (simp_all add: less_lexordp)
qed

text \<open>The next string is the next prefix of the keys, which is empty where this one throws.\<close>

lemma sb_next_get_next_prefix: "sb_next b = (if get_next_prefix b = [] then Inl Chain_exception else Inr (get_next_prefix b))"
proof -
  have "sb_next_rev b = next_prefix_rev b" for b
    by (induction b) auto
  then show ?thesis by (simp add: sb_next_def get_next_prefix_def assert_res_def)
qed

text \<open>
  C25. The comparison of two byte strings eight bytes at a time on their padded buffers is the lexicographic order of
  their bytes: the operators for less, at most, greater and equal decide that order, as the keys of the store require.
\<close>
theorem shared_bytes_order:
  assumes "length a < 2 ^ 62" "length b < 2 ^ 62"
  shows "(sb_less a b \<longleftrightarrow> a < b) \<and> (sb_less_eq a b \<longleftrightarrow> a \<le> b) \<and> (sb_greater a b \<longleftrightarrow> b < a) \<and> (sb_eq a b \<longleftrightarrow> a = b) \<and>
    (sb_less a b \<longleftrightarrow> less_blob a b) \<and> (sb_bool a \<longleftrightarrow> a \<noteq> [])"
proof -
  note o = aligned_compare_order[OF assms]
  have g: "aligned_compare a b > 0 \<longleftrightarrow> b < a"
    using o by (metis linorder_neqE less_asym less_irrefl)
  have "sb_eq a []" if "a = []"
    using that by (simp add: sb_eq_def aligned_compare_def sb_size_def Let_def aligned_size_def)
  moreover have "a = []" if "sb_eq a []"
    using that aligned_compare_order(2)[OF assms(1), of "[]"] by (simp add: sb_eq_def split: if_splits)
  moreover have "sb_eq a b \<longleftrightarrow> a = b"
    using o by (auto simp: sb_eq_def)
  ultimately show ?thesis
    using o g by (auto simp: sb_less_def sb_less_eq_def sb_greater_def sb_bool_def less_blob_lexordp less_lexordp order_le_less
        simp flip: less_lexordp)
qed

theorem shared_bytes_order_witness:
  "sb_less [1, 0] [1, 0, 0] \<and> length [1, 0 :: 8 word] < 2 ^ 62"
  using shared_bytes_order[of "[1, 0]" "[1, 0, 0]"] by (simp add: less_lexordp)

end
