(* ===== verification/Kv_Session.thy ===== *)
theory Kv_Session
  imports Shared_Bytes
begin

text \<open>
  Sessions over the key-value store (\<^verbatim>\<open>session.hpp\<close>, \<^verbatim>\<open>rocks_session.hpp\<close>): a session caches the pairs it has read, written or
  erased above a parent, which is another session or the RocksDB session. The template parameter is a record of the operations
  of the parent, each with the state of the parent passed through, because a read of the parent may extend its cache.

  The cache is the list of its entries in key order, as \<open>std::map\<close> keeps them. An iterator is its position, none for the end,
  and the version it was created with. RocksDB is the ordered list of its pairs; errors of its files are not modelled, and the
  pool of its iterators, which only saves their construction, is left out. The order of keys is that of
  \<^verbatim>\<open>shared_bytes\<close>, which is the lexicographic order of bytes.
\<close>

section \<open>Ordered association lists\<close>

definition first_key :: "('a \<times> 'b) list \<Rightarrow> 'a option" where
  "first_key c = map_option fst (find (\<lambda>_. True) c)"

definition last_key :: "('a \<times> 'b) list \<Rightarrow> 'a option" where
  "last_key c = first_key (rev c)"

definition key_from :: "'a :: linorder \<Rightarrow> ('a \<times> 'b) list \<Rightarrow> 'a option" where
  "key_from k c = map_option fst (find (\<lambda>p. k \<le> fst p) c)"

definition key_after :: "'a :: linorder \<Rightarrow> ('a \<times> 'b) list \<Rightarrow> 'a option" where
  "key_after k c = map_option fst (find (\<lambda>p. k < fst p) c)"

definition key_before :: "'a :: linorder \<Rightarrow> ('a \<times> 'b) list \<Rightarrow> 'a option" where
  "key_before k c = map_option fst (find (\<lambda>p. fst p < k) (rev c))"

definition emplace :: "'a :: linorder \<Rightarrow> 'b \<Rightarrow> ('a \<times> 'b) list \<Rightarrow> ('a \<times> 'b) list" where
  "emplace k v c = (if map_of c k = None then insort_key fst (k, v) c else c)"

definition change_at :: "'a \<Rightarrow> ('b \<Rightarrow> 'b) \<Rightarrow> ('a \<times> 'b) list \<Rightarrow> ('a \<times> 'b) list" where
  "change_at k f c = map (\<lambda>(q, e). (q, if q = k then f e else e)) c"

section \<open>Parents\<close>

type_synonym position = "bytes option"
type_synonym iter = "position \<times> 64 word"

record 's store_ops =
  op_read :: "bytes \<Rightarrow> 's \<Rightarrow> bytes option \<times> 's"
  op_write :: "bytes \<Rightarrow> bytes \<Rightarrow> 's \<Rightarrow> 's"
  op_erase :: "bytes \<Rightarrow> 's \<Rightarrow> 's"
  op_find :: "bytes \<Rightarrow> 's \<Rightarrow> iter \<times> 's"
  op_begin :: "'s \<Rightarrow> iter \<times> 's"
  op_lower_bound :: "bytes \<Rightarrow> 's \<Rightarrow> iter \<times> 's"
  op_next :: "iter \<Rightarrow> 's \<Rightarrow> iter \<times> 's"
  op_prev :: "iter \<Rightarrow> 's \<Rightarrow> iter \<times> 's"
  op_value :: "iter \<Rightarrow> 's \<Rightarrow> bytes option"
  op_keys :: "'s \<Rightarrow> nat"

text \<open>The end iterator, and the key of an iterator, which is empty at the end. \<open>op_keys\<close> bounds the number of keys, for the loops.\<close>

definition end_iter :: iter where
  "end_iter = (None, 0)"

definition iter_key :: "iter \<Rightarrow> bytes" where
  "iter_key it = (case fst it of None \<Rightarrow> [] | Some k \<Rightarrow> k)"

section \<open>The cache of a session\<close>

record value_state =
  next_in_cache :: bool
  previous_in_cache :: bool
  deleted :: bool
  updated :: bool
  version :: "64 word"
  vs_value :: bytes

type_synonym cache = "(bytes \<times> value_state) list"

definition value_state_of :: "bytes \<Rightarrow> value_state" where
  "value_state_of v =
     \<lparr>next_in_cache = False, previous_in_cache = False, deleted = False, updated = False, version = 0, vs_value = v\<rparr>"

definition flag_at :: "(value_state \<Rightarrow> bool) \<Rightarrow> bytes \<Rightarrow> cache \<Rightarrow> bool" where
  "flag_at f k c = (case map_of c k of None \<Rightarrow> False | Some e \<Rightarrow> f e)"

definition version_at :: "position \<Rightarrow> cache \<Rightarrow> 64 word" where
  "version_at pos c = (case pos of None \<Rightarrow> 0 | Some k \<Rightarrow> (case map_of c k of None \<Rightarrow> 0 | Some e \<Rightarrow> version e))"

text \<open>The pair at an iterator of the parent enters the cache, unless its key is there.\<close>

definition emplace_parent :: "'s store_ops \<Rightarrow> iter \<Rightarrow> cache \<Rightarrow> 's \<Rightarrow> cache" where
  "emplace_parent P pit c p =
     (case fst pit of
        None \<Rightarrow> c
      | Some q \<Rightarrow> emplace q (value_state_of (case op_value P pit p of None \<Rightarrow> [] | Some v \<Rightarrow> v)) c)"

definition link :: "bytes \<Rightarrow> bytes \<Rightarrow> cache \<Rightarrow> cache" where
  "link k q c =
     change_at q (\<lambda>e. e\<lparr>previous_in_cache := True\<rparr>) (change_at k (\<lambda>e. e\<lparr>next_in_cache := True\<rparr>) c)"

definition session_previous_key :: "'s store_ops \<Rightarrow> bytes \<Rightarrow> iter \<Rightarrow> iter \<Rightarrow> cache \<Rightarrow> 's \<Rightarrow> cache \<times> 's" where
  "session_previous_key P k pit pbegin c p =
     (if k = [] then (c, p)
      else
        let (c1, p1) =
              (if fst pit \<noteq> fst pbegin
               then let (pit1, p1) = op_prev P pit p; c1 = emplace_parent P pit1 c p1; (pit2, p2) = op_next P pit1 p1 in (c1, p2)
               else (c, p)) in
        case key_before k c1 of
          None \<Rightarrow> (c1, p1)
        | Some q \<Rightarrow> (link q k c1, p1))"

definition session_next_key :: "'s store_ops \<Rightarrow> bytes \<Rightarrow> iter \<Rightarrow> cache \<Rightarrow> 's \<Rightarrow> iter \<times> cache \<times> 's" where
  "session_next_key P k pit c p =
     (if k = [] then (pit, c, p)
      else
        let decrement = (iter_key pit = k);
            (pit1, p1) = (if decrement then op_next P pit p else (pit, p));
            c1 = emplace_parent P pit1 c p1;
            (pit2, p2) = (if decrement then op_prev P pit1 p1 else (pit1, p1)) in
        case key_after k c1 of
          None \<Rightarrow> (pit2, c1, p2)
        | Some q \<Rightarrow> (pit2, link k q c1, p2))"

text \<open>
  A new key between two keys of the cache that are known to be neighbours is linked to both; otherwise the parent is asked for
  its neighbours.
\<close>

definition link_both :: "bytes \<Rightarrow> cache \<Rightarrow> cache" where
  "link_both k c = change_at k (\<lambda>e. e\<lparr>next_in_cache := True, previous_in_cache := True\<rparr>) c"

definition search_neighbours :: "'s store_ops \<Rightarrow> bytes \<Rightarrow> cache \<Rightarrow> 's \<Rightarrow> cache \<times> 's" where
  "search_neighbours P key c p =
     (let (pit, p1) = op_lower_bound P key p;
          (pit2, c2, p2) = session_next_key P key pit c p1;
          (pbegin, p3) = op_begin P p2 in
      session_previous_key P key pit2 pbegin c2 p3)"

definition update_iterator_cache :: "'s store_ops \<Rightarrow> bytes \<Rightarrow> cache \<Rightarrow> 's \<Rightarrow> cache \<times> 's" where
  "update_iterator_cache P key c p =
     (if map_of c key \<noteq> None then (c, p)
      else
        let c1 = emplace key (value_state_of []) c in
        case key_before key c1 of
          Some previous \<Rightarrow>
            if flag_at next_in_cache previous c1 then (link_both key c1, p) else search_neighbours P key c1 p
        | None \<Rightarrow>
            (case key_after key c1 of
               Some nxt \<Rightarrow>
                 if flag_at previous_in_cache nxt c1 then (link_both key c1, p) else search_neighbours P key c1 p
             | None \<Rightarrow> search_neighbours P key c1 p))"

section \<open>Reading and writing\<close>

definition read_parent :: "'s store_ops \<Rightarrow> bytes \<Rightarrow> cache \<Rightarrow> 's \<Rightarrow> bytes option \<times> cache \<times> 's" where
  "read_parent P key c p =
     (let (value, p1) = op_read P key p in
      case value of
        None \<Rightarrow> (None, c, p1)
      | Some v \<Rightarrow>
          let (c2, p2) = update_iterator_cache P key c p1 in
          (Some v, change_at key (\<lambda>e. e\<lparr>vs_value := v\<rparr>) c2, p2))"

definition session_read :: "'s store_ops \<Rightarrow> bytes \<Rightarrow> cache \<Rightarrow> 's \<Rightarrow> bytes option \<times> cache \<times> 's" where
  "session_read P key c p =
     (case map_of c key of
        Some e \<Rightarrow>
          if deleted e then (None, c, p)
          else if vs_value e \<noteq> [] then (Some (vs_value e), c, p)
          else read_parent P key c p
      | None \<Rightarrow> read_parent P key c p)"

definition session_contains :: "'s store_ops \<Rightarrow> bytes \<Rightarrow> cache \<Rightarrow> 's \<Rightarrow> bool \<times> cache \<times> 's" where
  "session_contains P key c p =
     (case map_of c key of
        Some e \<Rightarrow>
          if deleted e then (False, c, p)
          else if vs_value e \<noteq> [] then (True, c, p)
          else (case read_parent P key c p of (v, c', p') \<Rightarrow> (v \<noteq> None, c', p'))
      | None \<Rightarrow> (case read_parent P key c p of (v, c', p') \<Rightarrow> (v \<noteq> None, c', p')))"

definition session_write :: "'s store_ops \<Rightarrow> bytes \<Rightarrow> bytes \<Rightarrow> cache \<Rightarrow> 's \<Rightarrow> cache \<times> 's" where
  "session_write P key value c p =
     (let (c1, p1) = update_iterator_cache P key c p in
      (change_at key (\<lambda>e. e\<lparr>vs_value := value, deleted := False, updated := True\<rparr>) c1, p1))"

definition session_erase :: "'s store_ops \<Rightarrow> bytes \<Rightarrow> cache \<Rightarrow> 's \<Rightarrow> cache \<times> 's" where
  "session_erase P key c p =
     (let (c1, p1) = update_iterator_cache P key c p in
      (change_at key (\<lambda>e. e\<lparr>deleted := True, updated := False, version := version e + 1\<rparr>) c1, p1))"

definition updated_keys :: "cache \<Rightarrow> bytes list" where
  "updated_keys c = map fst (filter (\<lambda>p. updated (snd p)) c)"

definition deleted_keys :: "cache \<Rightarrow> bytes list" where
  "deleted_keys c = map fst (filter (\<lambda>p. deleted (snd p)) c)"

text \<open>Committing: the erased keys first, then the written pairs, in the order of the keys; the sets of the code have no fixed order.\<close>

definition commit_deletes :: "cache \<Rightarrow> bytes list" where
  "commit_deletes c = map fst (filter (\<lambda>p. deleted (snd p)) c)"

definition commit_updates :: "cache \<Rightarrow> (bytes \<times> bytes) list" where
  "commit_updates c = map (\<lambda>(k, e). (k, vs_value e)) (filter (\<lambda>p. \<not> deleted (snd p) \<and> updated (snd p)) c)"

definition session_commit :: "'s store_ops \<Rightarrow> cache \<Rightarrow> 's \<Rightarrow> cache \<times> 's" where
  "session_commit P c p =
     (if c = [] then (c, p)
      else ([], fold (\<lambda>(k, v). op_write P k v) (commit_updates c) (fold (op_erase P) (commit_deletes c) p)))"

section \<open>Iterators\<close>

text \<open>
  The first entry from a position on that is not deleted, and whether the predecessors of all entries passed are in the cache; at the
  end of the cache the second component, which the code reads from the end node, is not used.
\<close>

fun first_not_deleted :: "cache \<Rightarrow> bool \<Rightarrow> position \<times> bool" where
  "first_not_deleted [] known = (None, known)"
| "first_not_deleted ((k, e) # c) known =
     (let known' = (known \<and> previous_in_cache e) in
      if deleted e then first_not_deleted c known' else (Some k, known'))"

text \<open>The loop over an iterator of the parent past the keys that this session has deleted, with fuel.\<close>

fun skip_deleted :: "nat \<Rightarrow> 's store_ops \<Rightarrow> cache \<Rightarrow> iter \<Rightarrow> 's \<Rightarrow> iter \<times> 's" where
  "skip_deleted 0 P c pit p = (end_iter, p)"
| "skip_deleted (Suc fuel) P c pit p =
     (case fst pit of
        None \<Rightarrow> (pit, p)
      | Some k \<Rightarrow>
          if \<not> flag_at deleted k c then (pit, p)
          else let (pit1, p1) = op_next P pit p in skip_deleted fuel P c pit1 p1)"

definition session_find :: "'s store_ops \<Rightarrow> bytes \<Rightarrow> cache \<Rightarrow> 's \<Rightarrow> iter \<times> cache \<times> 's" where
  "session_find P key c p =
     (case map_of c key of
        Some e \<Rightarrow> ((if deleted e then None else Some key, version e), c, p)
      | None \<Rightarrow>
          let (pit, p1) = op_find P key p in
          if fst pit \<noteq> None
          then ((Some key, 0), emplace key (value_state_of (case op_value P pit p1 of None \<Rightarrow> [] | Some v \<Rightarrow> v)) c, p1)
          else (end_iter, c, p1))"

definition session_begin :: "'s store_ops \<Rightarrow> cache \<Rightarrow> 's \<Rightarrow> iter \<times> cache \<times> 's" where
  "session_begin P c p =
     (let (it, previous_in_cache) = first_not_deleted c True in
      if it = None \<or> it \<noteq> first_key c \<and> \<not> previous_in_cache then
        let pending_key = (case it of None \<Rightarrow> [] | Some k \<Rightarrow> k);
            (pit0, p1) = op_begin P p;
            (pit, p2) = skip_deleted (Suc (op_keys P p1)) P c pit0 p1 in
        if fst pit \<noteq> None \<and> iter_key pit < pending_key
        then let c' = emplace_parent P pit c p2 in ((fst pit, version_at (fst pit) c'), c', p2)
        else ((it, version_at it c), c, p2)
      else ((it, version_at it c), c, p))"

definition session_lower_bound :: "'s store_ops \<Rightarrow> bytes \<Rightarrow> cache \<Rightarrow> 's \<Rightarrow> iter \<times> cache \<times> 's" where
  "session_lower_bound P key c p =
     (let (it, previous_in_cache) = first_not_deleted (dropWhile (\<lambda>q. fst q < key) c) True in
      if it = None \<or> it \<noteq> Some key \<and> \<not> previous_in_cache then
        let pending_key = (case it of None \<Rightarrow> [] | Some k \<Rightarrow> k);
            (pit0, p1) = op_lower_bound P key p;
            (pit, p2) = skip_deleted (Suc (op_keys P p1)) P c pit0 p1 in
        if fst pit \<noteq> None \<and> (pending_key = [] \<or> iter_key pit < pending_key)
        then let c' = emplace_parent P pit c p2 in
          ((if flag_at deleted (iter_key pit) c' then None else fst pit, version_at (fst pit) c'), c', p2)
        else ((it, version_at it c), c, p2)
      else ((it, version_at it c), c, p))"

text \<open>
  One step of an iterator. \<open>update_cache_next\<close> and \<open>update_cache_previous\<close> bring the neighbour of the key into the cache, from the
  parent or by linking the neighbour in the cache, and say whether there is one; the loops pass the deleted keys.
\<close>

definition choose_next :: "bytes \<Rightarrow> bytes \<Rightarrow> bytes" where
  "choose_next key pending_key = (if key = [] \<or> pending_key \<noteq> [] \<and> pending_key < key then pending_key else key)"

definition choose_previous :: "bytes \<Rightarrow> bytes \<Rightarrow> bytes" where
  "choose_previous key pending_key = (if key = [] \<or> pending_key \<noteq> [] \<and> pending_key > key then pending_key else key)"

definition update_cache_next :: "'s store_ops \<Rightarrow> bytes \<Rightarrow> cache \<Rightarrow> 's \<Rightarrow> bool \<times> cache \<times> 's" where
  "update_cache_next P k c p =
     (let pending_key = (case key_after k c of None \<Rightarrow> [] | Some q \<Rightarrow> q);
          (pit, p1) = op_lower_bound P k p;
          (pit1, p2) = (if fst pit = Some k then op_next P pit p1 else (pit, p1));
          key = choose_next (iter_key pit1) pending_key in
      if key \<noteq> []
      then (True, link k key (emplace key (value_state_of (case op_value P pit1 p2 of None \<Rightarrow> [] | Some v \<Rightarrow> v)) c), p2)
      else (False, c, p2))"

definition update_cache_previous :: "'s store_ops \<Rightarrow> bytes \<Rightarrow> cache \<Rightarrow> 's \<Rightarrow> bool \<times> cache \<times> 's" where
  "update_cache_previous P k c p =
     (let pending_key = (case key_before k c of None \<Rightarrow> [] | Some q \<Rightarrow> q);
          (pit, p1) = op_lower_bound P k p;
          (pbegin, p2) = op_begin P p1;
          (pit1, p3) = (if fst pit \<noteq> fst pbegin then op_prev P pit p2 else (end_iter, p2));
          key = choose_previous (iter_key pit1) pending_key in
      if key \<noteq> []
      then (True, link key k (emplace key (value_state_of (case op_value P pit1 p3 of None \<Rightarrow> [] | Some v \<Rightarrow> v)) c), p3)
      else (False, c, p3))"

fun move_next_loop :: "nat \<Rightarrow> 's store_ops \<Rightarrow> bytes \<Rightarrow> cache \<Rightarrow> 's \<Rightarrow> position \<times> cache \<times> 's" where
  "move_next_loop 0 P k c p = (None, c, p)"
| "move_next_loop (Suc fuel) P k c p =
     (let (found, c1, p1) = (if flag_at next_in_cache k c then (True, c, p) else update_cache_next P k c p) in
      if \<not> found then (None, c1, p1)
      else
        case key_after k c1 of
          None \<Rightarrow> (None, c1, p1)
        | Some q \<Rightarrow> if flag_at deleted q c1 then move_next_loop fuel P q c1 p1 else (Some q, c1, p1))"

fun move_previous_loop :: "nat \<Rightarrow> 's store_ops \<Rightarrow> position \<Rightarrow> cache \<Rightarrow> 's \<Rightarrow> position \<times> cache \<times> 's" where
  "move_previous_loop 0 P pos c p = (None, c, p)"
| "move_previous_loop (Suc fuel) P pos c p =
     (let (found, c1, p1) =
            (case pos of
               None \<Rightarrow> (True, c, p)
             | Some k \<Rightarrow> if flag_at previous_in_cache k c then (True, c, p) else update_cache_previous P k c p) in
      if \<not> found then (None, c1, p1)
      else
        case (case pos of None \<Rightarrow> last_key c1 | Some k \<Rightarrow> key_before k c1) of
          None \<Rightarrow> (None, c1, p1)
        | Some q \<Rightarrow> if flag_at deleted q c1 then move_previous_loop fuel P (Some q) c1 p1 else (Some q, c1, p1))"

definition session_next :: "'s store_ops \<Rightarrow> iter \<Rightarrow> cache \<Rightarrow> 's \<Rightarrow> iter \<times> cache \<times> 's" where
  "session_next P it c p =
     (case fst it of
        None \<Rightarrow> ((first_key c, snd it), c, p)
      | Some k \<Rightarrow>
          let (pos, c1, p1) = move_next_loop (Suc (length c + op_keys P p)) P k c p in ((pos, snd it), c1, p1))"

definition session_previous :: "'s store_ops \<Rightarrow> iter \<Rightarrow> cache \<Rightarrow> 's \<Rightarrow> iter \<times> cache \<times> 's" where
  "session_previous P it c p =
     (if fst it = first_key c then ((None, snd it), c, p)
      else
        let (pos, c1, p1) = move_previous_loop (Suc (length c + op_keys P p)) P (fst it) c p in ((pos, snd it), c1, p1))"

definition session_value :: "iter \<Rightarrow> cache \<Rightarrow> bytes option" where
  "session_value it c = (case fst it of None \<Rightarrow> None | Some k \<Rightarrow> map_option vs_value (map_of c k))"

definition iterator_deleted :: "iter \<Rightarrow> cache \<Rightarrow> bool" where
  "iterator_deleted it c =
     (case fst it of
        None \<Rightarrow> False
      | Some k \<Rightarrow> (case map_of c k of None \<Rightarrow> False | Some e \<Rightarrow> deleted e \<or> snd it \<noteq> version e))"

text \<open>A session that is attached to a parent takes its first and its last pair.\<close>

definition prime_cache :: "'s store_ops \<Rightarrow> cache \<Rightarrow> 's \<Rightarrow> (cache \<times> 's) result" where
  "prime_cache P c p =
     (let (b, p1) = op_begin P p in
      if fst b = None then Inr (c, p1)
      else
        let c1 = emplace_parent P b c p1; (e, p2) = op_prev P end_iter p1 in
        if op_value P e p2 = None then Inl Bad_optional_access else Inr (emplace_parent P e c1 p2, p2))"

section \<open>The RocksDB session\<close>

type_synonym rocks = "(bytes \<times> bytes) list"

definition rocks_write :: "bytes \<Rightarrow> bytes \<Rightarrow> rocks \<Rightarrow> rocks" where
  "rocks_write k v r = insort_key fst (k, v) (filter (\<lambda>p. fst p \<noteq> k) r)"

definition rocks_erase :: "bytes \<Rightarrow> rocks \<Rightarrow> rocks" where
  "rocks_erase k r = filter (\<lambda>p. fst p \<noteq> k) r"

definition rocks_find :: "bytes \<Rightarrow> rocks \<Rightarrow> position" where
  "rocks_find k r = (if key_from k r = Some k then Some k else None)"

definition rocks_next :: "position \<Rightarrow> rocks \<Rightarrow> position" where
  "rocks_next pos r = (case pos of None \<Rightarrow> first_key r | Some k \<Rightarrow> key_after k r)"

definition rocks_prev :: "position \<Rightarrow> rocks \<Rightarrow> position" where
  "rocks_prev pos r = (case pos of None \<Rightarrow> last_key r | Some k \<Rightarrow> key_before k r)"

definition rocks_value :: "position \<Rightarrow> rocks \<Rightarrow> bytes option" where
  "rocks_value pos r = (case pos of None \<Rightarrow> None | Some k \<Rightarrow> map_of r k)"

section \<open>Levels of sessions\<close>

datatype store = Rocks rocks | Session cache store

fun at_rocks :: "(rocks \<Rightarrow> 'a \<times> rocks) \<Rightarrow> 'a \<Rightarrow> store \<Rightarrow> 'a \<times> store" where
  "at_rocks f d (Rocks r) = (case f r of (x, r') \<Rightarrow> (x, Rocks r'))"
| "at_rocks f d s = (d, s)"

fun at_session :: "(cache \<Rightarrow> store \<Rightarrow> 'a \<times> cache \<times> store) \<Rightarrow> 'a \<Rightarrow> store \<Rightarrow> 'a \<times> store" where
  "at_session f d (Session c p) = (case f c p of (x, c', p') \<Rightarrow> (x, Session c' p'))"
| "at_session f d s = (d, s)"

fun store_keys :: "store \<Rightarrow> nat" where
  "store_keys (Rocks r) = length r"
| "store_keys (Session c p) = length c + store_keys p"

definition rocks_ops :: "store store_ops" where
  "rocks_ops =
     \<lparr>op_read = (\<lambda>k. at_rocks (\<lambda>r. (map_of r k, r)) None),
      op_write = (\<lambda>k v s. snd (at_rocks (\<lambda>r. ((), rocks_write k v r)) () s)),
      op_erase = (\<lambda>k s. snd (at_rocks (\<lambda>r. ((), rocks_erase k r)) () s)),
      op_find = (\<lambda>k. at_rocks (\<lambda>r. ((rocks_find k r, 0), r)) end_iter),
      op_begin = at_rocks (\<lambda>r. ((first_key r, 0), r)) end_iter,
      op_lower_bound = (\<lambda>k. at_rocks (\<lambda>r. ((key_from k r, 0), r)) end_iter),
      op_next = (\<lambda>it. at_rocks (\<lambda>r. ((rocks_next (fst it) r, 0), r)) end_iter),
      op_prev = (\<lambda>it. at_rocks (\<lambda>r. ((rocks_prev (fst it) r, 0), r)) end_iter),
      op_value = (\<lambda>it s. fst (at_rocks (\<lambda>r. (rocks_value (fst it) r, r)) None s)),
      op_keys = store_keys\<rparr>"

definition session_ops :: "store store_ops \<Rightarrow> store store_ops" where
  "session_ops P =
     \<lparr>op_read = (\<lambda>k. at_session (session_read P k) None),
      op_write = (\<lambda>k v s. snd (at_session (\<lambda>c p. ((), session_write P k v c p)) () s)),
      op_erase = (\<lambda>k s. snd (at_session (\<lambda>c p. ((), session_erase P k c p)) () s)),
      op_find = (\<lambda>k. at_session (session_find P k) end_iter),
      op_begin = at_session (session_begin P) end_iter,
      op_lower_bound = (\<lambda>k. at_session (session_lower_bound P k) end_iter),
      op_next = (\<lambda>it. at_session (session_next P it) end_iter),
      op_prev = (\<lambda>it. at_session (session_previous P it) end_iter),
      op_value = (\<lambda>it s. fst (at_session (\<lambda>c p. (session_value it c, c, p)) None s)),
      op_keys = store_keys\<rparr>"

primrec level_ops :: "nat \<Rightarrow> store store_ops" where
  "level_ops 0 = rocks_ops"
| "level_ops (Suc n) = session_ops (level_ops n)"

end
