(* ===== verification/Kv_Session_Laws.thy ===== *)
theory Kv_Session_Laws
  imports Kv_Session
begin

text \<open>
  What a session needs of its parent, as a locale, and the proof that a session over such a parent is one again: reads find the
  value of the last write or erase above the parent, iterators only ever stand on pairs of that view, and no read changes the view.
\<close>

section \<open>Ordered association lists\<close>

abbreviation ordered :: "('a :: linorder \<times> 'b) list \<Rightarrow> bool" where
  "ordered c \<equiv> sorted_wrt (<) (map fst c)"

lemma map_of_emplace: "map_of (emplace k v c) q = (if map_of c k = None \<and> q = k then Some v else map_of c q)"
  by (auto simp: emplace_def map_of_insort_key map_of_eq_None_iff)

lemma ordered_insort_key: "ordered c \<Longrightarrow> fst p \<notin> fst ` set c \<Longrightarrow> ordered (insort_key fst p c)"
  by (induction c) (auto simp: set_insort_key)

lemma ordered_emplace: "ordered c \<Longrightarrow> ordered (emplace k v c)"
  by (simp add: emplace_def map_of_eq_None_iff ordered_insort_key)

lemma fst_change_at [simp]: "map fst (change_at k f c) = map fst c"
  by (induction c) (auto simp: change_at_def)

lemma map_of_change_at: "map_of (change_at k f c) q = (if q = k then map_option f (map_of c q) else map_of c q)"
  by (induction c) (auto simp: change_at_def)

lemma map_of_key: "map_of c k \<noteq> None \<longleftrightarrow> k \<in> fst ` set c"
  by (simp add: map_of_eq_None_iff)

lemma in_fst: "(k, v) \<in> set c \<Longrightarrow> k \<in> fst ` set c"
  by force

lemma map_of_filter_distinct:
  "distinct (map fst c) \<Longrightarrow>
    map_of (filter P c) q = (case map_of c q of None \<Rightarrow> None | Some e \<Rightarrow> if P (q, e) then Some e else None)"
  by (induction c) (auto simp: map_of_eq_None_iff split: option.splits dest: in_fst map_of_SomeD)

lemma map_of_map_values: "map_of (map (\<lambda>(k, e). (k, f e)) c) q = map_option f (map_of c q)"
  by (induction c) auto

lemma find_SomeD: "find P xs = Some x \<Longrightarrow> P x \<and> x \<in> set xs"
  by (induction xs) (auto split: if_splits)

lemma key_position:
  "first_key c = Some q \<Longrightarrow> q \<in> fst ` set c" "last_key c = Some q \<Longrightarrow> q \<in> fst ` set c"
  "key_from k c = Some q \<Longrightarrow> k \<le> q \<and> q \<in> fst ` set c" "key_after k c = Some q \<Longrightarrow> k < q \<and> q \<in> fst ` set c"
  "key_before k c = Some q \<Longrightarrow> q < k \<and> q \<in> fst ` set c"
  by (auto simp: first_key_def last_key_def key_from_def key_after_def key_before_def image_iff dest!: find_SomeD intro: bexI[rotated])

lemma first_key_None [simp]: "first_key c = None \<longleftrightarrow> c = []"
  by (cases c) (auto simp: first_key_def)

lemma key_before_found:
  assumes "ordered c" "a \<in> fst ` set c" "a < k"
  shows "\<exists>q. key_before k c = Some q \<and> a \<le> q"
proof -
  obtain p where p: "find (\<lambda>p. fst p < k) (rev c) = Some p"
    using assms(2,3) by (cases "find (\<lambda>p. fst p < k) (rev c)") (auto simp: find_None_iff)
  have "a \<le> fst p"
    using assms p
  proof (induction c rule: rev_induct)
    case (snoc x c)
    then show ?case
      by (auto simp: sorted_wrt_append less_imp_le split: if_splits)
  qed simp
  then show ?thesis using p by (simp add: key_before_def)
qed

lemma last_key_greatest:
  assumes "ordered c" "a \<in> fst ` set c"
  shows "\<exists>q. last_key c = Some q \<and> a \<le> q"
proof (cases c rule: rev_cases)
  case (snoc d x)
  then show ?thesis
    using assms by (auto simp: last_key_def first_key_def sorted_wrt_append less_imp_le)
qed (use assms in simp)

section \<open>Extensions of a cache\<close>

definition same_entry :: "value_state \<Rightarrow> value_state \<Rightarrow> bool" where
  "same_entry e e' \<longleftrightarrow> deleted e' = deleted e \<and> updated e' = updated e \<and> version e' = version e \<and> vs_value e' = vs_value e"

definition read_entry :: "(bytes \<Rightarrow> bytes option) \<Rightarrow> bytes \<Rightarrow> value_state \<Rightarrow> bool" where
  "read_entry pv k e \<longleftrightarrow> \<not> deleted e \<and> \<not> updated e \<and> pv k = Some (vs_value e)"

definition extends_entry :: "(bytes \<Rightarrow> bytes option) \<Rightarrow> bytes \<Rightarrow> value_state option \<Rightarrow> value_state option \<Rightarrow> bool" where
  "extends_entry pv k o1 o2 =
     (case o1 of
        Some e \<Rightarrow> (case o2 of None \<Rightarrow> False | Some e' \<Rightarrow> same_entry e e')
      | None \<Rightarrow> (case o2 of None \<Rightarrow> True | Some e' \<Rightarrow> read_entry pv k e'))"

text \<open>A cache extends another when it differs only in links and in pairs read from the parent.\<close>

definition cache_ext :: "(bytes \<Rightarrow> bytes option) \<Rightarrow> cache \<Rightarrow> cache \<Rightarrow> bool" where
  "cache_ext pv c c' \<longleftrightarrow> (ordered c \<longrightarrow> ordered c') \<and> (\<forall>k. extends_entry pv k (map_of c k) (map_of c' k))"

lemma extends_entry_refl: "extends_entry pv k x x"
  by (cases x) (auto simp: extends_entry_def same_entry_def)

lemma extends_entry_trans: "extends_entry pv k x y \<Longrightarrow> extends_entry pv k y z \<Longrightarrow> extends_entry pv k x z"
  by (auto simp: extends_entry_def same_entry_def read_entry_def split: option.splits)

lemma cache_ext_refl [simp]: "cache_ext pv c c"
  by (simp add: cache_ext_def extends_entry_refl)

lemma cache_ext_trans: "cache_ext pv c c' \<Longrightarrow> cache_ext pv c' c'' \<Longrightarrow> cache_ext pv c c''"
  unfolding cache_ext_def by (meson extends_entry_trans)

lemma cache_ext_emplace:
  assumes "map_of c q \<noteq> None \<or> pv q = Some v"
  shows "cache_ext pv c (emplace q (value_state_of v) c)"
  using assms
  by (simp add: cache_ext_def map_of_emplace extends_entry_refl ordered_emplace)
     (auto simp: extends_entry_def read_entry_def value_state_of_def)

lemma cache_ext_change:
  assumes "\<And>e. same_entry e (f e)"
  shows "cache_ext pv c (change_at k f c)"
  using assms
  by (simp add: cache_ext_def map_of_change_at extends_entry_refl) (auto simp: extends_entry_def split: option.splits)

lemma cache_ext_link: "cache_ext pv c (link k q c)" "cache_ext pv c (link_both k c)"
  unfolding link_def link_both_def by (intro cache_ext_trans[OF cache_ext_change cache_ext_change] cache_ext_change; simp add: same_entry_def)+

lemma cache_ext_Some:
  "cache_ext pv c c' \<Longrightarrow> map_of c k = Some e \<Longrightarrow> \<exists>e'. map_of c' k = Some e' \<and> same_entry e e'"
  unfolding cache_ext_def extends_entry_def by (auto split: option.splits dest!: spec[of _ k])

lemma cache_ext_None:
  "cache_ext pv c c' \<Longrightarrow> map_of c k = None \<Longrightarrow> map_of c' k = None \<or> (\<exists>e'. map_of c' k = Some e' \<and> read_entry pv k e')"
  unfolding cache_ext_def extends_entry_def by (auto split: option.splits dest!: spec[of _ k])

lemma cache_ext_ordered: "cache_ext pv c c' \<Longrightarrow> ordered c \<Longrightarrow> ordered c'"
  by (simp add: cache_ext_def)

lemma cache_ext_keys:
  assumes "cache_ext pv c c'"
  shows "fst ` set c \<subseteq> fst ` set c'" "fst ` set c' \<subseteq> fst ` set c \<union> dom pv"
proof -
  have "k \<in> fst ` set c'" if "k \<in> fst ` set c" for k
    using that cache_ext_Some[OF assms, of k] by (metis map_of_key option.exhaust option.distinct(1))
  then show "fst ` set c \<subseteq> fst ` set c'" by blast
  have "k \<in> fst ` set c \<union> dom pv" if "k \<in> fst ` set c'" for k
    using that cache_ext_None[OF assms, of k] by (auto simp: read_entry_def simp flip: map_of_key)
  then show "fst ` set c' \<subseteq> fst ` set c \<union> dom pv" by blast
qed

lemma cache_ext_flag: "cache_ext pv c c' \<Longrightarrow> flag_at deleted k c' = flag_at deleted k c"
  using cache_ext_Some[of pv c c' k] cache_ext_None[of pv c c' k]
  by (cases "map_of c k") (auto simp: flag_at_def same_entry_def read_entry_def)

lemma set_dropWhile_subset: "set (dropWhile Q c) \<subseteq> set c"
  by (auto dest: set_dropWhileD)

section \<open>The view of a session\<close>

definition session_view :: "cache \<Rightarrow> (bytes \<Rightarrow> bytes option) \<Rightarrow> bytes \<Rightarrow> bytes option" where
  "session_view c pv k =
     (case map_of c k of None \<Rightarrow> pv k | Some e \<Rightarrow> if deleted e then None else Some (vs_value e))"

definition entry_ok :: "(bytes \<Rightarrow> bytes option) \<Rightarrow> bytes \<Rightarrow> value_state \<Rightarrow> bool" where
  "entry_ok pv k e \<longleftrightarrow>
     (if deleted e then \<not> updated e else if updated e then vs_value e \<noteq> [] else pv k = Some (vs_value e))"

definition cache_ok :: "(bytes \<Rightarrow> bytes option) \<Rightarrow> cache \<Rightarrow> bool" where
  "cache_ok pv c \<longleftrightarrow> ordered c \<and> [] \<notin> fst ` set c \<and> (\<forall>k e. map_of c k = Some e \<longrightarrow> entry_ok pv k e)"

lemma cache_ext_view:
  assumes "cache_ext pv c c'"
  shows "session_view c' pv = session_view c pv"
proof
  fix k
  show "session_view c' pv k = session_view c pv k"
    using cache_ext_Some[OF assms, of k] cache_ext_None[OF assms, of k]
    by (cases "map_of c k") (auto simp: session_view_def same_entry_def read_entry_def)
qed

lemma cache_ext_entry:
  assumes "cache_ext pv c c'" "\<And>e. map_of c k = Some e \<Longrightarrow> entry_ok pv k e" "map_of c' k = Some e"
  shows "entry_ok pv k e"
  using assms(2,3) cache_ext_Some[OF assms(1), of k] cache_ext_None[OF assms(1), of k]
  by (cases "map_of c k") (auto simp: entry_ok_def same_entry_def read_entry_def)

lemma cache_ext_ok:
  assumes "cache_ext pv c c'" "cache_ok pv c" "[] \<notin> dom pv"
  shows "cache_ok pv c'"
proof -
  have "entry_ok pv k e" if "map_of c' k = Some e" for k e
    using cache_ext_entry[OF assms(1) _ that] assms(2) by (auto simp: cache_ok_def)
  then show ?thesis
    using assms cache_ext_ordered[OF assms(1)] cache_ext_keys(2)[OF assms(1)] by (auto simp: cache_ok_def)
qed

text \<open>The erased keys and the written pairs of a cache.\<close>

lemma cache_changes:
  assumes "cache_ok pv c"
  shows "q \<in> set (commit_deletes c) \<longleftrightarrow> (\<exists>e. map_of c q = Some e \<and> deleted e)"
    "map_of (commit_updates c) q = (case map_of c q of None \<Rightarrow> None | Some e \<Rightarrow> if \<not> deleted e \<and> updated e then Some (vs_value e) else None)"
    "distinct (map fst (commit_updates c))" "[] \<notin> set (commit_deletes c)" "\<forall>(k, v)\<in>set (commit_updates c). k \<noteq> [] \<and> v \<noteq> []"
proof -
  let ?upd = "commit_updates c"
  have ok: "ordered c" "[] \<notin> fst ` set c" "\<And>q e. map_of c q = Some e \<Longrightarrow> entry_ok pv q e"
    using assms by (simp_all add: cache_ok_def)
  have d: "distinct (map fst c)"
    using ok(1) strict_sorted_iff by blast
  show "q \<in> set (commit_deletes c) \<longleftrightarrow> (\<exists>e. map_of c q = Some e \<and> deleted e)"
    using d by (auto simp: commit_deletes_def intro: rev_image_eqI)
  show upd: "map_of ?upd q = (case map_of c q of None \<Rightarrow> None | Some e \<Rightarrow> if \<not> deleted e \<and> updated e then Some (vs_value e) else None)" for q
    by (auto simp: commit_updates_def map_of_map_values map_of_filter_distinct[OF d] split: option.splits)
  show du: "distinct (map fst ?upd)"
    using d by (simp add: commit_updates_def comp_def case_prod_unfold distinct_map_filter)
  show "[] \<notin> set (commit_deletes c)"
    using ok(2) by (auto simp: commit_deletes_def dest: in_fst)
  have "k \<noteq> [] \<and> v \<noteq> []" if "(k, v) \<in> set ?upd" for k v
  proof -
    have "map_of ?upd k = Some v"
      using that du by (simp add: map_of_is_SomeI)
    then obtain e where "map_of c k = Some e" "\<not> deleted e" "updated e" "v = vs_value e"
      by (auto simp: upd split: option.splits if_splits)
    then show ?thesis
      using ok(2) ok(3)[of k e] by (auto simp: entry_ok_def dest!: map_of_SomeD dest: in_fst)
  qed
  then show "\<forall>(k, v)\<in>set ?upd. k \<noteq> [] \<and> v \<noteq> []" by blast
qed

lemma cache_changes_view:
  assumes "cache_ok pv c"
  shows "((\<lambda>k. if k \<in> set (commit_deletes c) then None else pv k) ++ map_of (commit_updates c)) = session_view c pv"
    "(\<lambda>k. if k \<in> set (commit_deletes c) then None else (pv ++ map_of (commit_updates c)) k) = session_view c pv"
proof -
  have e: "\<And>k e. map_of c k = Some e \<Longrightarrow> entry_ok pv k e"
    using assms by (simp add: cache_ok_def)
  show "((\<lambda>k. if k \<in> set (commit_deletes c) then None else pv k) ++ map_of (commit_updates c)) = session_view c pv"
    "(\<lambda>k. if k \<in> set (commit_deletes c) then None else (pv ++ map_of (commit_updates c)) k) = session_view c pv"
    using e cache_changes(1,2)[OF assms]
    by (auto simp: fun_eq_iff map_add_def session_view_def entry_ok_def split: option.splits if_splits)
qed

section \<open>Positions in a cache\<close>

definition live_at :: "bytes \<Rightarrow> cache \<Rightarrow> bool" where
  "live_at q c \<longleftrightarrow> (\<exists>e. map_of c q = Some e \<and> \<not> deleted e)"

lemma live_at_iff: "live_at q c \<longleftrightarrow> q \<in> fst ` set c \<and> \<not> flag_at deleted q c"
  by (auto simp: live_at_def flag_at_def simp flip: map_of_key split: option.splits)

lemma live_at_ext: "live_at q c \<Longrightarrow> cache_ext pv c c' \<Longrightarrow> live_at q c'"
  using cache_ext_flag[of pv c c' q] cache_ext_keys(1)[of pv c c'] unfolding live_at_iff by blast

lemma first_not_deleted_in: "first_not_deleted c known = (Some k, b) \<Longrightarrow> \<exists>e. (k, e) \<in> set c \<and> \<not> deleted e"
  by (induction c known rule: first_not_deleted.induct) (auto simp: Let_def split: if_splits)

lemma first_not_deleted_live:
  assumes "ordered c" "set d \<subseteq> set c" "first_not_deleted d known = (Some k, b)"
  shows "live_at k c"
proof -
  obtain e where "(k, e) \<in> set c" "\<not> deleted e"
    using first_not_deleted_in[OF assms(3)] assms(2) by blast
  moreover have "distinct (map fst c)"
    using assms(1) strict_sorted_iff by blast
  ultimately show ?thesis
    by (auto simp: live_at_def)
qed

lemma choose_in:
  assumes "choose_next key pending = x \<or> choose_previous key pending = x" "x \<noteq> []"
  shows "x = key \<or> x = pending"
  using assms by (auto simp: choose_next_def choose_previous_def split: if_splits)

lemma pending_in: "(case key_after k c of None \<Rightarrow> [] | Some q \<Rightarrow> q) = x \<Longrightarrow> x \<noteq> [] \<Longrightarrow> x \<in> fst ` set c"
  "(case key_before k c of None \<Rightarrow> [] | Some q \<Rightarrow> q) = x \<Longrightarrow> x \<noteq> [] \<Longrightarrow> x \<in> fst ` set c"
  using key_position(4)[of k c] key_position(5)[of k c] by (auto split: option.splits)

text \<open>
  The rounds that a loop still needs: a step of an iterator leaves fewer keys before it, so that one more than there are keys suffice.
\<close>

definition above :: "bytes \<Rightarrow> bytes set \<Rightarrow> bytes set" where
  "above a K = {x \<in> K. a < x}"

definition below :: "position \<Rightarrow> bytes set \<Rightarrow> bytes set" where
  "below pos K = {x \<in> K. case pos of None \<Rightarrow> True | Some a \<Rightarrow> x < a}"

lemma above_less: "finite K \<Longrightarrow> q \<in> K \<Longrightarrow> a < q \<Longrightarrow> card (above q K) < card (above a K)"
  by (rule psubset_card_mono) (auto simp: above_def)

lemma below_less: "finite K \<Longrightarrow> q \<in> K \<Longrightarrow> (\<And>a. pos = Some a \<Longrightarrow> q < a) \<Longrightarrow> card (below (Some q) K) < card (below pos K)"
  by (rule psubset_card_mono) (auto simp: below_def split: option.splits)

definition skip_rounds :: "position \<Rightarrow> bytes set \<Rightarrow> nat" where
  "skip_rounds pos K = (case pos of None \<Rightarrow> 1 | Some a \<Rightarrow> 2 + card (above a K))"

section \<open>The contract of a parent\<close>

definition keeps :: "('s \<Rightarrow> bool) \<Rightarrow> ('s \<Rightarrow> bytes \<Rightarrow> bytes option) \<Rightarrow> ('s \<Rightarrow> bytes set) \<Rightarrow> 's \<Rightarrow> 's \<Rightarrow> bool" where
  "keeps ok view keys s s' \<longleftrightarrow> ok s' \<and> view s' = view s \<and> keys s' = keys s"

definition sound :: "'s store_ops \<Rightarrow> ('s \<Rightarrow> bytes \<Rightarrow> bytes option) \<Rightarrow> iter \<Rightarrow> 's \<Rightarrow> bool" where
  "sound P view it s \<longleftrightarrow> (\<forall>q. fst it = Some q \<longrightarrow> view s q \<noteq> None \<and> op_value P it s = view s q)"

locale parent_store =
  fixes P :: "'s store_ops" and ok :: "'s \<Rightarrow> bool" and view :: "'s \<Rightarrow> bytes \<Rightarrow> bytes option" and keys :: "'s \<Rightarrow> bytes set"
  assumes keys_law: "ok s \<Longrightarrow> finite (keys s) \<and> card (keys s) \<le> op_keys P s \<and> dom (view s) \<subseteq> keys s \<and> [] \<notin> keys s"
    and read_law: "ok s \<Longrightarrow> op_read P k s = (ov, s') \<Longrightarrow> ov = view s k \<and> keeps ok view keys s s'"
    and write_law: "ok s \<Longrightarrow> k \<noteq> [] \<Longrightarrow> v \<noteq> [] \<Longrightarrow> ok (op_write P k v s) \<and> view (op_write P k v s) = (view s)(k \<mapsto> v)"
    and erase_law: "ok s \<Longrightarrow> k \<noteq> [] \<Longrightarrow> ok (op_erase P k s) \<and> view (op_erase P k s) = (view s)(k := None)"
    and find_law: "ok s \<Longrightarrow> op_find P k s = (it, s') \<Longrightarrow>
      keeps ok view keys s s' \<and> sound P view it s' \<and> fst it = (if view s k = None then None else Some k)"
    and begin_law: "ok s \<Longrightarrow> op_begin P s = (it, s') \<Longrightarrow> keeps ok view keys s s' \<and> sound P view it s'"
    and lower_bound_law: "ok s \<Longrightarrow> op_lower_bound P k s = (it, s') \<Longrightarrow> keeps ok view keys s s' \<and> sound P view it s'"
    and next_law: "ok s \<Longrightarrow> op_next P it s = (it', s') \<Longrightarrow> keeps ok view keys s s' \<and>
      (\<forall>a. fst it = Some a \<longrightarrow> sound P view it' s' \<and> (\<forall>q. fst it' = Some q \<longrightarrow> a < q))"
    and prev_law: "ok s \<Longrightarrow> op_prev P it s = (it', s') \<Longrightarrow> keeps ok view keys s s' \<and> sound P view it' s'"
    and prev_end_law: "ok s \<Longrightarrow> op_begin P s = (b, s1) \<Longrightarrow> fst b \<noteq> None \<Longrightarrow> op_prev P end_iter s1 = (e, s2) \<Longrightarrow> fst e \<noteq> None"
begin

abbreviation keeps_view :: "'s \<Rightarrow> 's \<Rightarrow> bool" where
  "keeps_view \<equiv> keeps ok view keys"

text \<open>A step of a session that only reads the parent and extends the cache.\<close>

definition reads :: "cache \<Rightarrow> 's \<Rightarrow> cache \<Rightarrow> 's \<Rightarrow> bool" where
  "reads c p c' p' \<longleftrightarrow> keeps_view p p' \<and> cache_ext (view p) c c'"

lemma reads_trans: "reads c p c1 p1 \<Longrightarrow> reads c1 p1 c2 p2 \<Longrightarrow> reads c p c2 p2"
  unfolding reads_def keeps_def by (metis cache_ext_trans)

lemma reads_parent: "ok p \<Longrightarrow> keeps_view p p' \<Longrightarrow> reads c p c p'"
  by (simp add: reads_def)

lemma reads_cache: "ok p \<Longrightarrow> cache_ext (view p) c c' \<Longrightarrow> reads c p c' p"
  by (simp add: reads_def keeps_def)

lemma reads_ok: "reads c p c' p' \<Longrightarrow> ok p'"
  by (simp add: reads_def keeps_def)

lemma reads_emplace_parent:
  assumes "ok p" "sound P view pit p"
  shows "reads c p (emplace_parent P pit c p) p"
proof (cases "fst pit")
  case None
  then show ?thesis using assms by (simp add: emplace_parent_def reads_cache)
next
  case (Some q)
  then obtain v where "view p q = Some v" "op_value P pit p = Some v"
    using assms(2) by (auto simp: sound_def)
  then show ?thesis
    using assms Some by (auto simp: emplace_parent_def intro!: reads_cache cache_ext_emplace)
qed

lemma previous_key_reads:
  assumes "ok p" "session_previous_key P k pit pbegin c p = (c', p')"
  shows "reads c p c' p'"
proof (cases "k = [] \<or> fst pit = fst pbegin")
  case True
  then show ?thesis
    using assms
    by (auto simp: session_previous_key_def Let_def split: option.splits if_splits intro!: reads_cache cache_ext_link)
next
  case False
  obtain pit1 p1 where prev: "op_prev P pit p = (pit1, p1)" by fastforce
  obtain pit2 p2 where nxt: "op_next P pit1 p1 = (pit2, p2)" by fastforce
  have p1: "keeps_view p p1" "sound P view pit1 p1" "ok p1"
    using prev_law[OF assms(1) prev] by (auto simp: keeps_def)
  let ?c1 = "emplace_parent P pit1 c p1"
  have "reads c p ?c1 p2"
    using reads_parent[OF assms(1) p1(1)] reads_emplace_parent[OF p1(3,2)] reads_parent[OF p1(3)] next_law[OF p1(3) nxt]
    by (meson reads_trans)
  moreover have "reads ?c1 p2 c' p'"
    using assms(2) False prev nxt reads_ok[OF calculation]
    by (auto simp: session_previous_key_def split: option.splits intro!: reads_cache cache_ext_link)
  ultimately show ?thesis by (rule reads_trans)
qed

lemma next_key_reads:
  assumes "ok p" "sound P view pit p" "session_next_key P k pit c p = (pit', c', p')"
  shows "reads c p c' p'"
proof (cases "k = []")
  case True
  then show ?thesis
    using assms by (simp add: session_next_key_def reads_cache)
next
  case False
  obtain pit1 p1 where nxt: "(if iter_key pit = k then op_next P pit p else (pit, p)) = (pit1, p1)" by fastforce
  obtain pit2 p2 where prev: "(if iter_key pit = k then op_prev P pit1 p1 else (pit1, p1)) = (pit2, p2)" by fastforce
  have p1: "keeps_view p p1" "sound P view pit1 p1" "ok p1"
  proof -
    have "keeps_view p p1 \<and> sound P view pit1 p1"
    proof (cases "iter_key pit = k")
      case True
      then have "fst pit = Some k"
        using False by (simp add: iter_key_def split: option.splits)
      then show ?thesis
        using next_law[OF assms(1)] nxt True by auto
    qed (use nxt assms in \<open>auto simp: keeps_def\<close>)
    then show "keeps_view p p1" "sound P view pit1 p1" "ok p1"
      by (auto simp: keeps_def)
  qed
  have "keeps_view p1 p2"
    using prev prev_law[OF p1(3)] p1(3) by (auto simp: keeps_def split: if_splits)
  then have "reads c p (emplace_parent P pit1 c p1) p2"
    using reads_parent[OF assms(1) p1(1)] reads_emplace_parent[OF p1(3,2)] reads_parent[OF p1(3)] by (meson reads_trans)
  moreover have "reads (emplace_parent P pit1 c p1) p2 c' p'"
    using assms(3) False nxt prev reads_ok[OF calculation]
    by (auto simp: session_next_key_def Let_def split: option.splits prod.splits intro!: reads_cache cache_ext_link)
  ultimately show ?thesis by (rule reads_trans)
qed

lemma search_neighbours_reads:
  assumes "ok p" "search_neighbours P k c p = (c', p')"
  shows "reads c p c' p'"
proof -
  obtain pit p1 where lb: "op_lower_bound P k p = (pit, p1)" by fastforce
  obtain pit2 c2 p2 where nk: "session_next_key P k pit c p1 = (pit2, c2, p2)" by (cases "session_next_key P k pit c p1")
  obtain pbegin p3 where b: "op_begin P p2 = (pbegin, p3)" by fastforce
  have p1: "keeps_view p p1" "sound P view pit p1" "ok p1"
    using lower_bound_law[OF assms(1) lb] by (auto simp: keeps_def)
  have r2: "reads c p1 c2 p2"
    by (rule next_key_reads[OF p1(3,2) nk])
  have r3: "reads c2 p2 c2 p3"
    using begin_law[OF reads_ok[OF r2] b] by (intro reads_parent[OF reads_ok[OF r2]]) simp
  have "session_previous_key P k pit2 pbegin c2 p3 = (c', p')"
    using assms(2) by (simp add: search_neighbours_def lb nk b)
  then have "reads c2 p3 c' p'"
    by (rule previous_key_reads[OF reads_ok[OF r3]])
  then show ?thesis
    using reads_parent[OF assms(1) p1(1)] r2 r3 by (meson reads_trans)
qed

lemma update_iterator_cache_reads:
  assumes "ok p" "update_iterator_cache P k c p = (c', p')"
  shows "reads (emplace k (value_state_of []) c) p c' p'"
proof (cases "map_of c k")
  case None
  then show ?thesis
    using assms search_neighbours_reads[OF assms(1)]
    by (auto simp: update_iterator_cache_def Let_def split: option.splits if_splits intro!: reads_cache cache_ext_link)
next
  case (Some e)
  then show ?thesis
    using assms by (auto simp: update_iterator_cache_def emplace_def reads_cache)
qed

lemma update_iterator_cache_entries:
  assumes "ok p" "update_iterator_cache P k c p = (c', p')"
  shows "keeps_view p p'" "ordered c \<Longrightarrow> ordered c'" "q \<noteq> k \<Longrightarrow> extends_entry (view p) q (map_of c q) (map_of c' q)"
    "\<exists>e. map_of c' k = Some e \<and> same_entry (case map_of c k of None \<Rightarrow> value_state_of [] | Some e0 \<Rightarrow> e0) e"
proof -
  let ?c = "emplace k (value_state_of []) c"
  have r: "keeps_view p p'" "cache_ext (view p) ?c c'"
    using update_iterator_cache_reads[OF assms] by (simp_all add: reads_def)
  show "keeps_view p p'" by (rule r(1))
  show "ordered c'" if "ordered c"
    using cache_ext_ordered[OF r(2)] ordered_emplace[OF that] by blast
  show "extends_entry (view p) q (map_of c q) (map_of c' q)" if "q \<noteq> k"
    using r(2) that by (auto simp: cache_ext_def map_of_emplace dest!: spec[of _ q])
  have "map_of ?c k = Some (case map_of c k of None \<Rightarrow> value_state_of [] | Some e0 \<Rightarrow> e0)"
    by (auto simp: map_of_emplace split: option.splits)
  then show "\<exists>e. map_of c' k = Some e \<and> same_entry (case map_of c k of None \<Rightarrow> value_state_of [] | Some e0 \<Rightarrow> e0) e"
    by (rule cache_ext_Some[OF r(2)])
qed

section \<open>The session over the parent\<close>

definition session_ok :: "cache \<Rightarrow> 's \<Rightarrow> bool" where
  "session_ok c p \<longleftrightarrow> ok p \<and> cache_ok (view p) c"

definition sview :: "cache \<Rightarrow> 's \<Rightarrow> bytes \<Rightarrow> bytes option" where
  "sview c p = session_view c (view p)"

definition skeys :: "cache \<Rightarrow> 's \<Rightarrow> bytes set" where
  "skeys c p = fst ` set c \<union> keys p"

lemma reads_session:
  assumes "session_ok c p" "reads c p c' p'"
  shows "session_ok c' p'" "sview c' p' = sview c p" "skeys c' p' = skeys c p"
proof -
  have r: "ok p'" "view p' = view p" "keys p' = keys p" "cache_ext (view p) c c'"
    using assms(2) by (auto simp: reads_def keeps_def)
  have k: "dom (view p) \<subseteq> keys p" "[] \<notin> dom (view p)"
    using keys_law[of p] assms(1) by (auto simp: session_ok_def)
  show "session_ok c' p'"
    using assms(1) r cache_ext_ok[OF r(4) _ k(2)] by (simp add: session_ok_def)
  show "sview c' p' = sview c p"
    by (simp add: sview_def r(2) cache_ext_view[OF r(4)])
  show "skeys c' p' = skeys c p"
    using cache_ext_keys[OF r(4)] k(1) unfolding skeys_def r(3) by blast
qed

lemma read_parent_law:
  assumes "session_ok c p" "read_parent P k c p = (v, c', p')" "map_of c k = None \<or> (\<exists>e. map_of c k = Some e \<and> read_entry (view p) k e)"
  shows "v = view p k" "reads c p c' p'"
proof -
  have ok: "ok p" "ordered c"
    using assms(1) by (simp_all add: session_ok_def cache_ok_def)
  obtain w p1 where rd: "op_read P k p = (w, p1)" by fastforce
  have w: "w = view p k" "keeps_view p p1" "ok p1" "view p1 = view p"
    using read_law[OF ok(1) rd] by (auto simp: keeps_def)
  obtain c2 p2 where u: "update_iterator_cache P k c p1 = (c2, p2)" by fastforce
  note U = update_iterator_cache_entries[OF w(3) u]
  show "v = view p k"
    using assms(2) by (auto simp: read_parent_def rd w(1) u split: option.splits)
  show "reads c p c' p'"
  proof (cases w)
    case None
    then show ?thesis
      using assms(2) rd w(2) ok by (simp add: read_parent_def reads_parent)
  next
    case (Some x)
    let ?c3 = "change_at k (\<lambda>e. e\<lparr>vs_value := x\<rparr>) c2"
    have "extends_entry (view p) q (map_of c q) (map_of ?c3 q)" for q
    proof (cases "q = k")
      case True
      then show ?thesis
        using assms(3) U(4) w(1) Some
        by (auto simp: map_of_change_at extends_entry_def read_entry_def same_entry_def value_state_of_def)
    qed (use U(3) w(4) in \<open>simp add: map_of_change_at\<close>)
    then have "cache_ext (view p) c ?c3"
      using U(2) by (simp add: cache_ext_def)
    then show ?thesis
      using assms(2) rd Some u w U(1) by (auto simp: read_parent_def reads_def keeps_def)
  qed
qed

lemma session_read_law:
  assumes "session_ok c p" "session_read P k c p = (v, c', p')"
  shows "v = sview c p k" "reads c p c' p'"
proof -
  have ok: "ok p" "\<And>e. map_of c k = Some e \<Longrightarrow> entry_ok (view p) k e"
    using assms(1) by (simp_all add: session_ok_def cache_ok_def)
  have "v = sview c p k \<and> reads c p c' p'"
  proof (cases "map_of c k")
    case None
    then show ?thesis
      using assms(2) read_parent_law[OF assms(1)] by (simp add: session_read_def sview_def session_view_def)
  next
    case (Some e)
    show ?thesis
    proof (cases "deleted e \<or> vs_value e \<noteq> []")
      case True
      then show ?thesis
        using assms(2) Some ok(1) by (auto simp: session_read_def sview_def session_view_def reads_cache split: if_splits)
    next
      case False
      then have e: "read_entry (view p) k e"
        using ok(2)[OF Some] by (auto simp: entry_ok_def read_entry_def split: if_splits)
      have "read_parent P k c p = (v, c', p')"
        using assms(2) Some False by (simp add: session_read_def)
      note R = read_parent_law[OF assms(1) this]
      then show ?thesis
        using e Some False by (simp add: sview_def session_view_def read_entry_def)
    qed
  qed
  then show "v = sview c p k" "reads c p c' p'" by simp_all
qed

lemma session_change_law:
  assumes "session_ok c p" "k \<noteq> []" "update_iterator_cache P k c p = (c1, p1)"
    "\<And>e. entry_ok (view p) k (f e)" "\<And>e. (if deleted (f e) then None else Some (vs_value (f e))) = w"
  shows "session_ok (change_at k f c1) p1" "sview (change_at k f c1) p1 = (sview c p)(k := w)" "view p1 = view p"
proof -
  let ?c = "change_at k f c1"
  have ok: "ok p" "ordered c" "[] \<notin> fst ` set c" "[] \<notin> dom (view p)" "\<And>q e. map_of c q = Some e \<Longrightarrow> entry_ok (view p) q e"
    using assms(1) keys_law[of p] by (auto simp: session_ok_def cache_ok_def)
  note U = update_iterator_cache_entries[OF ok(1) assms(3)]
  obtain e1 where e1: "map_of c1 k = Some e1" using U(4) by blast
  have p1: "ok p1" "view p1 = view p" using U(1) by (simp_all add: keeps_def)
  show "view p1 = view p" by (rule p1(2))
  have ent: "entry_ok (view p) q e" if "map_of ?c q = Some e" for q e
  proof (cases "q = k")
    case False
    then show ?thesis
      using U(3)[OF False] ok(5)[of q] that
      by (auto simp: map_of_change_at extends_entry_def entry_ok_def same_entry_def read_entry_def split: option.splits)
  qed (use that assms(4) in \<open>auto simp: map_of_change_at\<close>)
  have "map_of ?c [] = None"
    using U(3)[of "[]"] assms(2) ok(3,4) map_of_key[of c "[]"]
    by (auto simp: map_of_change_at extends_entry_def read_entry_def split: option.splits)
  then show "session_ok ?c p1"
    using ent U(2)[OF ok(2)] p1 by (simp add: session_ok_def cache_ok_def map_of_eq_None_iff)
  show "sview ?c p1 = (sview c p)(k := w)"
  proof
    fix q
    show "sview ?c p1 q = ((sview c p)(k := w)) q"
    proof (cases "q = k")
      case True
      then show ?thesis
        using e1 assms(5)[of e1] by (simp add: sview_def session_view_def map_of_change_at)
    next
      case False
      then show ?thesis
        using U(3)[OF False]
        by (auto simp: sview_def session_view_def map_of_change_at p1(2) extends_entry_def same_entry_def read_entry_def split: option.splits)
    qed
  qed
qed

lemma session_write_law:
  assumes "session_ok c p" "k \<noteq> []" "v \<noteq> []" "session_write P k v c p = (c', p')"
  shows "session_ok c' p'" "sview c' p' = (sview c p)(k \<mapsto> v)" "view p' = view p"
proof -
  obtain c1 p1 where u: "update_iterator_cache P k c p = (c1, p1)" by fastforce
  show "session_ok c' p'" "sview c' p' = (sview c p)(k \<mapsto> v)" "view p' = view p"
    using session_change_law[OF assms(1,2) u, of "\<lambda>e. e\<lparr>vs_value := v, deleted := False, updated := True\<rparr>" "Some v"] assms(3,4)
    by (auto simp: session_write_def u entry_ok_def)
qed

lemma session_erase_law:
  assumes "session_ok c p" "k \<noteq> []" "session_erase P k c p = (c', p')"
  shows "session_ok c' p'" "sview c' p' = (sview c p)(k := None)" "view p' = view p"
proof -
  obtain c1 p1 where u: "update_iterator_cache P k c p = (c1, p1)" by fastforce
  show "session_ok c' p'" "sview c' p' = (sview c p)(k := None)" "view p' = view p"
    using session_change_law[OF assms(1,2) u, of "\<lambda>e. e\<lparr>deleted := True, updated := False, version := version e + 1\<rparr>" None] assms(3)
    by (auto simp: session_erase_def u entry_ok_def)
qed

lemma fold_erase_law:
  assumes "ok p" "[] \<notin> set ks"
  shows "ok (fold (op_erase P) ks p)" "view (fold (op_erase P) ks p) = (\<lambda>k. if k \<in> set ks then None else view p k)"
  using assms by (induction ks arbitrary: p) (auto simp: erase_law fun_eq_iff)

lemma fold_write_law:
  assumes "ok p" "\<forall>(k, v)\<in>set kvs. k \<noteq> [] \<and> v \<noteq> []" "distinct (map fst kvs)"
  shows "ok (fold (\<lambda>(k, v). op_write P k v) kvs p)"
    "view (fold (\<lambda>(k, v). op_write P k v) kvs p) = view p ++ map_of kvs"
  using assms
  by (induction kvs arbitrary: p) (auto simp: write_law map_add_upd_left dom_map_of_conv_image_fst)

text \<open>Committing a session gives the parent the view of the session.\<close>

lemma session_commit_law:
  assumes "session_ok c p" "session_commit P c p = (c', p')"
  shows "c' = []" "ok p'" "view p' = sview c p"
proof -
  have ok: "ok p" "ordered c" "[] \<notin> fst ` set c" "\<And>q e. map_of c q = Some e \<Longrightarrow> entry_ok (view p) q e"
    using assms(1) by (auto simp: session_ok_def cache_ok_def)
  let ?del = "commit_deletes c" and ?upd = "commit_updates c"
  have "cache_ok (view p) c"
    using assms(1) by (simp add: session_ok_def)
  note del = cache_changes(1)[OF this] and upd = cache_changes(2)[OF this] and du = cache_changes(3)[OF this] and ne = cache_changes(4,5)[OF this]
  note E = fold_erase_law[OF ok(1) ne(1)]
  note W = fold_write_law[OF E(1) ne(2) du]
  have same: "sview [] p = view p"
    by (simp add: fun_eq_iff sview_def session_view_def)
  show "c' = []" "ok p'"
    using assms(2) ok(1) W(1) by (auto simp: session_commit_def split: if_splits)
  show "view p' = sview c p"
  proof (cases "c = []")
    case True
    then show ?thesis using assms(2) same by (simp add: session_commit_def)
  next
    case False
    have "view (fold (op_erase P) ?del p) ++ map_of ?upd = sview c p"
      unfolding E(2) sview_def by (rule cache_changes_view(1)) (use assms(1) in \<open>simp add: session_ok_def\<close>)
    then show ?thesis
      using assms(2) False W(2) by (auto simp: session_commit_def)
  qed
qed

section \<open>Iterators of the session\<close>

lemma live_at_view: "live_at q c \<Longrightarrow> sview c p q \<noteq> None \<and> session_value (Some q, v) c = sview c p q"
  by (auto simp: live_at_def sview_def session_view_def session_value_def)

lemma skip_deleted_law:
  assumes "ok p" "sound P view pit p" "skip_deleted n P c pit p = (pit', p')"
  shows "keeps_view p p' \<and> sound P view pit' p' \<and> (\<forall>q. fst pit' = Some q \<longrightarrow> \<not> flag_at deleted q c)"
  using assms
proof (induction n arbitrary: pit p)
  case 0
  then show ?case by (auto simp: sound_def end_iter_def keeps_def)
next
  case (Suc n)
  show ?case
  proof (cases "\<exists>k. fst pit = Some k \<and> flag_at deleted k c")
    case True
    then obtain k pit1 p1 where k: "fst pit = Some k" "flag_at deleted k c" "op_next P pit p = (pit1, p1)" by fastforce
    then have n: "keeps_view p p1" "sound P view pit1 p1" "ok p1"
      using next_law[OF Suc.prems(1)] by (auto simp: keeps_def)
    moreover have "skip_deleted n P c pit1 p1 = (pit', p')"
      using Suc.prems(3) k by simp
    ultimately show ?thesis
      using Suc.IH[of p1 pit1] by (auto simp: keeps_def)
  next
    case False
    then have "pit' = pit \<and> p' = p"
      using Suc.prems(3) by (auto split: option.splits)
    then show ?thesis
      using False Suc.prems(1,2) by (auto simp: keeps_def)
  qed
qed

text \<open>The pair at an iterator of the parent past the deleted keys, brought into the cache, is live there.\<close>

lemma emplace_parent_live:
  assumes "ok p" "sound P view pit p" "fst pit = Some q" "\<not> flag_at deleted q c"
  shows "live_at q (emplace_parent P pit c p)"
  using assms
  by (auto simp: live_at_def emplace_parent_def map_of_emplace flag_at_def value_state_of_def split: option.splits)

lemma session_find_law:
  assumes "session_ok c p" "session_find P k c p = (it, c', p')"
  shows "reads c p c' p'" "fst it = (if sview c p k = None then None else Some k)" "fst it = Some q \<Longrightarrow> live_at q c'"
proof -
  have ok: "ok p" using assms(1) by (simp add: session_ok_def)
  have "reads c p c' p' \<and> fst it = (if sview c p k = None then None else Some k) \<and> (\<forall>q. fst it = Some q \<longrightarrow> live_at q c')"
  proof (cases "map_of c k")
    case None
    obtain pit p1 where f: "op_find P k p = (pit, p1)" by fastforce
    note F = find_law[OF ok f]
    then have p1: "ok p1" "view p1 = view p" by (auto simp: keeps_def)
    have e: "emplace_parent P pit c p1 = emplace k (value_state_of (case op_value P pit p1 of None \<Rightarrow> [] | Some v \<Rightarrow> v)) c"
      if "fst pit \<noteq> None"
      using that F by (auto simp: emplace_parent_def split: if_splits)
    have "reads c p (emplace_parent P pit c p1) p1" "reads c p c p1"
      using F reads_parent[OF ok] reads_emplace_parent[OF p1(1)] by (meson reads_trans)+
    moreover have "live_at k (emplace_parent P pit c p1)" if "fst pit \<noteq> None"
      unfolding e[OF that] using None by (simp add: live_at_def map_of_emplace value_state_of_def)
    ultimately show ?thesis
      using assms(2) None f F e
      by (auto simp: session_find_def sview_def session_view_def end_iter_def simp del: split_paired_All split: if_splits)
  next
    case (Some e)
    then show ?thesis
      using assms(2) ok by (auto simp: session_find_def sview_def session_view_def reads_cache live_at_def split: if_splits)
  qed
  then show "reads c p c' p'" "fst it = (if sview c p k = None then None else Some k)" "fst it = Some q \<Longrightarrow> live_at q c'"
    by simp_all
qed

lemma session_begin_law:
  assumes "session_ok c p" "session_begin P c p = (it, c', p')"
  shows "reads c p c' p' \<and> (\<forall>q. fst it = Some q \<longrightarrow> live_at q c')"
proof -
  have ok: "ok p" "ordered c" using assms(1) by (simp_all add: session_ok_def cache_ok_def)
  obtain i known where f: "first_not_deleted c True = (i, known)" by fastforce
  have i: "live_at q c" if "i = Some q" for q
    using first_not_deleted_live[OF ok(2) subset_refl] f that by simp
  show ?thesis
  proof (cases "i = None \<or> i \<noteq> first_key c \<and> \<not> known")
    case False
    then have "(it, c', p') = ((i, version_at i c), c, p)"
      using assms(2) f unfolding session_begin_def by (simp only: prod.case if_False Let_def)
    then show ?thesis
      using i ok(1) by (simp add: reads_cache)
  next
    case True
    obtain pit0 p1 where b: "op_begin P p = (pit0, p1)" by fastforce
    obtain pit p2 where sk: "skip_deleted (Suc (op_keys P p1)) P c pit0 p1 = (pit, p2)" by fastforce
    have p1: "keeps_view p p1" "sound P view pit0 p1" "ok p1"
      using begin_law[OF ok(1) b] by (auto simp: keeps_def)
    note S = skip_deleted_law[OF p1(3,2) sk]
    then have p2: "ok p2" "reads c p c p2"
      using p1(1) ok(1) by (auto simp: keeps_def reads_def)
    have "reads c p (emplace_parent P pit c p2) p2"
      using reads_trans[OF p2(2) reads_emplace_parent[OF p2(1)]] S by blast
    moreover have "live_at q (emplace_parent P pit c p2)" if "fst pit = Some q" for q
      using emplace_parent_live[OF p2(1)] S that by blast
    ultimately show ?thesis
      using assms(2) f True b sk p2(2) i by (auto simp: session_begin_def Let_def simp del: skip_deleted.simps split: if_splits)
  qed
qed

lemma session_lower_bound_law:
  assumes "session_ok c p" "session_lower_bound P k c p = (it, c', p')"
  shows "reads c p c' p' \<and> (\<forall>q. fst it = Some q \<longrightarrow> live_at q c')"
proof -
  have ok: "ok p" "ordered c" using assms(1) by (simp_all add: session_ok_def cache_ok_def)
  obtain i known where f: "first_not_deleted (dropWhile (\<lambda>q. fst q < k) c) True = (i, known)" by fastforce
  have i: "live_at q c" if "i = Some q" for q
    using first_not_deleted_live[OF ok(2) set_dropWhile_subset] f that by blast
  show ?thesis
  proof (cases "i = None \<or> i \<noteq> Some k \<and> \<not> known")
    case False
    then show ?thesis
      using assms(2) f i ok(1) by (auto simp: session_lower_bound_def reads_cache)
  next
    case True
    obtain pit0 p1 where b: "op_lower_bound P k p = (pit0, p1)" by fastforce
    obtain pit p2 where sk: "skip_deleted (Suc (op_keys P p1)) P c pit0 p1 = (pit, p2)" by fastforce
    have p1: "keeps_view p p1" "sound P view pit0 p1" "ok p1"
      using lower_bound_law[OF ok(1) b] by (auto simp: keeps_def)
    note S = skip_deleted_law[OF p1(3,2) sk]
    then have p2: "ok p2" "reads c p c p2"
      using p1(1) ok(1) by (auto simp: keeps_def reads_def)
    have "reads c p (emplace_parent P pit c p2) p2"
      using reads_trans[OF p2(2) reads_emplace_parent[OF p2(1)]] S by blast
    moreover have "live_at q (emplace_parent P pit c p2)" if "fst pit = Some q" for q
      using emplace_parent_live[OF p2(1)] S that by blast
    ultimately show ?thesis
      using assms(2) f True b sk p2(2) i by (auto simp: session_lower_bound_def Let_def simp del: skip_deleted.simps split: if_splits)
  qed
qed

lemma chosen_reads:
  assumes "ok p" "sound P view pit p" "k \<noteq> []" "k = iter_key pit \<or> k \<in> fst ` set c"
  shows "reads c p (emplace k (value_state_of (case op_value P pit p of None \<Rightarrow> [] | Some v \<Rightarrow> v)) c) p"
proof (cases "k \<in> fst ` set c")
  case True
  then have "map_of c k \<noteq> None" by (simp only: map_of_key)
  then show ?thesis using assms(1) by (intro reads_cache cache_ext_emplace) simp_all
next
  case False
  then have "fst pit = Some k"
    using assms(3,4) by (auto simp: iter_key_def split: option.splits)
  then have "emplace_parent P pit c p = emplace k (value_state_of (case op_value P pit p of None \<Rightarrow> [] | Some v \<Rightarrow> v)) c"
    by (simp add: emplace_parent_def)
  then show ?thesis using reads_emplace_parent[OF assms(1,2), of c] by simp
qed

lemma update_cache_next_reads:
  assumes "ok p" "update_cache_next P k c p = (found, c', p')"
  shows "reads c p c' p'"
proof -
  obtain pit p1 where lb: "op_lower_bound P k p = (pit, p1)" by fastforce
  obtain pit1 p2 where nx: "(if fst pit = Some k then op_next P pit p1 else (pit, p1)) = (pit1, p2)" by fastforce
  let ?key = "choose_next (iter_key pit1) (case key_after k c of None \<Rightarrow> [] | Some q \<Rightarrow> q)"
  have p1: "keeps_view p p1" "sound P view pit p1" "ok p1"
    using lower_bound_law[OF assms(1) lb] by (auto simp: keeps_def)
  have p2: "keeps_view p1 p2" "sound P view pit1 p2" "ok p2"
    using nx next_law[OF p1(3)] p1 by (auto simp: keeps_def split: if_splits)
  have r: "reads c p c p2"
    using p1 p2 assms(1) by (auto simp: keeps_def reads_def)
  show ?thesis
  proof (cases "?key = []")
    case True
    then show ?thesis
      using assms(2) lb nx r by (auto simp: update_cache_next_def Let_def)
  next
    case False
    have "?key = iter_key pit1 \<or> ?key \<in> fst ` set c"
      using choose_in[OF disjI1[OF refl] False] pending_in(1)[of k c ?key] False by argo
    note e = chosen_reads[OF p2(3,2) False this]
    have "(found, c', p') = (True, link k ?key (emplace ?key (value_state_of (case op_value P pit1 p2 of None \<Rightarrow> [] | Some v \<Rightarrow> v)) c), p2)"
      using assms(2) lb nx False by (auto simp: update_cache_next_def Let_def)
    then show ?thesis
      using reads_trans[OF reads_trans[OF r e] reads_cache[OF p2(3) cache_ext_link(1)]] by simp
  qed
qed

lemma update_cache_previous_reads:
  assumes "ok p" "update_cache_previous P k c p = (found, c', p')"
  shows "reads c p c' p'" "key_before k c = Some q \<Longrightarrow> q \<noteq> [] \<Longrightarrow> found"
proof -
  obtain pit p1 where lb: "op_lower_bound P k p = (pit, p1)" by fastforce
  obtain pb p2 where b: "op_begin P p1 = (pb, p2)" by fastforce
  obtain pit1 p3 where pv: "(if fst pit \<noteq> fst pb then op_prev P pit p2 else (end_iter, p2)) = (pit1, p3)" by fastforce
  let ?key = "choose_previous (iter_key pit1) (case key_before k c of None \<Rightarrow> [] | Some q \<Rightarrow> q)"
  have p1: "keeps_view p p1" "ok p1"
    using lower_bound_law[OF assms(1) lb] by (auto simp: keeps_def)
  have p2: "keeps_view p1 p2" "ok p2"
    using begin_law[OF p1(2) b] by (auto simp: keeps_def)
  have p3: "keeps_view p2 p3" "sound P view pit1 p3" "ok p3"
  proof -
    have "keeps_view p2 p3 \<and> sound P view pit1 p3"
    proof (cases "fst pit = fst pb")
      case True
      then show ?thesis using pv p2(2) by (auto simp: keeps_def sound_def end_iter_def)
    next
      case False
      then show ?thesis using pv prev_law[OF p2(2), of pit pit1 p3] by simp
    qed
    then show "keeps_view p2 p3" "sound P view pit1 p3" "ok p3"
      by (auto simp: keeps_def)
  qed
  have r: "reads c p c p3"
    using p1 p2 p3 assms(1) by (auto simp: keeps_def reads_def)
  have eq: "(found, c', p') = (if ?key \<noteq> []
      then (True, link ?key k (emplace ?key (value_state_of (case op_value P pit1 p3 of None \<Rightarrow> [] | Some v \<Rightarrow> v)) c), p3) else (False, c, p3))"
    using assms(2) lb b pv by (simp add: update_cache_previous_def Let_def)
  show "reads c p c' p'"
  proof (cases "?key = []")
    case False
    have "?key = iter_key pit1 \<or> ?key \<in> fst ` set c"
      using choose_in[OF disjI2[OF refl] False] pending_in(2)[of k c ?key] False by argo
    note e = chosen_reads[OF p3(3,2) False this]
    show ?thesis
      using eq False reads_trans[OF reads_trans[OF r e] reads_cache[OF p3(3) cache_ext_link(1)]] by simp
  qed (use eq r in simp)
  show found if "key_before k c = Some q" "q \<noteq> []"
    using eq that by (auto simp: choose_previous_def split: if_splits)
qed

lemma move_next_law:
  assumes "ok p" "move_next_loop n P k c p = (pos, c', p')"
  shows "reads c p c' p' \<and> (\<forall>q. pos = Some q \<longrightarrow> live_at q c' \<and> k < q)"
  using assms
proof (induction n arbitrary: k c p)
  case (Suc n)
  obtain found c1 p1 where u: "(if flag_at next_in_cache k c then (True, c, p) else update_cache_next P k c p) = (found, c1, p1)"
    by (cases "if flag_at next_in_cache k c then (True, c, p) else update_cache_next P k c p")
  have r: "reads c p c1 p1"
    using u Suc.prems(1) update_cache_next_reads[OF Suc.prems(1)] by (auto simp: reads_cache split: if_splits)
  show ?case
  proof (cases "found \<and> (\<exists>q. key_after k c1 = Some q \<and> flag_at deleted q c1)")
    case True
    then obtain q where q: "key_after k c1 = Some q" "flag_at deleted q c1" by blast
    then have "move_next_loop n P q c1 p1 = (pos, c', p')"
      using Suc.prems(2) u True by simp
    from Suc.IH[OF reads_ok[OF r] this] show ?thesis
      using key_position(4)[OF q(1)] r by (auto intro: reads_trans)
  next
    case False
    then show ?thesis
      using Suc.prems(2) u r key_position(4)[of k c1] by (auto simp: live_at_iff intro: in_fst split: if_splits option.splits)
  qed
qed (simp add: reads_cache)

lemma move_previous_law:
  assumes "ok p" "move_previous_loop n P pos c p = (pos', c', p')"
  shows "reads c p c' p' \<and> (\<forall>q. pos' = Some q \<longrightarrow> live_at q c')"
  using assms
proof (induction n arbitrary: pos c p)
  case (Suc n)
  let ?u = "case pos of None \<Rightarrow> (True, c, p) | Some k \<Rightarrow> if flag_at previous_in_cache k c then (True, c, p) else update_cache_previous P k c p"
  obtain found c1 p1 where u: "?u = (found, c1, p1)" by (cases ?u)
  have r: "reads c p c1 p1"
    using u Suc.prems(1) update_cache_previous_reads(1)[OF Suc.prems(1)] by (auto simp: reads_cache split: if_splits option.splits)
  let ?q = "case pos of None \<Rightarrow> last_key c1 | Some k \<Rightarrow> key_before k c1"
  have q: "q \<in> fst ` set c1" if "?q = Some q" for q
    using that key_position(2)[of c1 q] key_position(5)[of _ c1 q] by (cases pos) simp_all
  show ?case
  proof (cases "found \<and> (\<exists>q. ?q = Some q \<and> flag_at deleted q c1)")
    case True
    then obtain q where "?q = Some q" "flag_at deleted q c1" by blast
    then have "move_previous_loop n P (Some q) c1 p1 = (pos', c', p')"
      using Suc.prems(2) u True by simp
    from Suc.IH[OF reads_ok[OF r] this] show ?thesis
      using r by (meson reads_trans)
  next
    case False
    then show ?thesis
      using Suc.prems(2) u r q by (auto simp: live_at_iff intro: in_fst split: if_splits option.splits)
  qed
qed (simp add: reads_cache)

section \<open>The loops have enough fuel\<close>

lemma skip_deleted_enough:
  assumes "ok p" "sound P view pit p" "skip_rounds (fst pit) (keys p) \<le> n" "n \<le> m"
  shows "skip_deleted m P c pit p = skip_deleted n P c pit p"
  using assms
proof (induction n arbitrary: m pit p)
  case (Suc n)
  then obtain m' where m: "m = Suc m'" "n \<le> m'" by (cases m) auto
  show ?case
  proof (cases "\<exists>k. fst pit = Some k \<and> flag_at deleted k c")
    case True
    then obtain k pit1 p1 where k: "fst pit = Some k" "flag_at deleted k c" "op_next P pit p = (pit1, p1)" by fastforce
    have n: "keys p1 = keys p" "view p1 = view p" "sound P view pit1 p1" "ok p1" "\<And>q. fst pit1 = Some q \<Longrightarrow> k < q"
      using next_law[OF Suc.prems(1) k(3)] k(1) by (auto simp: keeps_def)
    have fin: "finite (keys p)" "dom (view p) \<subseteq> keys p"
      using keys_law[OF Suc.prems(1)] by blast+
    have "skip_rounds (fst pit1) (keys p1) \<le> n"
    proof (cases "fst pit1")
      case (Some q)
      then have "q \<in> keys p"
        using n(2,3) fin(2) by (auto simp: sound_def)
      then show ?thesis
        using above_less[OF fin(1) _ n(5)[OF Some]] Suc.prems(3) k(1) n(1) Some by (simp add: skip_rounds_def)
    qed (use Suc.prems(3) k(1) in \<open>simp add: skip_rounds_def\<close>)
    then show ?thesis
      using Suc.IH[OF n(4,3) _ m(2)] k m(1) by simp
  qed (use m in \<open>auto split: option.splits\<close>)
qed (simp add: skip_rounds_def split: option.splits)

lemma skip_rounds_bound:
  assumes "ok p" "sound P view pit p"
  shows "skip_rounds (fst pit) (keys p) \<le> Suc (op_keys P p)"
proof (cases "fst pit")
  case (Some a)
  have fin: "finite (keys p)" "dom (view p) \<subseteq> keys p" "card (keys p) \<le> op_keys P p"
    using keys_law[OF assms(1)] by blast+
  have "a \<in> keys p"
    using Some assms(2) fin(2) by (auto simp: sound_def)
  then have "card (above a (keys p)) < card (keys p)"
    by (intro psubset_card_mono[OF fin(1)]) (auto simp: above_def)
  then show ?thesis
    using Some fin(3) by (simp add: skip_rounds_def)
qed (simp add: skip_rounds_def)

lemma session_keys_law:
  assumes "session_ok c p"
  shows "finite (skeys c p)" "card (skeys c p) \<le> length c + op_keys P p" "dom (sview c p) \<subseteq> skeys c p" "[] \<notin> skeys c p"
proof -
  have k: "finite (keys p)" "card (keys p) \<le> op_keys P p" "dom (view p) \<subseteq> keys p" "[] \<notin> keys p"
    using keys_law[of p] assms by (auto simp: session_ok_def)
  show "finite (skeys c p)"
    using k(1) by (simp add: skeys_def)
  have "card (fst ` set c) \<le> length c"
    using card_length[of "map fst c"] by simp
  then show "card (skeys c p) \<le> length c + op_keys P p"
    unfolding skeys_def using k(2) card_Un_le[of "fst ` set c" "keys p"] by linarith
  show "dom (sview c p) \<subseteq> skeys c p"
  proof
    fix x
    assume "x \<in> dom (sview c p)"
    then have "map_of c x \<noteq> None \<or> x \<in> dom (view p)"
      by (auto simp: sview_def session_view_def split: option.splits)
    then show "x \<in> skeys c p"
      using k(3) map_of_key[of c x] by (auto simp: skeys_def)
  qed
  show "[] \<notin> skeys c p"
    using k(4) assms by (auto simp: skeys_def session_ok_def cache_ok_def)
qed

lemma move_next_enough:
  assumes "session_ok c p" "Suc (card (above k (skeys c p))) \<le> n" "n \<le> m"
  shows "move_next_loop m P k c p = move_next_loop n P k c p"
  using assms
proof (induction n arbitrary: m k c p)
  case (Suc n)
  then obtain m' where m: "m = Suc m'" "n \<le> m'" by (cases m) auto
  let ?u = "if flag_at next_in_cache k c then (True, c, p) else update_cache_next P k c p"
  obtain found c1 p1 where u: "?u = (found, c1, p1)" by (cases ?u)
  have "ok p" using Suc.prems(1) by (simp add: session_ok_def)
  then have r: "reads c p c1 p1"
    using u update_cache_next_reads by (auto simp: reads_cache split: if_splits)
  note R = reads_session[OF Suc.prems(1) r]
  have "move_next_loop m' P q c1 p1 = move_next_loop n P q c1 p1" if q: "key_after k c1 = Some q" for q
  proof (rule Suc.IH[OF R(1) _ m(2)])
    have "card (above q (skeys c p)) < card (above k (skeys c p))"
      using key_position(4)[OF q] R(3) by (intro above_less session_keys_law(1)[OF Suc.prems(1)]) (auto simp: skeys_def)
    then show "Suc (card (above q (skeys c1 p1))) \<le> n"
      using Suc.prems(2) R(3) by simp
  qed
  then show ?case
    unfolding m(1) move_next_loop.simps u by (auto split: option.splits)
qed simp

lemma move_previous_enough:
  assumes "session_ok c p" "Suc (card (below pos (skeys c p))) \<le> n" "n \<le> m"
  shows "move_previous_loop m P pos c p = move_previous_loop n P pos c p"
  using assms
proof (induction n arbitrary: m pos c p)
  case (Suc n)
  then obtain m' where m: "m = Suc m'" "n \<le> m'" by (cases m) auto
  let ?u = "case pos of None \<Rightarrow> (True, c, p) | Some k \<Rightarrow> if flag_at previous_in_cache k c then (True, c, p) else update_cache_previous P k c p"
  obtain found c1 p1 where u: "?u = (found, c1, p1)" by (cases ?u)
  have "ok p" using Suc.prems(1) by (simp add: session_ok_def)
  then have r: "reads c p c1 p1"
    using u update_cache_previous_reads(1) by (auto simp: reads_cache split: if_splits option.splits)
  note R = reads_session[OF Suc.prems(1) r]
  let ?q = "case pos of None \<Rightarrow> last_key c1 | Some k \<Rightarrow> key_before k c1"
  have step: "move_previous_loop m' P (Some q) c1 p1 = move_previous_loop n P (Some q) c1 p1" if q: "?q = Some q" for q
  proof (rule Suc.IH[OF R(1) _ m(2)])
    have "q \<in> fst ` set c1" "\<And>a. pos = Some a \<Longrightarrow> q < a"
      using q key_position(2)[of c1 q] key_position(5)[of _ c1 q] by (cases pos; simp)+
    then have "card (below (Some q) (skeys c p)) < card (below pos (skeys c p))"
      using R(3) by (intro below_less session_keys_law(1)[OF Suc.prems(1)]) (auto simp: skeys_def)
    then show "Suc (card (below (Some q) (skeys c1 p1))) \<le> n"
      using Suc.prems(2) R(3) by simp
  qed
  show ?case
  proof (cases ?q)
    case None
    then show ?thesis
      unfolding m(1) move_previous_loop.simps u by (simp only: Let_def prod.case option.case)
  next
    case (Some q)
    then show ?thesis
      unfolding m(1) move_previous_loop.simps u by (simp only: Let_def prod.case option.case step[OF Some])
  qed
qed simp

text \<open>From the end, or above a live key, the previous live key is found.\<close>

lemma move_previous_found:
  assumes "session_ok c p" "live_at a c" "\<And>k. pos = Some k \<Longrightarrow> a < k" "Suc (card (below pos (skeys c p))) \<le> n"
    "move_previous_loop n P pos c p = (pos', c', p')"
  shows "pos' \<noteq> None"
  using assms
proof (induction n arbitrary: pos c p)
  case (Suc n)
  let ?u = "case pos of None \<Rightarrow> (True, c, p) | Some k \<Rightarrow> if flag_at previous_in_cache k c then (True, c, p) else update_cache_previous P k c p"
  obtain found c1 p1 where u: "?u = (found, c1, p1)" by (cases ?u)
  have ok: "ok p" "ordered c" "[] \<notin> fst ` set c" using Suc.prems(1) by (simp_all add: session_ok_def cache_ok_def)
  then have r: "reads c p c1 p1"
    using u update_cache_previous_reads(1) by (auto simp: reads_cache split: if_splits option.splits)
  note R = reads_session[OF Suc.prems(1) r]
  have e: "cache_ext (view p) c c1"
    using r by (simp add: reads_def)
  have a1: "live_at a c1" "a \<in> fst ` set c" "a \<in> fst ` set c1" "ordered c1"
    using live_at_ext[OF Suc.prems(2) e] Suc.prems(2) cache_ext_ordered[OF e ok(2)] unfolding live_at_iff by blast+
  have found
  proof (cases pos)
    case (Some k)
    obtain q where q: "key_before k c = Some q"
      using key_before_found[OF ok(2) a1(2) Suc.prems(3)[OF Some]] by blast
    then have "q \<noteq> []"
      using key_position(5)[of k c q] ok(3) by metis
    then show ?thesis
      using u Some update_cache_previous_reads(2)[OF ok(1) _ q] by (auto split: if_splits)
  qed (use u in simp)
  let ?q = "case pos of None \<Rightarrow> last_key c1 | Some k \<Rightarrow> key_before k c1"
  obtain q where q: "?q = Some q" "a \<le> q"
    using last_key_greatest[OF a1(4,3)] key_before_found[OF a1(4,3)] Suc.prems(3) by (cases pos) auto
  show ?case
  proof (cases "flag_at deleted q c1")
    case True
    then have "a < q"
      using q(2) a1(1) by (auto simp: live_at_iff order_le_less)
    have "q \<in> fst ` set c1" "\<And>a. pos = Some a \<Longrightarrow> q < a"
      using q key_position(2)[of c1 q] key_position(5)[of _ c1 q] by (cases pos; simp)+
    then have "card (below (Some q) (skeys c p)) < card (below pos (skeys c p))"
      using R(3) by (intro below_less session_keys_law(1)[OF Suc.prems(1)]) (auto simp: skeys_def)
    then show ?thesis
      using Suc.IH[OF R(1) a1(1), of "Some q"] \<open>a < q\<close> Suc.prems(4,5) R(3) u q(1) True \<open>found\<close> by simp
  next
    case False
    then have "pos' = Some q"
      using Suc.prems(5) u q(1) \<open>found\<close> by simp
    then show ?thesis by simp
  qed
qed simp

section \<open>A session over a parent is a parent\<close>

lemma prime_cache_law:
  assumes "session_ok c p"
  shows "\<exists>c' p'. prime_cache P c p = Inr (c', p') \<and> reads c p c' p'"
proof -
  have ok: "ok p" using assms by (simp add: session_ok_def)
  obtain b p1 where b: "op_begin P p = (b, p1)" by fastforce
  obtain e p2 where e: "op_prev P end_iter p1 = (e, p2)" by fastforce
  have p1: "keeps_view p p1" "sound P view b p1" "ok p1"
    using begin_law[OF ok b] by (auto simp: keeps_def)
  have p2: "keeps_view p1 p2" "sound P view e p2" "ok p2"
    using prev_law[OF p1(3) e] by (auto simp: keeps_def)
  have r: "reads c p c p1" "reads c p1 (emplace_parent P b c p1) p1" "reads d p1 d p2" "reads d p2 (emplace_parent P e d p2) p2" for d
    using reads_parent[OF ok p1(1)] reads_parent[OF p1(3) p2(1)] reads_emplace_parent[OF p1(3,2)] reads_emplace_parent[OF p2(3,2)] by blast+
  show ?thesis
  proof (cases "fst b = None")
    case True
    then show ?thesis using r(1) b by (simp add: prime_cache_def)
  next
    case False
    then obtain q where "fst e = Some q"
      using prev_end_law[OF ok b _ e] by blast
    then have "op_value P e p2 \<noteq> None"
      using p2(2) by (auto simp: sound_def)
    then have "prime_cache P c p = Inr (emplace_parent P e (emplace_parent P b c p1) p2, p2)"
      using False b e by (auto simp: prime_cache_def)
    then show ?thesis
      using reads_trans[OF reads_trans[OF r(1,2)] reads_trans[OF r(3,4)]] by blast
  qed
qed

lemma session_next_law:
  assumes "session_ok c p" "session_next P it c p = (it', c', p')"
  shows "reads c p c' p' \<and> (\<forall>a. fst it = Some a \<longrightarrow> (\<forall>q. fst it' = Some q \<longrightarrow> live_at q c' \<and> a < q))"
proof (cases "fst it")
  case None
  then show ?thesis
    using assms by (auto simp: session_next_def session_ok_def reads_cache)
next
  case (Some k)
  obtain pos c1 p1 where m: "move_next_loop (Suc (length c + op_keys P p)) P k c p = (pos, c1, p1)"
    by (cases "move_next_loop (Suc (length c + op_keys P p)) P k c p")
  have "ok p" using assms(1) by (simp add: session_ok_def)
  note M = move_next_law[OF this m]
  have "it' = (pos, snd it)" "c' = c1" "p' = p1"
    using assms(2) Some m by (simp_all add: session_next_def del: move_next_loop.simps)
  then show ?thesis
    using M Some by simp
qed

lemma session_previous_law:
  assumes "session_ok c p" "session_previous P it c p = (it', c', p')"
  shows "reads c p c' p'" "fst it' = Some q \<Longrightarrow> live_at q c'" "fst it = None \<Longrightarrow> live_at a c \<Longrightarrow> fst it' \<noteq> None"
proof -
  obtain pos c1 p1 where m: "move_previous_loop (Suc (length c + op_keys P p)) P (fst it) c p = (pos, c1, p1)"
    by (cases "move_previous_loop (Suc (length c + op_keys P p)) P (fst it) c p")
  have ok: "ok p" using assms(1) by (simp add: session_ok_def)
  note M = move_previous_law[OF this m]
  have eq: "(it', c', p') = (if fst it = first_key c then ((None, snd it), c, p) else ((pos, snd it), c1, p1))"
    using assms(2) m unfolding session_previous_def by (simp only: Let_def prod.case)
  show "reads c p c' p'" "fst it' = Some q \<Longrightarrow> live_at q c'"
    using eq M ok by (auto simp: reads_cache split: if_splits)
  have "card (below (fst it) (skeys c p)) \<le> length c + op_keys P p"
  proof -
    have "card (below (fst it) (skeys c p)) \<le> card (skeys c p)"
      using session_keys_law(1)[OF assms(1)] by (intro card_mono) (auto simp: below_def)
    then show ?thesis using session_keys_law(2)[OF assms(1)] by linarith
  qed
  then have "pos \<noteq> None" "c \<noteq> []" if "fst it = None" "live_at a c"
    using move_previous_found[OF assms(1) that(2) _ _ m] that by (auto simp: live_at_iff)
  then show "fst it' \<noteq> None" if "fst it = None" "live_at a c"
    using that eq by (auto split: if_splits) (metis first_key_None)
qed

end

section \<open>Levels of sessions\<close>

fun store_view :: "store \<Rightarrow> bytes \<Rightarrow> bytes option" where
  "store_view (Rocks r) = map_of r"
| "store_view (Session c p) = session_view c (store_view p)"

fun all_keys :: "store \<Rightarrow> bytes set" where
  "all_keys (Rocks r) = fst ` set r"
| "all_keys (Session c p) = fst ` set c \<union> all_keys p"

text \<open>A store is well formed with respect to the views of the levels below it, which operations on the top level keep.\<close>

fun store_ok :: "(bytes \<Rightarrow> bytes option) list \<Rightarrow> store \<Rightarrow> bool" where
  "store_ok [] (Rocks r) \<longleftrightarrow> ordered r \<and> [] \<notin> fst ` set r"
| "store_ok (v # vs) (Session c p) \<longleftrightarrow> store_ok vs p \<and> store_view p = v \<and> cache_ok v c"
| "store_ok vs s \<longleftrightarrow> False"

lemma store_ok_Rocks: "store_ok [] s \<longleftrightarrow> (\<exists>r. s = Rocks r \<and> ordered r \<and> [] \<notin> fst ` set r)"
  by (cases s) auto

lemma store_ok_Session:
  "store_ok (v # vs) s \<longleftrightarrow> (\<exists>c p. s = Session c p \<and> store_ok vs p \<and> store_view p = v \<and> cache_ok v c)"
  by (cases s) auto

lemma rocks_ops_simps:
  "op_read rocks_ops k (Rocks r) = (map_of r k, Rocks r)" "op_write rocks_ops k v (Rocks r) = Rocks (rocks_write k v r)"
  "op_erase rocks_ops k (Rocks r) = Rocks (rocks_erase k r)" "op_find rocks_ops k (Rocks r) = ((rocks_find k r, 0), Rocks r)"
  "op_begin rocks_ops (Rocks r) = ((first_key r, 0), Rocks r)" "op_lower_bound rocks_ops k (Rocks r) = ((key_from k r, 0), Rocks r)"
  "op_next rocks_ops it (Rocks r) = ((rocks_next (fst it) r, 0), Rocks r)"
  "op_prev rocks_ops it (Rocks r) = ((rocks_prev (fst it) r, 0), Rocks r)"
  "op_value rocks_ops it (Rocks r) = rocks_value (fst it) r" "op_keys rocks_ops (Rocks r) = length r"
  by (simp_all add: rocks_ops_def)

lemma rocks_sound: "(\<And>q. fst it = Some q \<Longrightarrow> q \<in> fst ` set r) \<Longrightarrow> sound rocks_ops store_view it (Rocks r)"
  unfolding sound_def by (auto simp: rocks_ops_simps rocks_value_def simp flip: map_of_key)

lemma ordered_filter: "ordered c \<Longrightarrow> ordered (filter Q c)"
  by (induction c) auto

lemma rocks_write_ok:
  assumes "ordered r" "[] \<notin> fst ` set r" "k \<noteq> []"
  shows "ordered (rocks_write k v r)" "[] \<notin> fst ` set (rocks_write k v r)" "map_of (rocks_write k v r) = (map_of r)(k \<mapsto> v)"
    "ordered (rocks_erase k r)" "[] \<notin> fst ` set (rocks_erase k r)" "map_of (rocks_erase k r) = (map_of r)(k := None)"
proof -
  have k: "fst (k, v) \<notin> fst ` set (filter (\<lambda>p. fst p \<noteq> k) r)"
    by auto
  then show "ordered (rocks_write k v r)"
    unfolding rocks_write_def by (intro ordered_insort_key ordered_filter assms(1))
  show "[] \<notin> fst ` set (rocks_write k v r)" "[] \<notin> fst ` set (rocks_erase k r)" "ordered (rocks_erase k r)"
    using assms by (auto simp: rocks_write_def rocks_erase_def set_insort_key ordered_filter dest: in_fst)
  show e: "map_of (rocks_erase k r) = (map_of r)(k := None)"
    using map_of_filter_fst[of "\<lambda>x. x \<noteq> k" r] by (auto simp: rocks_erase_def fun_eq_iff)
  show "map_of (rocks_write k v r) = (map_of r)(k \<mapsto> v)"
    using k e unfolding rocks_write_def by (subst map_of_insort_key) (auto simp: rocks_erase_def fun_eq_iff)
qed

lemma key_from_self: "ordered r \<Longrightarrow> k \<in> fst ` set r \<Longrightarrow> key_from k r = Some k"
  by (induction r) (auto simp: key_from_def)

lemma rocks_find_eq: "ordered r \<Longrightarrow> rocks_find k r = (if map_of r k = None then None else Some k)"
  using key_from_self[of r k] key_position(3)[of k r k] map_of_key[of r k] by (auto simp: rocks_find_def)

lemma rocks_positions:
  "rocks_next pos r = Some q \<Longrightarrow> q \<in> fst ` set r" "rocks_next (Some a) r = Some q \<Longrightarrow> a < q" "rocks_prev pos r = Some q \<Longrightarrow> q \<in> fst ` set r"
  using key_position[where c = r and q = q] by (cases pos; simp add: rocks_next_def rocks_prev_def)+

lemma rocks_parent: "parent_store rocks_ops (store_ok []) store_view all_keys"
proof (unfold_locales, goal_cases)
  case (1 s)
  then obtain r where "s = Rocks r" "[] \<notin> fst ` set r"
    by (auto simp: store_ok_Rocks)
  then show ?case
    using card_length[of "map fst r"] by (simp add: rocks_ops_simps dom_map_of_conv_image_fst)
next
  case (5 s k it s')
  then show ?case
    using rocks_find_eq[of _ k] by (auto simp: store_ok_Rocks rocks_ops_simps keeps_def intro!: rocks_sound split: if_splits simp flip: map_of_key)
next
  case (10 s b s1 e s2)
  then obtain r where "s = Rocks r" "first_key r \<noteq> None" "fst e = first_key (rev r)"
    by (auto simp: store_ok_Rocks rocks_ops_simps rocks_prev_def last_key_def end_iter_def simp del: first_key_None)
  then show ?case
    using first_key_None[of r] first_key_None[of "rev r"] by auto
qed (auto simp: store_ok_Rocks rocks_ops_simps keeps_def rocks_write_ok rocks_positions key_position intro!: rocks_sound)

interpretation rocks: parent_store rocks_ops "store_ok []" store_view all_keys
  by (rule rocks_parent)

context parent_store
begin

lemma keeps_session:
  assumes "session_ok c p" "reads c p c' p'"
  shows "session_ok c' p' \<and> sview c' p' = sview c p \<and> skeys c' p' = skeys c p \<and> view p' = view p"
  using reads_session[OF assms] assms(2) by (auto simp: reads_def keeps_def)

end

lemma session_ops_simps:
  "op_read (session_ops P) k (Session c p) = (case session_read P k c p of (v, c', p') \<Rightarrow> (v, Session c' p'))"
  "op_write (session_ops P) k v (Session c p) = (case session_write P k v c p of (c', p') \<Rightarrow> Session c' p')"
  "op_erase (session_ops P) k (Session c p) = (case session_erase P k c p of (c', p') \<Rightarrow> Session c' p')"
  "op_find (session_ops P) k (Session c p) = (case session_find P k c p of (it, c', p') \<Rightarrow> (it, Session c' p'))"
  "op_begin (session_ops P) (Session c p) = (case session_begin P c p of (it, c', p') \<Rightarrow> (it, Session c' p'))"
  "op_lower_bound (session_ops P) k (Session c p) = (case session_lower_bound P k c p of (it, c', p') \<Rightarrow> (it, Session c' p'))"
  "op_next (session_ops P) it (Session c p) = (case session_next P it c p of (it', c', p') \<Rightarrow> (it', Session c' p'))"
  "op_prev (session_ops P) it (Session c p) = (case session_previous P it c p of (it', c', p') \<Rightarrow> (it', Session c' p'))"
  "op_value (session_ops P) it (Session c p) = session_value it c" "op_keys (session_ops P) (Session c p) = length c + store_keys p"
  by (simp_all add: session_ops_def case_prod_unfold)

lemma store_keys_op: "op_keys (level_ops n) = store_keys"
  by (cases n) (simp_all add: rocks_ops_def session_ops_def)

text \<open>Every level is a parent: RocksDB, and by induction the sessions above it.\<close>

lemma session_parent:
  assumes P: "parent_store P (store_ok vs) store_view all_keys" and keys: "op_keys P = store_keys"
  shows "parent_store (session_ops P) (store_ok (v # vs)) store_view all_keys"
proof -
  note ok = parent_store.session_ok_def[OF P] and sv = parent_store.sview_def[OF P] and sk = parent_store.skeys_def[OF P]
  have keeps: "keeps (store_ok (v # vs)) store_view all_keys (Session c p) (Session c' p')"
    if "store_ok (v # vs) (Session c p)" "parent_store.reads (store_ok vs) store_view all_keys c p c' p'" for c p c' p'
    using parent_store.keeps_session[OF P, of c p c' p'] that by (auto simp: keeps_def ok sv sk)
  have sound: "sound (session_ops P) store_view it (Session c p)" if "\<And>q. fst it = Some q \<Longrightarrow> live_at q c" for it c p
    using parent_store.live_at_view[OF P, of _ c p "snd it"] that unfolding sound_def
    by (cases it) (simp add: session_ops_simps sv)
  have session: "parent_store.session_ok (store_ok vs) store_view c p" if "store_ok (v # vs) (Session c p)" for c p
    using that by (auto simp: ok)
  show ?thesis
  proof (unfold_locales, goal_cases)
    case (1 s)
    then obtain c p where "s = Session c p" "parent_store.session_ok (store_ok vs) store_view c p"
      using session by (auto simp: store_ok_Session)
    then show ?case
      using parent_store.session_keys_law[OF P, of c p] by (simp add: session_ops_simps keys sk sv)
  next
    case (2 s k ov s')
    then obtain c p c' p' where "s = Session c p" "store_ok (v # vs) (Session c p)" "s' = Session c' p'" "session_read P k c p = (ov, c', p')"
      by (cases s) (auto simp: session_ops_simps split: prod.splits)
    then show ?case
      using parent_store.session_read_law[OF P session] keeps by (simp add: sv)
  next
    case (3 s k w)
    then obtain c p where s: "s = Session c p" "store_ok (v # vs) (Session c p)"
      by (cases s) auto
    obtain c' p' where w: "session_write P k w c p = (c', p')"
      by (cases "session_write P k w c p")
    show ?case
      using parent_store.session_write_law[OF P session[OF s(2)] 3(2,3) w] s(2) by (simp add: s(1) w session_ops_simps ok sv)
  next
    case (4 s k)
    then obtain c p where s: "s = Session c p" "store_ok (v # vs) (Session c p)"
      by (cases s) auto
    obtain c' p' where w: "session_erase P k c p = (c', p')"
      by (cases "session_erase P k c p")
    show ?case
      using parent_store.session_erase_law[OF P session[OF s(2)] 4(2) w] s(2) by (simp add: s(1) w session_ops_simps ok sv)
  next
    case (5 s k it s')
    then obtain c p c' p' where s: "s = Session c p" "store_ok (v # vs) (Session c p)" "s' = Session c' p'" "session_find P k c p = (it, c', p')"
      by (cases s) (auto simp: session_ops_simps split: prod.splits)
    note L = parent_store.session_find_law[OF P session[OF s(2)] s(4)]
    show ?case
      using keeps[OF s(2) L(1)] sound[of it c', OF L(3)] L(2) unfolding s sv by simp
  next
    case (6 s it s')
    then obtain c p c' p' where s: "s = Session c p" "store_ok (v # vs) (Session c p)" "s' = Session c' p'" "session_begin P c p = (it, c', p')"
      by (cases s) (auto simp: session_ops_simps split: prod.splits)
    note L = parent_store.session_begin_law[OF P session[OF s(2)] s(4)]
    show ?case
      using keeps[OF s(2)] sound[of it c'] L unfolding s by blast
  next
    case (7 s k it s')
    then obtain c p c' p' where s: "s = Session c p" "store_ok (v # vs) (Session c p)" "s' = Session c' p'" "session_lower_bound P k c p = (it, c', p')"
      by (cases s) (auto simp: session_ops_simps split: prod.splits)
    note L = parent_store.session_lower_bound_law[OF P session[OF s(2)] s(4)]
    show ?case
      using keeps[OF s(2)] sound[of it c'] L unfolding s by blast
  next
    case (8 s it it' s')
    then obtain c p c' p' where s: "s = Session c p" "store_ok (v # vs) (Session c p)" "s' = Session c' p'" "session_next P it c p = (it', c', p')"
      by (cases s) (auto simp: session_ops_simps split: prod.splits)
    note L = parent_store.session_next_law[OF P session[OF s(2)] s(4)]
    show ?case
      using keeps[OF s(2)] sound[of it' c'] L unfolding s by blast
  next
    case (9 s it it' s')
    then obtain c p c' p' where s: "s = Session c p" "store_ok (v # vs) (Session c p)" "s' = Session c' p'" "session_previous P it c p = (it', c', p')"
      by (cases s) (auto simp: session_ops_simps split: prod.splits)
    note L = parent_store.session_previous_law(1,2)[OF P session[OF s(2)] s(4)]
    show ?case
      using keeps[OF s(2) L(1)] sound[of it' c', OF L(2)] unfolding s by blast
  next
    case (10 s b s1 e s2)
    then obtain c p c1 p1 where s1: "s = Session c p" "store_ok (v # vs) (Session c p)" "s1 = Session c1 p1" "session_begin P c p = (b, c1, p1)"
      by (cases s) (auto simp: session_ops_simps split: prod.splits)
    note B = parent_store.session_begin_law[OF P session, OF s1(2,4)]
    have ok1: "parent_store.session_ok (store_ok vs) store_view c1 p1"
      using parent_store.keeps_session[OF P session[OF s1(2)]] B by blast
    obtain c2 p2 where e: "session_previous P end_iter c1 p1 = (e, c2, p2)"
      using 10(4) s1(3) by (auto simp: session_ops_simps split: prod.splits)
    obtain a where "live_at a c1"
      using B 10(3) by blast
    from parent_store.session_previous_law(3)[OF P ok1 e _ this] show ?case
      by (simp add: end_iter_def)
  qed
qed

lemma level_parent: "parent_store (level_ops (length vs)) (store_ok vs) store_view all_keys"
proof (induction vs)
  case Nil
  then show ?case by (simp add: rocks_parent)
next
  case (Cons v vs)
  then show ?case using session_parent[OF Cons store_keys_op] by simp
qed

interpretation level: parent_store "level_ops (length vs)" "store_ok vs" store_view all_keys for vs
  by (rule level_parent)

end
