(* ===== verification/Kv_Undo_Stack.thy ===== *)
theory Kv_Undo_Stack
  imports Kv_Session_Laws
begin

text \<open>
  The stack of sessions with which the node undoes blocks in the key-value store (\<^verbatim>\<open>undo_stack.hpp\<close>), and its refinement of a
  stack of snapshots. The sessions are kept with the oldest first, as in the deque; each is the parent of the next one.
  The file that keeps the stack over a restart is the list of what is written to it; its magic number, its version and
  its byte format are left out. The iterator of the standard container gives the updated and deleted keys in some order, here
  that of the keys.
\<close>

section \<open>Operations\<close>

record undo_stack =
  us_revision :: int
  us_head :: rocks
  us_sessions :: "cache list"

definition nest :: "rocks \<Rightarrow> cache list \<Rightarrow> store" where
  "nest r cs = fold Session cs (Rocks r)"

fun unnest :: "store \<Rightarrow> rocks \<times> cache list" where
  "unnest (Rocks r) = (r, [])"
| "unnest (Session c p) = (case unnest p of (r, cs) \<Rightarrow> (r, cs @ [c]))"

definition us_store :: "undo_stack \<Rightarrow> store" where
  "us_store u = nest (us_head u) (us_sessions u)"

definition us_with_store :: "store \<Rightarrow> undo_stack \<Rightarrow> undo_stack" where
  "us_with_store s u = (case unnest s of (r, cs) \<Rightarrow> u\<lparr>us_head := r, us_sessions := cs\<rparr>)"

definition us_level :: "undo_stack \<Rightarrow> store store_ops" where
  "us_level u = level_ops (length (us_sessions u))"

definition us_push :: "undo_stack \<Rightarrow> undo_stack result" where
  "us_push u =
     bind_res (prime_cache (us_level u) [] (us_store u)) (\<lambda>(c, p).
     Inr ((us_with_store (Session c p) u)\<lparr>us_revision := us_revision u + 1\<rparr>))"

definition us_squash :: "undo_stack \<Rightarrow> undo_stack" where
  "us_squash u =
     (case us_store u of
        Rocks _ \<Rightarrow> u
      | Session c p \<Rightarrow>
          let (c', p') = session_commit (level_ops (length (us_sessions u) - 1)) c p in
          (us_with_store p' u)\<lparr>us_revision := us_revision u - 1\<rparr>)"

definition us_undo :: "undo_stack \<Rightarrow> undo_stack" where
  "us_undo u =
     (if us_sessions u = [] then u
      else u\<lparr>us_sessions := butlast (us_sessions u), us_revision := us_revision u - 1\<rparr>)"

definition commit_at :: "nat \<Rightarrow> rocks \<times> cache list \<Rightarrow> rocks \<times> cache list" where
  "commit_at i st =
     (case st of (r, cs) \<Rightarrow>
      case nest r (take (Suc i) cs) of
        Rocks _ \<Rightarrow> st
      | Session c p \<Rightarrow>
          let (c', p') = session_commit (level_ops i) c p; (r', below) = unnest p' in (r', below @ c' # drop (Suc i) cs))"

primrec commit_loop :: "nat \<Rightarrow> rocks \<times> cache list \<Rightarrow> rocks \<times> cache list" where
  "commit_loop 0 st = commit_at 0 st"
| "commit_loop (Suc i) st = commit_loop i (commit_at (Suc i) st)"

definition us_commit :: "int \<Rightarrow> undo_stack \<Rightarrow> undo_stack result" where
  "us_commit revision u =
     (if us_sessions u = [] then Inr u
      else
        let revision = min revision (us_revision u);
            initial_revision = us_revision u - int (length (us_sessions u)) + 1 in
        if initial_revision > revision then Inr u
        else
          let start_index = nat (revision - initial_revision);
              (r, cs) = commit_loop start_index (us_head u, us_sessions u) in
          case drop (Suc start_index) cs of
            [] \<Rightarrow> Inr (u\<lparr>us_head := r, us_sessions := []\<rparr>)
          | front # rest \<Rightarrow>
              bind_res (prime_cache (level_ops 0) front (Rocks r)) (\<lambda>(front', p).
              Inr (u\<lparr>us_head := fst (unnest p), us_sessions := front' # rest\<rparr>)))"

definition us_set_revision :: "int \<Rightarrow> undo_stack \<Rightarrow> undo_stack" where
  "us_set_revision revision u =
     (if us_sessions u \<noteq> [] then u else if revision \<le> us_revision u then u else u\<lparr>us_revision := revision\<rparr>)"

text \<open>Reading, writing and erasing through the session at the top of the stack.\<close>

definition top_read :: "bytes \<Rightarrow> undo_stack \<Rightarrow> bytes option \<times> undo_stack" where
  "top_read k u = (case op_read (us_level u) k (us_store u) of (v, s) \<Rightarrow> (v, us_with_store s u))"

definition top_write :: "bytes \<Rightarrow> bytes \<Rightarrow> undo_stack \<Rightarrow> undo_stack" where
  "top_write k v u = us_with_store (op_write (us_level u) k v (us_store u)) u"

definition top_erase :: "bytes \<Rightarrow> undo_stack \<Rightarrow> undo_stack" where
  "top_erase k u = us_with_store (op_erase (us_level u) k (us_store u)) u"

definition top_begin :: "undo_stack \<Rightarrow> iter \<times> undo_stack" where
  "top_begin u = (case op_begin (us_level u) (us_store u) of (it, s) \<Rightarrow> (it, us_with_store s u))"

definition top_lower_bound :: "bytes \<Rightarrow> undo_stack \<Rightarrow> iter \<times> undo_stack" where
  "top_lower_bound k u = (case op_lower_bound (us_level u) k (us_store u) of (it, s) \<Rightarrow> (it, us_with_store s u))"

definition top_next :: "iter \<Rightarrow> undo_stack \<Rightarrow> iter \<times> undo_stack" where
  "top_next it u = (case op_next (us_level u) it (us_store u) of (it', s) \<Rightarrow> (it', us_with_store s u))"

text \<open>
  Closing writes the sessions from the oldest on: the updated keys with their values, read through the session, and the
  deleted keys. The sessions before it are gone by then: a read that is not answered by the session's own cache is one through a
  dangling pointer, except in the oldest session. A value that is not found ends the function and removes the file.
\<close>

type_synonym session_image = "(bytes \<times> bytes) list \<times> bytes list"
type_synonym stack_file = "int \<times> session_image list"

definition cached_value :: "cache \<Rightarrow> bytes \<Rightarrow> bytes option result" where
  "cached_value c k =
     (case map_of c k of
        None \<Rightarrow> Inl Undefined_behaviour
      | Some e \<Rightarrow> if deleted e then Inr None else if vs_value e \<noteq> [] then Inr (Some (vs_value e)) else Inl Undefined_behaviour)"

fun images :: "(cache \<Rightarrow> bytes \<Rightarrow> bytes option result) \<Rightarrow> cache \<Rightarrow> bytes list \<Rightarrow> (bytes \<times> bytes) list option result" where
  "images rd c [] = Inr (Some [])"
| "images rd c (k # ks) =
     bind_res (rd c k) (\<lambda>v.
     case v of
       None \<Rightarrow> Inr None
     | Some w \<Rightarrow> bind_res (images rd c ks) (\<lambda>rest. Inr (map_option (\<lambda>r. (k, w) # r) rest)))"

fun close_sessions :: "(cache \<Rightarrow> bytes \<Rightarrow> bytes option result) \<Rightarrow> cache list \<Rightarrow> session_image list option result" where
  "close_sessions rd [] = Inr (Some [])"
| "close_sessions rd (c # cs) =
     bind_res (images rd c (updated_keys c)) (\<lambda>kvs.
     case kvs of
       None \<Rightarrow> Inr None
     | Some kvs \<Rightarrow>
         bind_res (close_sessions cached_value cs) (\<lambda>rest. Inr (map_option (\<lambda>r. (kvs, deleted_keys c) # r) rest)))"

definition us_close :: "undo_stack \<Rightarrow> stack_file option result" where
  "us_close u =
     bind_res (close_sessions (\<lambda>c k. Inr (fst (session_read rocks_ops k c (Rocks (us_head u))))) (us_sessions u)) (\<lambda>im.
     Inr (map_option (\<lambda>im. (us_revision u, im)) im))"

definition open_session :: "session_image \<Rightarrow> undo_stack \<Rightarrow> undo_stack result" where
  "open_session im u =
     bind_res (us_push u) (\<lambda>u1.
     Inr (fold top_erase (snd im) (fold (\<lambda>(k, v). top_write k v) (fst im) u1)))"

definition us_open :: "rocks \<Rightarrow> stack_file option \<Rightarrow> undo_stack result" where
  "us_open r file =
     (let u = \<lparr>us_revision = 0, us_head = r, us_sessions = []\<rparr> in
      case file of
        None \<Rightarrow> Inr u
      | Some (head_revision, ims) \<Rightarrow> bind_res (fold_res open_session ims u) (\<lambda>u. Inr (u\<lparr>us_revision := head_revision\<rparr>)))"

section \<open>Stacks of sessions as stores\<close>

fun lower_views :: "store \<Rightarrow> (bytes \<Rightarrow> bytes option) list" where
  "lower_views (Rocks r) = []"
| "lower_views (Session c p) = store_view p # lower_views p"

definition us_ok :: "undo_stack \<Rightarrow> bool" where
  "us_ok u \<longleftrightarrow> store_ok (lower_views (us_store u)) (us_store u)"

text \<open>The snapshots of a stack, the newest first.\<close>

definition snapshots :: "undo_stack \<Rightarrow> (bytes \<Rightarrow> bytes option) list" where
  "snapshots u = store_view (us_store u) # lower_views (us_store u)"

lemma unnest_nest [simp]: "unnest (nest r cs) = (r, cs)"
  by (induction cs rule: rev_induct) (auto simp: nest_def)

lemma nest_unnest: "unnest s = (r, cs) \<Longrightarrow> nest r cs = s"
  by (induction s arbitrary: r cs) (auto simp: nest_def split: prod.splits)

lemma us_store_with [simp]: "us_store (us_with_store s u) = s" "us_revision (us_with_store s u) = us_revision u"
  using nest_unnest[of s] by (auto simp: us_store_def us_with_store_def split: prod.splits)

lemma us_store_revision [simp]: "us_store (u\<lparr>us_revision := x\<rparr>) = us_store u"
  by (simp add: us_store_def)

lemma session_view_Nil [simp]: "session_view [] v = v"
  by (simp add: fun_eq_iff session_view_def)

lemma length_lower_views [simp]: "length (lower_views (nest r cs)) = length cs"
  by (induction cs rule: rev_induct) (auto simp: nest_def)

lemma store_ok_lower: "store_ok vs s \<Longrightarrow> lower_views s = vs"
  by (induction vs s rule: store_ok.induct) auto

lemma store_ok_length: "store_ok vs s \<Longrightarrow> length (snd (unnest s)) = length vs"
  by (induction vs s rule: store_ok.induct) (auto split: prod.splits)

lemma us_level_eq: "us_level u = level_ops (length (lower_views (us_store u)))"
  by (simp add: us_level_def us_store_def)

section \<open>Operations at the top\<close>

lemma us_keeps:
  assumes "us_ok u" "keeps (store_ok (lower_views (us_store u))) store_view all_keys (us_store u) s"
  shows "us_ok (us_with_store s u)" "snapshots (us_with_store s u) = snapshots u"
  using assms store_ok_lower[of "lower_views (us_store u)" s] by (auto simp: us_ok_def keeps_def snapshots_def)

lemma top_read_law:
  assumes "us_ok u" "top_read k u = (v, u')"
  shows "v = hd (snapshots u) k" "us_ok u'" "snapshots u' = snapshots u" "us_revision u' = us_revision u"
proof -
  obtain w s where r: "op_read (us_level u) k (us_store u) = (w, s)" by fastforce
  note R = level.read_law[of "lower_views (us_store u)", OF assms(1)[unfolded us_ok_def] r[unfolded us_level_eq]]
  have "v = w" "u' = us_with_store s u"
    using assms(2) r by (simp_all add: top_read_def)
  then show "v = hd (snapshots u) k" "us_ok u'" "snapshots u' = snapshots u" "us_revision u' = us_revision u"
    using R us_keeps[OF assms(1)] by (auto simp: snapshots_def)
qed

lemma top_begin_law:
  assumes "us_ok u" "top_begin u = (it, u')"
  shows "us_ok u' \<and> snapshots u' = snapshots u \<and> us_revision u' = us_revision u \<and> (\<forall>k. fst it = Some k \<longrightarrow> hd (snapshots u) k \<noteq> None)"
proof -
  obtain i s where r: "op_begin (us_level u) (us_store u) = (i, s)" by fastforce
  note R = level.begin_law[of "lower_views (us_store u)", OF assms(1)[unfolded us_ok_def] r[unfolded us_level_eq]]
  have "it = i" "u' = us_with_store s u"
    using assms(2) r by (simp_all add: top_begin_def)
  then show ?thesis
    using R us_keeps[OF assms(1)] by (auto simp: snapshots_def sound_def keeps_def)
qed

lemma top_lower_bound_law:
  assumes "us_ok u" "top_lower_bound k u = (it, u')"
  shows "us_ok u' \<and> snapshots u' = snapshots u \<and> us_revision u' = us_revision u \<and> (\<forall>k. fst it = Some k \<longrightarrow> hd (snapshots u) k \<noteq> None)"
proof -
  obtain i s where r: "op_lower_bound (us_level u) k (us_store u) = (i, s)" by fastforce
  note R = level.lower_bound_law[of "lower_views (us_store u)", OF assms(1)[unfolded us_ok_def] r[unfolded us_level_eq]]
  have "it = i" "u' = us_with_store s u"
    using assms(2) r by (simp_all add: top_lower_bound_def)
  then show ?thesis
    using R us_keeps[OF assms(1)] by (auto simp: snapshots_def sound_def keeps_def)
qed

lemma top_next_law:
  assumes "us_ok u" "top_next it u = (it', u')"
  shows "us_ok u' \<and> snapshots u' = snapshots u \<and> us_revision u' = us_revision u \<and>
    (\<forall>a k. fst it = Some a \<longrightarrow> fst it' = Some k \<longrightarrow> hd (snapshots u) k \<noteq> None \<and> a < k)"
proof -
  obtain i s where r: "op_next (us_level u) it (us_store u) = (i, s)" by fastforce
  note R = level.next_law[of "lower_views (us_store u)", OF assms(1)[unfolded us_ok_def] r[unfolded us_level_eq]]
  have "it' = i" "u' = us_with_store s u"
    using assms(2) r by (simp_all add: top_next_def)
  then show ?thesis
    using R us_keeps[OF assms(1)] by (auto simp: snapshots_def sound_def keeps_def)
qed

lemma us_changed:
  assumes "store_ok (lower_views (us_store u)) s"
  shows "us_ok (us_with_store s u)" "snapshots (us_with_store s u) = store_view s # tl (snapshots u)"
  using assms store_ok_lower[OF assms] by (simp_all add: us_ok_def snapshots_def)

lemma top_write_law:
  assumes "us_ok u" "k \<noteq> []" "v \<noteq> []"
  shows "us_ok (top_write k v u)" "snapshots (top_write k v u) = (hd (snapshots u))(k \<mapsto> v) # tl (snapshots u)"
    "us_revision (top_write k v u) = us_revision u"
  using level.write_law[of "lower_views (us_store u)", OF assms(1)[unfolded us_ok_def] assms(2,3)] us_changed[of u]
  by (simp_all add: top_write_def us_level_eq snapshots_def)

lemma top_erase_law:
  assumes "us_ok u" "k \<noteq> []"
  shows "us_ok (top_erase k u)" "snapshots (top_erase k u) = (hd (snapshots u))(k := None) # tl (snapshots u)"
    "us_revision (top_erase k u) = us_revision u"
  using level.erase_law[of "lower_views (us_store u)", OF assms(1)[unfolded us_ok_def] assms(2)] us_changed[of u]
  by (simp_all add: top_erase_def us_level_eq snapshots_def)

section \<open>Operations on the stack\<close>

lemma us_push_law:
  assumes "us_ok u"
  shows "\<exists>u'. us_push u = Inr u' \<and> us_ok u' \<and> snapshots u' = hd (snapshots u) # snapshots u \<and> us_revision u' = us_revision u + 1"
proof -
  let ?vs = "lower_views (us_store u)" and ?p = "us_store u"
  have "level.session_ok ?vs [] ?p"
    using assms by (simp add: level.session_ok_def us_ok_def cache_ok_def)
  then obtain c p where p: "prime_cache (level_ops (length ?vs)) [] ?p = Inr (c, p)" "level.reads ?vs [] ?p c p"
    using level.prime_cache_law by blast
  have s: "level.session_ok ?vs c p" "level.sview c p = level.sview [] ?p" "store_view p = store_view ?p" "store_ok ?vs p"
    using level.keeps_session[OF \<open>level.session_ok ?vs [] ?p\<close> p(2)] by (auto simp: level.session_ok_def)
  have "lower_views p = ?vs" by (rule store_ok_lower[OF s(4)])
  then show ?thesis
    using p(1) s by (auto simp: us_push_def us_level_eq us_ok_def snapshots_def level.session_ok_def level.sview_def)
qed

lemma us_squash_law:
  assumes "us_ok u"
  shows "us_ok (us_squash u)"
    "snapshots (us_squash u) = (case snapshots u of v # w # vs \<Rightarrow> v # vs | vs \<Rightarrow> vs)"
    "us_revision (us_squash u) = (if us_sessions u = [] then us_revision u else us_revision u - 1)"
proof -
  have "us_ok (us_squash u) \<and> snapshots (us_squash u) = (case snapshots u of v # w # vs \<Rightarrow> v # vs | vs \<Rightarrow> vs) \<and>
    us_revision (us_squash u) = (if us_sessions u = [] then us_revision u else us_revision u - 1)"
  proof (cases "us_store u")
    case (Rocks r)
    then have "us_sessions u = []"
      using length_lower_views[of "us_head u" "us_sessions u"] by (simp add: us_store_def)
    then show ?thesis
      using assms Rocks by (simp add: us_squash_def snapshots_def)
  next
    case (Session c p)
    let ?vs = "lower_views p"
    have ok: "store_ok ?vs p" "cache_ok (store_view p) c"
      using assms Session by (simp_all add: us_ok_def)
    have "length (lower_views (us_store u)) = length (us_sessions u)"
      by (simp add: us_store_def)
    then have n: "length (us_sessions u) = Suc (length ?vs)"
      using Session by simp
    obtain c' p' where cm: "session_commit (level_ops (length ?vs)) c p = (c', p')" by fastforce
    have "level.session_ok ?vs c p"
      using ok by (simp add: level.session_ok_def)
    note C = level.session_commit_law[OF this cm]
    have "lower_views p' = ?vs"
      by (rule store_ok_lower[OF C(2)])
    then show ?thesis
      using C n cm Session by (auto simp: us_squash_def us_ok_def snapshots_def level.sview_def)
  qed
  then show "us_ok (us_squash u)" "snapshots (us_squash u) = (case snapshots u of v # w # vs \<Rightarrow> v # vs | vs \<Rightarrow> vs)"
    "us_revision (us_squash u) = (if us_sessions u = [] then us_revision u else us_revision u - 1)" by blast+
qed

lemma us_undo_law:
  assumes "us_ok u"
  shows "us_ok (us_undo u)" "snapshots (us_undo u) = (case snapshots u of v # w # vs \<Rightarrow> w # vs | vs \<Rightarrow> vs)"
    "us_revision (us_undo u) = (if us_sessions u = [] then us_revision u else us_revision u - 1)"
proof -
  have "us_ok (us_undo u) \<and> snapshots (us_undo u) = (case snapshots u of v # w # vs \<Rightarrow> w # vs | vs \<Rightarrow> vs) \<and>
    us_revision (us_undo u) = (if us_sessions u = [] then us_revision u else us_revision u - 1)"
    using assms by (cases "us_sessions u" rule: rev_cases) (auto simp: us_undo_def us_ok_def snapshots_def us_store_def nest_def)
  then show "us_ok (us_undo u)" "snapshots (us_undo u) = (case snapshots u of v # w # vs \<Rightarrow> w # vs | vs \<Rightarrow> vs)"
    "us_revision (us_undo u) = (if us_sessions u = [] then us_revision u else us_revision u - 1)" by blast+
qed

text \<open>Sessions above a store keep their views above another store with the same view.\<close>

lemma rebase:
  assumes "store_ok (lower_views (fold Session cs b)) (fold Session cs b)" "store_ok (lower_views b') b'" "store_view b' = store_view b"
  shows "store_ok (lower_views (fold Session cs b')) (fold Session cs b')" "store_view (fold Session cs b') = store_view (fold Session cs b)"
    "lower_views (fold Session cs b') = take (length cs) (lower_views (fold Session cs b)) @ lower_views b'"
  using assms by (induction cs rule: rev_induct) auto

lemma take_lower_views:
  "i \<le> length cs \<Longrightarrow> lower_views (nest r (take i cs)) = drop (length cs - i) (lower_views (nest r cs))"
  "i \<le> length cs \<Longrightarrow> store_view (nest r (take i cs)) = (store_view (nest r cs) # lower_views (nest r cs)) ! (length cs - i)"
proof (induction cs rule: rev_induct)
  case (snoc c cs)
  {
    case 1
    then show ?case
      using snoc(1) by (cases "i = Suc (length cs)") (auto simp: nest_def Suc_diff_le)
  next
    case 2
    then show ?case
      using snoc(2) by (cases "i = Suc (length cs)") (auto simp: nest_def Suc_diff_le)
  }
qed (simp_all add: nest_def)

lemma store_ok_take:
  assumes "store_ok (lower_views (nest r cs)) (nest r cs)"
  shows "store_ok (lower_views (nest r (take i cs))) (nest r (take i cs))"
  using assms
proof (induction cs rule: rev_induct)
  case (snoc c cs)
  then show ?case by (cases "i \<le> length cs") (auto simp: nest_def)
qed simp

lemma commit_at_law:
  assumes "i < length cs" "store_ok (lower_views (nest r (take (Suc i) cs))) (nest r (take (Suc i) cs))"
  shows "\<exists>r' below. commit_at i (r, cs) = (r', below @ [] # drop (Suc i) cs) \<and> length below = i \<and>
    store_ok (lower_views (nest r' below)) (nest r' below) \<and> store_view (nest r' below) = store_view (nest r (take (Suc i) cs))"
proof -
  let ?p = "nest r (take i cs)"
  have s: "nest r (take (Suc i) cs) = Session (cs ! i) ?p"
    using assms(1) by (simp add: nest_def take_Suc_conv_app_nth)
  have len: "length (lower_views ?p) = i"
    using assms(1) by simp
  obtain c' p' where cm: "session_commit (level_ops i) (cs ! i) ?p = (c', p')" by fastforce
  have "level.session_ok (lower_views ?p) (cs ! i) ?p"
    using assms(2) unfolding s by (simp add: level.session_ok_def)
  moreover have "session_commit (level_ops (length (lower_views ?p))) (cs ! i) ?p = (c', p')"
    using cm by (simp only: len)
  ultimately have C: "c' = []" "store_ok (lower_views ?p) p'" "store_view p' = store_view (nest r (take (Suc i) cs))"
    using level.session_commit_law[of "lower_views ?p"] unfolding s level.sview_def by simp_all
  obtain r' below where u: "unnest p' = (r', below)" by fastforce
  have "nest r' below = p'" "lower_views p' = lower_views ?p" "length below = i"
    using nest_unnest[OF u] store_ok_lower[OF C(2)] store_ok_length[OF C(2)] u len by auto
  then show ?thesis
    using C cm u by (simp add: commit_at_def s)
qed

lemma commit_loop_law:
  assumes "i < length cs" "store_ok (lower_views (nest r (take (Suc i) cs))) (nest r (take (Suc i) cs))"
  shows "\<exists>r'. commit_loop i (r, cs) = (r', replicate (Suc i) [] @ drop (Suc i) cs) \<and>
    store_ok [] (Rocks r') \<and> map_of r' = store_view (nest r (take (Suc i) cs))"
  using assms
proof (induction i arbitrary: r cs)
  case 0
  then show ?case
    using commit_at_law[OF 0] by (auto simp: nest_def)
next
  case (Suc i)
  obtain r1 below where b: "commit_at (Suc i) (r, cs) = (r1, below @ [] # drop (Suc (Suc i)) cs)" "length below = Suc i"
    "store_ok (lower_views (nest r1 below)) (nest r1 below)" "store_view (nest r1 below) = store_view (nest r (take (Suc (Suc i)) cs))"
    using commit_at_law[OF Suc.prems] by blast
  let ?cs = "below @ [] # drop (Suc (Suc i)) cs"
  have "i < length ?cs" "take (Suc i) ?cs = below" "drop (Suc i) ?cs = [] # drop (Suc (Suc i)) cs"
    using b(2) by simp_all
  then show ?case
    using Suc.IH[of ?cs r1] b by (auto simp: replicate_app_Cons_same simp flip: replicate_Suc)
qed

text \<open>Attaching the oldest session that is left to the store below it changes no view.\<close>

lemma attach_front:
  assumes "store_ok (lower_views (nest r cs)) (nest r cs)"
  shows "\<exists>u'. (case cs of
      [] \<Rightarrow> Inr (u\<lparr>us_head := r, us_sessions := []\<rparr>)
    | front # rest \<Rightarrow>
        bind_res (prime_cache (level_ops 0) front (Rocks r)) (\<lambda>(front', p).
        Inr (u\<lparr>us_head := fst (unnest p), us_sessions := front' # rest\<rparr>))) = Inr u' \<and>
    us_revision u' = us_revision u \<and> us_ok u' \<and> snapshots u' = store_view (nest r cs) # lower_views (nest r cs)"
proof (cases cs)
  case Nil
  then show ?thesis
    using assms by (simp add: us_ok_def snapshots_def us_store_def)
next
  case (Cons front rest)
  let ?b = "Session front (Rocks r)"
  have eq: "nest r cs = fold Session rest ?b"
    using Cons by (simp add: nest_def)
  have b: "store_ok (lower_views ?b) ?b"
    using store_ok_take[OF assms, of 1] Cons by (simp add: nest_def)
  then have "level.session_ok [] front (Rocks r)"
    by (simp add: level.session_ok_def)
  then obtain c p where p: "prime_cache (level_ops 0) front (Rocks r) = Inr (c, p)" "level.reads [] front (Rocks r) c p"
    using level.prime_cache_law[of "[]"] by force
  have k: "level.session_ok [] c p" "level.sview c p = level.sview front (Rocks r)" "store_view p = map_of r"
    using level.keeps_session[OF \<open>level.session_ok [] front (Rocks r)\<close> p(2)] by auto
  then obtain r' where r': "p = Rocks r'"
    by (auto simp: level.session_ok_def store_ok_Rocks)
  have b': "store_ok (lower_views (Session c p)) (Session c p)" "store_view (Session c p) = store_view ?b" "lower_views (Session c p) = lower_views ?b"
    using k r' by (auto simp: level.session_ok_def level.sview_def)
  note R = rebase[OF assms[unfolded eq] b'(1,2)] and R0 = rebase(3)[OF assms[unfolded eq] b refl]
  have "us_store (u\<lparr>us_head := r', us_sessions := c # rest\<rparr>) = fold Session rest (Session c p)"
    by (simp add: us_store_def nest_def r')
  then show ?thesis
    using R R0 b'(3) p(1) Cons r' eq by (simp add: us_ok_def snapshots_def)
qed

lemma us_commit_law:
  assumes "us_ok u"
  shows "\<exists>u'. us_commit rv u = Inr u' \<and> us_ok u' \<and> us_revision u' = us_revision u \<and>
    snapshots u' = (let n = length (us_sessions u); start = min rv (us_revision u) - (us_revision u - int n + 1) in
      if n = 0 \<or> start < 0 then snapshots u else take (n - nat start) (snapshots u))"
proof -
  let ?r = "us_head u" and ?cs = "us_sessions u"
  let ?start = "min rv (us_revision u) - (us_revision u - int (length ?cs) + 1)"
  let ?i = "nat ?start"
  show ?thesis
  proof (cases "?cs = [] \<or> ?start < 0")
    case True
    then show ?thesis
      using assms by (auto simp: us_commit_def Let_def)
  next
    case False
    then have i: "?i < length ?cs" by auto
    have ok: "store_ok (lower_views (nest ?r ?cs)) (nest ?r ?cs)"
      using assms by (simp add: us_ok_def us_store_def)
    obtain r' where L: "commit_loop ?i (?r, ?cs) = (r', replicate (Suc ?i) [] @ drop (Suc ?i) ?cs)"
      "store_ok [] (Rocks r')" "map_of r' = store_view (nest ?r (take (Suc ?i) ?cs))"
      using commit_loop_law[OF i store_ok_take[OF ok]] by blast
    let ?top = "drop (Suc ?i) ?cs"
    have split: "nest ?r ?cs = fold Session ?top (nest ?r (take (Suc ?i) ?cs))"
      by (metis append_take_drop_id fold_append comp_apply nest_def)
    note R = rebase[of ?top "nest ?r (take (Suc ?i) ?cs)" "Rocks r'", folded split, OF ok]
    have snap: "snapshots u = store_view (nest ?r ?cs) # lower_views (nest ?r ?cs)"
      by (simp add: snapshots_def us_store_def)
    have len: "length ?cs - ?i = Suc (length ?top)"
      using i by simp
    have R': "store_ok (lower_views (nest r' ?top)) (nest r' ?top)" "store_view (nest r' ?top) # lower_views (nest r' ?top) = take (length ?cs - ?i) (snapshots u)"
      using R L(2,3) len by (simp_all add: nest_def snap)
    obtain u' where u': "us_commit rv u = Inr u'" "us_revision u' = us_revision u" "us_ok u'"
      "snapshots u' = store_view (nest r' ?top) # lower_views (nest r' ?top)"
      using attach_front[OF R'(1), of u] False L(1) by (auto simp: us_commit_def Let_def)
    then show ?thesis
      using R'(2) False by (simp add: Let_def)
  qed
qed

end
