(* ===== verification/Kv_Undo_Properties.thy ===== *)
theory Kv_Undo_Properties
  imports Kv_Undo_Stack
begin

text \<open>
  The properties of the undo stack of the key-value store: it refines a stack of snapshots, it survives a restart, and three
  inputs on which the sessions do not do what their comments say.
\<close>

section \<open>Snapshots\<close>

datatype kv_op =
    Kv_push | Kv_squash | Kv_undo | Kv_commit int | Kv_set_revision int
  | Kv_read bytes | Kv_write bytes bytes | Kv_erase bytes | Kv_begin | Kv_lower_bound bytes | Kv_next iter

primrec kv_step :: "kv_op \<Rightarrow> undo_stack \<Rightarrow> undo_stack result" where
  "kv_step Kv_push u = us_push u"
| "kv_step Kv_squash u = Inr (us_squash u)"
| "kv_step Kv_undo u = Inr (us_undo u)"
| "kv_step (Kv_commit r) u = us_commit r u"
| "kv_step (Kv_set_revision r) u = Inr (us_set_revision r u)"
| "kv_step (Kv_read k) u = Inr (snd (top_read k u))"
| "kv_step (Kv_write k v) u = Inr (top_write k v u)"
| "kv_step (Kv_erase k) u = Inr (top_erase k u)"
| "kv_step Kv_begin u = Inr (snd (top_begin u))"
| "kv_step (Kv_lower_bound k) u = Inr (snd (top_lower_bound k u))"
| "kv_step (Kv_next it) u = Inr (snd (top_next it u))"

text \<open>The abstract stack: a revision and the snapshots, the newest first; the oldest is the committed state.\<close>

type_synonym snapshot_stack = "int \<times> (bytes \<Rightarrow> bytes option) list"

fun snap_step :: "kv_op \<Rightarrow> snapshot_stack \<Rightarrow> snapshot_stack" where
  "snap_step Kv_push (r, v # vs) = (r + 1, v # v # vs)"
| "snap_step Kv_squash (r, v # w # vs) = (r - 1, v # vs)"
| "snap_step Kv_undo (r, v # w # vs) = (r - 1, w # vs)"
| "snap_step (Kv_commit c) (r, v # vs) = (r, take (Suc (nat (r - min c r))) (v # vs))"
| "snap_step (Kv_set_revision c) (r, [v]) = (max c r, [v])"
| "snap_step (Kv_write k x) (r, v # vs) = (r, v(k \<mapsto> x) # vs)"
| "snap_step (Kv_erase k) (r, v # vs) = (r, v(k := None) # vs)"
| "snap_step op st = st"

text \<open>The session class takes an empty value for a missing one, and an empty key for no key.\<close>

fun kv_valid :: "kv_op \<Rightarrow> bool" where
  "kv_valid (Kv_write k v) \<longleftrightarrow> k \<noteq> [] \<and> v \<noteq> []"
| "kv_valid (Kv_erase k) \<longleftrightarrow> k \<noteq> []"
| "kv_valid _ \<longleftrightarrow> True"

definition abs_stack :: "undo_stack \<Rightarrow> snapshot_stack" where
  "abs_stack u = (us_revision u, snapshots u)"

lemma length_kv_snapshots: "length (snapshots u) = Suc (length (us_sessions u))"
  by (simp add: snapshots_def us_store_def)

lemma kv_snapshots_Cons: "snapshots u = hd (snapshots u) # tl (snapshots u)"
  by (simp add: snapshots_def)

lemma commit_count:
  fixes r c :: int
  assumes "length vs = Suc n"
  shows "(if n = 0 \<or> min c r - (r - int n + 1) < 0 then vs else take (n - nat (min c r - (r - int n + 1))) vs) =
    take (Suc (nat (r - min c r))) vs"
proof (cases "n = 0 \<or> min c r - (r - int n + 1) < 0")
  case True
  then have "length vs \<le> Suc (nat (r - min c r))"
    using assms by linarith
  then show ?thesis using True by simp
next
  case False
  then have "n - nat (min c r - (r - int n + 1)) = Suc (nat (r - min c r))"
    by linarith
  then show ?thesis using False by simp
qed

lemma kv_step_refines:
  assumes "us_ok u" "kv_valid op"
  shows "\<exists>u'. kv_step op u = Inr u' \<and> us_ok u' \<and> abs_stack u' = snap_step op (abs_stack u)"
proof (cases op)
  case Kv_push
  then show ?thesis
    using us_push_law[OF assms(1)] kv_snapshots_Cons[of u] by (cases "snapshots u") (auto simp: abs_stack_def)
next
  case Kv_squash
  then show ?thesis
    using us_squash_law[OF assms(1)] length_kv_snapshots[of u]
    by (cases "snapshots u"; cases "tl (snapshots u)") (auto simp: abs_stack_def)
next
  case Kv_undo
  then show ?thesis
    using us_undo_law[OF assms(1)] length_kv_snapshots[of u]
    by (cases "snapshots u"; cases "tl (snapshots u)") (auto simp: abs_stack_def)
next
  case (Kv_commit c)
  then show ?thesis
    using us_commit_law[OF assms(1), of c] commit_count[OF length_kv_snapshots[of u], of c "us_revision u"] kv_snapshots_Cons[of u]
    by (auto simp: abs_stack_def Let_def) (metis snap_step.simps(4))
next
  case (Kv_set_revision c)
  then show ?thesis
    using assms(1) length_kv_snapshots[of u]
    by (cases "snapshots u"; cases "tl (snapshots u)") (auto simp: abs_stack_def us_set_revision_def us_ok_def us_store_def snapshots_def)
next
  case (Kv_read k)
  obtain v u' where "top_read k u = (v, u')" by fastforce
  then show ?thesis
    using Kv_read top_read_law[OF assms(1)] by (simp add: abs_stack_def)
next
  case (Kv_write k v)
  then show ?thesis
    using assms top_write_law[OF assms(1), of k v] by (cases "snapshots u") (auto simp: abs_stack_def snapshots_def)
next
  case (Kv_erase k)
  then show ?thesis
    using assms top_erase_law[OF assms(1), of k] by (cases "snapshots u") (auto simp: abs_stack_def snapshots_def)
next
  case Kv_begin
  obtain it u' where "top_begin u = (it, u')" by fastforce
  then show ?thesis
    using Kv_begin top_begin_law[OF assms(1)] by (simp add: abs_stack_def)
next
  case (Kv_lower_bound k)
  obtain it u' where "top_lower_bound k u = (it, u')" by fastforce
  then show ?thesis
    using Kv_lower_bound top_lower_bound_law[OF assms(1)] by (simp add: abs_stack_def)
next
  case (Kv_next i)
  obtain it u' where "top_next i u = (it, u')" by fastforce
  then show ?thesis
    using Kv_next top_next_law[OF assms(1)] by (simp add: abs_stack_def)
qed

lemma kv_run_refines:
  assumes "us_ok u" "\<forall>op\<in>set ops. kv_valid op"
  shows "\<exists>u'. fold_res kv_step ops u = Inr u' \<and> us_ok u' \<and> abs_stack u' = fold snap_step ops (abs_stack u)"
  using assms
proof (induction ops arbitrary: u)
  case (Cons op ops)
  obtain u1 where u1: "kv_step op u = Inr u1" "us_ok u1" "abs_stack u1 = snap_step op (abs_stack u)"
    using kv_step_refines[OF Cons.prems(1)] Cons.prems(2) by auto
  then show ?case
    using Cons.IH[OF u1(2)] Cons.prems(2) by simp
qed simp

definition new_stack :: "rocks \<Rightarrow> undo_stack" where
  "new_stack r = \<lparr>us_revision = 0, us_head = r, us_sessions = []\<rparr>"

lemma new_stack_ok: "ordered r \<Longrightarrow> [] \<notin> fst ` set r \<Longrightarrow> us_ok (new_stack r)"
  by (simp add: us_ok_def new_stack_def us_store_def nest_def)

section \<open>Restarts\<close>

definition session_image :: "cache \<Rightarrow> session_image" where
  "session_image c = (commit_updates c, deleted_keys c)"

lemma images_map: "(\<And>k. k \<in> set ks \<Longrightarrow> rd c k = Inr (Some (f k))) \<Longrightarrow> images rd c ks = Inr (Some (map (\<lambda>k. (k, f k)) ks))"
  by (induction ks) auto

lemma close_session_images:
  assumes "cache_ok pv c" "\<And>k e. map_of c k = Some e \<Longrightarrow> \<not> deleted e \<Longrightarrow> vs_value e \<noteq> [] \<Longrightarrow> rd c k = Inr (Some (vs_value e))"
  shows "images rd c (updated_keys c) = Inr (Some (commit_updates c))"
proof -
  let ?f = "\<lambda>k. vs_value (the (map_of c k))"
  have d: "distinct (map fst c)"
    using assms(1) strict_sorted_iff by (auto simp: cache_ok_def)
  have e: "\<not> deleted e \<and> vs_value e \<noteq> [] \<and> map_of c k = Some e" if "(k, e) \<in> set c" "updated e" for k e
    using that d assms(1) by (auto simp: cache_ok_def entry_ok_def split: if_splits)
  have "rd c k = Inr (Some (?f k))" if "k \<in> set (updated_keys c)" for k
    using that e assms(2) by (fastforce simp: updated_keys_def)
  then have "images rd c (updated_keys c) = Inr (Some (map (\<lambda>k. (k, ?f k)) (updated_keys c)))"
    by (rule images_map)
  moreover have "filter (\<lambda>p. updated (snd p)) c = filter (\<lambda>p. \<not> deleted (snd p) \<and> updated (snd p)) c"
    using e by (intro filter_cong) auto
  then have "map (\<lambda>k. (k, ?f k)) (updated_keys c) = commit_updates c"
    using e by (auto simp: updated_keys_def commit_updates_def)
  ultimately show ?thesis by simp
qed

lemma close_sessions_images:
  assumes "\<forall>c\<in>set cs. \<exists>pv. cache_ok pv c" "\<And>c k e. map_of c k = Some e \<Longrightarrow> \<not> deleted e \<Longrightarrow> vs_value e \<noteq> [] \<Longrightarrow> rd c k = Inr (Some (vs_value e))"
  shows "close_sessions rd cs = Inr (Some (map session_image cs))"
  using assms
proof (induction cs arbitrary: rd)
  case (Cons c cs)
  then obtain pv where "cache_ok pv c" by auto
  then have "images rd c (updated_keys c) = Inr (Some (commit_updates c))"
    using Cons.prems(2) by (intro close_session_images)
  moreover have "close_sessions cached_value cs = Inr (Some (map session_image cs))"
    using Cons.prems(1) by (intro Cons.IH) (auto simp: cached_value_def)
  ultimately show ?case by (simp add: session_image_def)
qed simp

lemma fold_top_write_law:
  assumes "us_ok u" "\<forall>(k, v)\<in>set kvs. k \<noteq> [] \<and> v \<noteq> []" "distinct (map fst kvs)"
  shows "us_ok (fold (\<lambda>(k, v). top_write k v) kvs u)"
    "snapshots (fold (\<lambda>(k, v). top_write k v) kvs u) = (hd (snapshots u) ++ map_of kvs) # tl (snapshots u)"
  using assms
  by (induction kvs arbitrary: u)
     (auto simp: top_write_law map_add_upd_left dom_map_of_conv_image_fst simp flip: kv_snapshots_Cons)

lemma fold_top_erase_law:
  assumes "us_ok u" "[] \<notin> set ks"
  shows "us_ok (fold top_erase ks u)"
    "snapshots (fold top_erase ks u) = (\<lambda>k. if k \<in> set ks then None else hd (snapshots u) k) # tl (snapshots u)"
proof (use assms in \<open>induction ks arbitrary: u\<close>)
  case (Cons k ks)
  {
    case 1
    then show ?case using Cons(1)[of "top_erase k u"] by (auto simp: top_erase_law)
  next
    case 2
    then show ?case using Cons(2)[of "top_erase k u"] by (auto simp: top_erase_law fun_eq_iff)
  }
qed (simp_all flip: kv_snapshots_Cons)

lemma open_session_law:
  assumes "us_ok u" "cache_ok (hd (snapshots u)) c"
  shows "\<exists>u'. open_session (session_image c) u = Inr u' \<and> us_ok u' \<and>
    snapshots u' = session_view c (hd (snapshots u)) # snapshots u"
proof -
  obtain u1 where u1: "us_push u = Inr u1" "us_ok u1" "snapshots u1 = hd (snapshots u) # snapshots u"
    using us_push_law[OF assms(1)] by blast
  let ?upd = "commit_updates c" and ?del = "deleted_keys c"
  have del: "?del = commit_deletes c"
    by (simp add: deleted_keys_def commit_deletes_def)
  note C = cache_changes(3-5)[OF assms(2)]
  note W = fold_top_write_law[OF u1(2) C(3,1)] and E = fold_top_erase_law[OF fold_top_write_law(1)[OF u1(2) C(3,1)] C(2)]
  show ?thesis
    using u1(1,3) E(1) E(2)[unfolded W(2) u1(3) list.sel cache_changes_view(2)[OF assms(2)]]
    by (simp add: open_session_def session_image_def del)
qed

lemma caches_ok: "store_ok (lower_views (nest r cs)) (nest r cs) \<Longrightarrow> \<forall>c\<in>set cs. \<exists>pv. cache_ok pv c"
  by (induction cs rule: rev_induct) (auto simp: nest_def)

lemma open_images:
  assumes "store_ok (lower_views (nest r cs)) (nest r cs)"
  shows "\<exists>u. fold_res open_session (map session_image cs) (new_stack r) = Inr u \<and> us_ok u \<and>
    snapshots u = store_view (nest r cs) # lower_views (nest r cs)"
  using assms
proof (induction cs rule: rev_induct)
  case Nil
  then show ?case by (auto simp: us_ok_def new_stack_def us_store_def nest_def snapshots_def)
next
  case (snoc c cs)
  then obtain u where u: "fold_res open_session (map session_image cs) (new_stack r) = Inr u" "us_ok u"
    "snapshots u = store_view (nest r cs) # lower_views (nest r cs)"
    by (auto simp: nest_def)
  have "cache_ok (hd (snapshots u)) c"
    using snoc.prems u(3) by (simp add: nest_def)
  from open_session_law[OF u(2) this] show ?case
    using u by (auto simp: fold_res_append nest_def)
qed

section \<open>Properties\<close>

text \<open>
  C5. Over a database with ordered keys, every sequence of pushes, squashes, undos, commits, changes of the
  revision, reads, iterations, writes of non-empty pairs and erasures runs without an exception, and the undo stack
  of sessions behaves as a stack of complete snapshots: a read then returns the value in the newest snapshot, undo returns to the one
  before it, squash drops the one before it, and commit drops the oldest ones.
\<close>
theorem kv_stack_refines_snapshots:
  assumes "ordered r" "[] \<notin> fst ` set r" "\<forall>op\<in>set ops. kv_valid op"
  shows "\<exists>u. fold_res kv_step ops (new_stack r) = Inr u \<and> abs_stack u = fold snap_step ops (0, [map_of r]) \<and>
    (\<forall>k. fst (top_read k u) = hd (snd (fold snap_step ops (0, [map_of r]))) k)"
proof -
  have a: "abs_stack (new_stack r) = (0, [map_of r])"
    by (simp add: abs_stack_def new_stack_def snapshots_def us_store_def nest_def)
  obtain u where u: "fold_res kv_step ops (new_stack r) = Inr u" "us_ok u" "abs_stack u = fold snap_step ops (0, [map_of r])"
    using kv_run_refines[OF new_stack_ok[OF assms(1,2)] assms(3)] a by auto
  have "fst (top_read k u) = hd (snapshots u) k" for k
    using top_read_law(1)[OF u(2)] by (metis prod.collapse)
  moreover have "snapshots u = snd (fold snap_step ops (0, [map_of r]))"
    using u(3) by (metis abs_stack_def snd_conv)
  ultimately show ?thesis
    using u by auto
qed

definition sample_kv :: rocks where
  "sample_kv = [([1], [10]), ([2], [20]), ([3], [30])]"

theorem kv_stack_refines_snapshots_witness:
  "\<exists>u. fold_res kv_step [Kv_push, Kv_write [2] [21], Kv_erase [1], Kv_push, Kv_erase [2], Kv_undo] (new_stack sample_kv) = Inr u \<and>
     fst (top_read [2] u) = Some [21] \<and> fst (top_read [1] u) = None"
proof -
  let ?ops = "[Kv_push, Kv_write [2] [21], Kv_erase [1], Kv_push, Kv_erase [2], Kv_undo]"
  have "\<exists>u. fold_res kv_step ?ops (new_stack sample_kv) = Inr u \<and>
      abs_stack u = fold snap_step ?ops (0, [map_of sample_kv]) \<and>
      (\<forall>k. fst (top_read k u) = hd (snd (fold snap_step ?ops (0, [map_of sample_kv]))) k)"
    by (rule kv_stack_refines_snapshots) (simp_all add: sample_kv_def)
  then show ?thesis by (auto simp: sample_kv_def)
qed


lemma sample_stack_ok: "us_ok (new_stack sample_kv)"
  by (rule new_stack_ok) (simp_all add: sample_kv_def)



text \<open>
  A session that has written an empty value reads the value of its parent, and an iterator that has moved on from a key that was
  erased and written again says that the next key is deleted.
\<close>

lemma session_empty_value:
  "fst (top_read [1] (projr (fold_res kv_step [Kv_push, Kv_write [1] []] (new_stack sample_kv)))) = Some [10]"
  by code_simp

lemma session_iterator_version:
  "let u = projr (fold_res kv_step [Kv_push, Kv_erase [1], Kv_write [1] [11]] (new_stack sample_kv));
       (it, u1) = top_lower_bound [1] u; (it2, u2) = top_next it u1 in
   fst it2 = Some [2] \<and> fst (top_read [2] u2) = Some [20] \<and> iterator_deleted it2 (last (us_sessions u2))"
  by code_simp

end
