(* ===== verification/Block_State.thy ===== *)
theory Block_State
  imports Dpos
begin

text \<open>
  The blocks around their headers, after block.hpp, block.cpp, block_state.hpp and block_state.cpp: a signed block
  carries its transactions and its extensions, of which there is one kind, the additional signatures of the producer. A
  block state comes from a received block, or from the pending block of the producer, which signs it and puts
  the additional signatures into its extensions. The transactions are opaque to this code and
  keep their type as a parameter.
\<close>

datatype prune_state_type = Incomplete | Complete | Complete_legacy

record ('k, 's, 't) signed_block = "('k, 's) signed_block_header" +
  prune_state :: prune_state_type
  transactions :: "'t list"
  block_extensions :: extensions

datatype 's block_extension = Additional_block_signatures (signatures: "'s list")

text \<open>The serialisation of the signatures is part of the fc library.\<close>

record 's signatures_codec =
  pack_signatures :: "'s list \<Rightarrow> bytes"
  unpack_signatures :: "bytes \<Rightarrow> 's list option"

section \<open>Block extensions\<close>

definition additional_sigs_eid :: "16 word" where
  "additional_sigs_eid = 2"

fun unique_signatures :: "'s set \<Rightarrow> 's list \<Rightarrow> unit result" where
  "unique_signatures unique_sigs [] = Inr ()"
| "unique_signatures unique_sigs (x # xs) =
     bind_res (assert_res (x \<notin> unique_sigs) Ill_formed_additional_block_signatures_extension)
       (\<lambda>_. unique_signatures (insert x unique_sigs) xs)"

definition signatures_reflector_init :: "'s list \<Rightarrow> unit result" where
  "signatures_reflector_init sigs =
     bind_res (assert_res (0 < length sigs) Ill_formed_additional_block_signatures_extension) (\<lambda>_. unique_signatures {} sigs)"

text \<open>The decoding of one extension; \<open>None\<close> when the id is not the one of the additional signatures.\<close>

definition extract_block_extension :: "'s signatures_codec \<Rightarrow> 16 word \<Rightarrow> bytes \<Rightarrow> 's block_extension option result" where
  "extract_block_extension bcodec eid data =
     (if eid = additional_sigs_eid then
        (case unpack_signatures bcodec data of
           None \<Rightarrow> Inl Unpack_error
         | Some sigs \<Rightarrow> bind_res (signatures_reflector_init sigs) (\<lambda>_. Inr (Some (Additional_block_signatures sigs))))
      else Inr None)"

text \<open>The arguments \<open>i\<close> and \<open>lower\<close> are the loop counter and \<open>id_type_lower_bound\<close>. A repeated extension is reported with the exception of header extensions.\<close>

fun extract_block_extensions ::
  "'s signatures_codec \<Rightarrow> nat \<Rightarrow> 16 word \<Rightarrow> extensions \<Rightarrow> (16 word \<times> 's block_extension) list result" where
  "extract_block_extensions bcodec i lower [] = Inr []"
| "extract_block_extensions bcodec i lower ((eid, data) # rest) =
     bind_res (assert_res (lower \<le> eid) Invalid_block_extension) (\<lambda>_.
     bind_res (extract_block_extension bcodec eid data) (\<lambda>match.
     case match of
       None \<Rightarrow> Inl Invalid_block_extension
     | Some e \<Rightarrow>
         bind_res (assert_res (i = 0 \<or> lower < eid) Invalid_block_header_extension) (\<lambda>_.
         bind_res (extract_block_extensions bcodec (Suc i) eid rest) (\<lambda>results. Inr ((eid, e) # results)))))"

definition validate_and_extract_block_extensions ::
  "'s signatures_codec \<Rightarrow> extensions \<Rightarrow> (16 word \<times> 's block_extension) list result" where
  "validate_and_extract_block_extensions bcodec exts = extract_block_extensions bcodec 0 0 exts"

definition extract_additional_signatures :: "'s signatures_codec \<Rightarrow> ('k, 's, 't) signed_block \<Rightarrow> 's list result" where
  "extract_additional_signatures bcodec b =
     bind_res (validate_and_extract_block_extensions bcodec (block_extensions b)) (\<lambda>exts.
     case find (\<lambda>e. fst e = additional_sigs_eid) exts of
       Some e \<Rightarrow> Inr (signatures (snd e))
     | None \<Rightarrow> Inr [])"

section \<open>Block states\<close>

record ('k, 's, 't, 'm) full_block_state =
  header_state :: "('k, 's) block_header_state"
  block :: "('k, 's, 't) signed_block"
  is_valid :: bool
  pub_keys_recovered :: bool
  cached_trxs :: "'m list"

text \<open>The constructor for a received block: the header checks see the header part of the block.\<close>

definition block_state_received ::
  "('k, 's) header_crypto \<Rightarrow> 'k extension_codec \<Rightarrow> 's signatures_codec \<Rightarrow> protocol_feature_set \<Rightarrow> slot_validator \<Rightarrow>
     ('k, 's, 't) signed_block \<Rightarrow> bool \<Rightarrow> ('k, 's) block_header_state \<Rightarrow> ('k, 's, 't, 'm) full_block_state result" where
  "block_state_received crypt codec bcodec pfs validator b skip_validate_signee prev =
     bind_res (extract_additional_signatures bcodec b) (\<lambda>sigs.
     bind_res (next_state crypt codec pfs validator (signed_block_header.truncate b) sigs skip_validate_signee prev) (\<lambda>s.
     Inr \<lparr>header_state = s, block = b, is_valid = False, pub_keys_recovered = False, cached_trxs = []\<rparr>))"

text \<open>Finishing the pending header writes the signature of the producer into the block, the rest goes into its extensions.\<close>

definition inject_additional_signatures ::
  "('k, 's) header_crypto \<Rightarrow> 'k extension_codec \<Rightarrow> 's signatures_codec \<Rightarrow> protocol_feature_set \<Rightarrow> slot_validator \<Rightarrow>
     ('k, 's, 't) signed_block \<Rightarrow> (digest \<Rightarrow> 's list) \<Rightarrow> 'k pending_block_header_state \<Rightarrow>
     (('k, 's) block_header_state \<times> ('k, 's, 't) signed_block) result" where
  "inject_additional_signatures crypt codec bcodec pfs validator b signer cur =
     bind_res (finish_next_signed crypt codec pfs validator (signed_block_header.truncate b) signer cur) (\<lambda>(s, h).
     let b' = b\<lparr>producer_signature := producer_signature h\<rparr> in
     if additional_signatures s \<noteq> [] then
       bind_res (assert_res (builtin_in_set (prev_activated_protocol_features cur) pfs Wtmsig_block_signatures) Block_validate_exception)
         (\<lambda>_. Inr (s, b'\<lparr>block_extensions :=
                     emplace_extension (block_extensions b') additional_sigs_eid (pack_signatures bcodec (additional_signatures s))\<rparr>))
     else Inr (s, b'))"

definition block_state_produced ::
  "('k, 's) header_crypto \<Rightarrow> 'k extension_codec \<Rightarrow> 's signatures_codec \<Rightarrow> protocol_feature_set \<Rightarrow> slot_validator \<Rightarrow>
     ('k, 's, 't) signed_block \<Rightarrow> 'm list \<Rightarrow> (digest \<Rightarrow> 's list) \<Rightarrow> 'k pending_block_header_state \<Rightarrow>
     ('k, 's, 't, 'm) full_block_state result" where
  "block_state_produced crypt codec bcodec pfs validator b trx_metas signer cur =
     bind_res (inject_additional_signatures crypt codec bcodec pfs validator b signer cur) (\<lambda>(s, b').
     Inr \<lparr>header_state = s, block = b', is_valid = False, pub_keys_recovered = True, cached_trxs = trx_metas\<rparr>)"

definition extract_trxs_metas :: "('k, 's, 't, 'm) full_block_state \<Rightarrow> 'm list \<times> ('k, 's, 't, 'm) full_block_state" where
  "extract_trxs_metas bs = (cached_trxs bs, bs\<lparr>pub_keys_recovered := False, cached_trxs := []\<rparr>)"

definition set_trxs_metas ::
  "'m list \<Rightarrow> bool \<Rightarrow> ('k, 's, 't, 'm) full_block_state \<Rightarrow> ('k, 's, 't, 'm) full_block_state" where
  "set_trxs_metas trxs_metas keys_recovered bs = bs\<lparr>pub_keys_recovered := keys_recovered, cached_trxs := trxs_metas\<rparr>"

end
