(* ===== verification/Block_State_Properties.thy ===== *)
theory Block_State_Properties
  imports Block_State Dpos_Properties
begin

text \<open>
  The extensions that a block may have, exactly, and the round trip of the additional signatures: what the producer puts into
  its block is what a node that receives the block takes out of it.
\<close>

lemma unique_signatures_Inr: "unique_signatures S xs = Inr u \<longleftrightarrow> distinct xs \<and> set xs \<inter> S = {}"
  by (induction xs arbitrary: S) (auto simp: result_simps)

lemma signatures_reflector_init_Inr: "signatures_reflector_init xs = Inr u \<longleftrightarrow> xs \<noteq> [] \<and> distinct xs"
  by (auto simp: signatures_reflector_init_def result_simps unique_signatures_Inr)

lemma extract_block_extension_Inr:
  "extract_block_extension bcodec eid data = Inr (Some e) \<longleftrightarrow>
     eid = additional_sigs_eid \<and>
     (\<exists>sigs. unpack_signatures bcodec data = Some sigs \<and> sigs \<noteq> [] \<and> distinct sigs \<and> e = Additional_block_signatures sigs)"
  by (auto simp: extract_block_extension_def result_simps signatures_reflector_init_Inr split: option.splits)

lemma extract_block_extensions_Cons:
  "extract_block_extensions bcodec i lower ((eid, data) # rest) = Inr r \<longleftrightarrow>
     lower \<le> eid \<and> (i = 0 \<or> lower < eid) \<and>
     (\<exists>e r'. extract_block_extension bcodec eid data = Inr (Some e) \<and>
        extract_block_extensions bcodec (Suc i) eid rest = Inr r' \<and> r = (eid, e) # r')"
proof (cases "extract_block_extension bcodec eid data")
  case (Inr m)
  then show ?thesis
    by (cases m) (auto simp: assert_res_def bind_res_eq_Inr)
qed (simp add: assert_res_def)

lemma extract_later_extensions:
  "0 < i \<Longrightarrow> extract_block_extensions bcodec i additional_sigs_eid exts = Inr r \<longleftrightarrow> exts = [] \<and> r = []"
  by (cases exts) (auto simp: extract_block_extensions_Cons extract_block_extension_Inr simp del: extract_block_extensions.simps(2))

lemma validate_and_extract_exact:
  "validate_and_extract_block_extensions bcodec exts = Inr r \<longleftrightarrow>
     exts = [] \<and> r = [] \<or>
     (\<exists>data sigs. exts = [(additional_sigs_eid, data)] \<and> unpack_signatures bcodec data = Some sigs \<and>
        sigs \<noteq> [] \<and> distinct sigs \<and> r = [(additional_sigs_eid, Additional_block_signatures sigs)])"
proof (cases exts)
  case (Cons e es)
  obtain eid data where e: "e = (eid, data)"
    by force
  show ?thesis
    unfolding Cons e validate_and_extract_block_extensions_def extract_block_extensions_Cons extract_block_extension_Inr
    using extract_later_extensions[of "Suc 0" bcodec es] by fastforce
qed (auto simp: validate_and_extract_block_extensions_def)

lemma extract_additional_signatures_exact:
  "extract_additional_signatures bcodec b = Inr sigs \<longleftrightarrow>
     block_extensions b = [] \<and> sigs = [] \<or>
     (\<exists>data. block_extensions b = [(additional_sigs_eid, data)] \<and> unpack_signatures bcodec data = Some sigs \<and>
        sigs \<noteq> [] \<and> distinct sigs)"
  by (auto simp: extract_additional_signatures_def result_simps validate_and_extract_exact)

lemma verify_signee_distinct:
  assumes "verify_signee crypt s = Inr u"
  shows "distinct (additional_signatures s)"
proof -
  obtain ks where "map (\<lambda>x. recover_key crypt x (sig_digest crypt s)) (additional_signatures s) = map Inr ks" "distinct ks"
    using assms by (auto simp: verify_signee_def Let_def result_simps recover_keys_Inr keys_satisfy_and_relevant_eq)
  then have "distinct (map (\<lambda>x. recover_key crypt x (sig_digest crypt s)) (additional_signatures s))"
    by (simp add: distinct_map)
  then show ?thesis
    by (simp add: distinct_map)
qed

lemma finish_next_signed_Inr:
  assumes "finish_next_signed crypt codec pfs validator h signer p = Inr (s, h')"
  shows "h' = h\<lparr>producer_signature := producer_signature h'\<rparr>" "distinct (additional_signatures s)"
    "additional_signatures s \<noteq> [] \<longrightarrow> builtin_in_set (prev_activated_protocol_features p) pfs Wtmsig_block_signatures"
proof -
  obtain s1 where s1: "sign crypt signer s1 = Inr s"
    "additional_signatures s \<noteq> [] \<longrightarrow> builtin_in_set (prev_activated_protocol_features p) pfs Wtmsig_block_signatures"
    "h' = h\<lparr>producer_signature := producer_signature (header s)\<rparr>"
    using assms by (auto simp: finish_next_signed_def bind_res_eq_Inr assert_res_def split: if_splits)
  show "h' = h\<lparr>producer_signature := producer_signature h'\<rparr>"
    unfolding s1(3) by simp
  show "additional_signatures s \<noteq> [] \<longrightarrow> builtin_in_set (prev_activated_protocol_features p) pfs Wtmsig_block_signatures"
    by (rule s1(2))
  have "verify_signee crypt s = Inr ()"
    by (rule sign_Inr[OF s1(1)])
  then show "distinct (additional_signatures s)"
    by (rule verify_signee_distinct)
qed

text \<open>The second check for the protocol feature in \<open>inject_additional_signatures\<close> never fails: the first one has thrown by then.\<close>

lemma inject_additional_signatures_Inr:
  "inject_additional_signatures crypt codec bcodec pfs validator b signer cur = Inr (s, b') \<longleftrightarrow>
     (\<exists>h. finish_next_signed crypt codec pfs validator (signed_block_header.truncate b) signer cur = Inr (s, h) \<and>
        b' = b\<lparr>producer_signature := producer_signature h,
          block_extensions :=
            (if additional_signatures s = [] then block_extensions b
             else emplace_extension (block_extensions b) additional_sigs_eid (pack_signatures bcodec (additional_signatures s)))\<rparr>)"
proof (cases "finish_next_signed crypt codec pfs validator (signed_block_header.truncate b) signer cur")
  case (Inr r)
  obtain s0 h where r: "r = (s0, h)"
    by force
  have "additional_signatures s0 \<noteq> [] \<longrightarrow> builtin_in_set (prev_activated_protocol_features cur) pfs Wtmsig_block_signatures"
    using finish_next_signed_Inr(3) Inr unfolding r .
  then show ?thesis
    unfolding inject_additional_signatures_def Inr r by (auto simp: Let_def assert_res_def)
qed (simp add: inject_additional_signatures_def)

lemma truncate_signed:
  "signed_block_header.truncate (b\<lparr>producer_signature := x, block_extensions := e\<rparr>) =
     (signed_block_header.truncate b)\<lparr>producer_signature := x\<rparr>"
  by (simp add: signed_block_header.defs)

lemma emplace_extension_Nil [simp]: "emplace_extension [] eid data = [(eid, data)]"
  by (simp add: emplace_extension_def)

text \<open>
  C13. Every block that a producer builds on a state and signs, with any number of signatures, is accepted by
  the constructor for received blocks on that state: the signatures that the extensions of the block carry are the ones
  that were made, and both sides have the same header state and the same block. The block is built without
  extensions, and unpacking gives back what was packed.
\<close>
theorem produced_block_state_accepted:
  assumes "next_pending crypt w c s = Inr p" "timestamp p \<noteq> 0"
    "block_state_produced crypt codec bcodec pfs validator b trx_metas signer p = Inr bs"
    "block_extensions b = []" "\<And>sigs. unpack_signatures bcodec (pack_signatures bcodec sigs) = Some sigs"
  shows "block_state_received crypt codec bcodec pfs validator (block bs) False s =
    Inr (bs\<lparr>pub_keys_recovered := False, cached_trxs := []\<rparr>)"
proof -
  obtain s' b' where b': "inject_additional_signatures crypt codec bcodec pfs validator b signer p = Inr (s', b')"
    "bs = \<lparr>header_state = s', block = b', is_valid = False, pub_keys_recovered = True, cached_trxs = trx_metas\<rparr>"
    using assms(3) by (auto simp: block_state_produced_def bind_res_eq_Inr)
  obtain h where h: "finish_next_signed crypt codec pfs validator (signed_block_header.truncate b) signer p = Inr (s', h)"
    "b' = b\<lparr>producer_signature := producer_signature h, block_extensions :=
       (if additional_signatures s' = [] then [] else [(additional_sigs_eid, pack_signatures bcodec (additional_signatures s'))])\<rparr>"
    using b'(1) unfolding inject_additional_signatures_Inr assms(4) by auto
  have "extract_additional_signatures bcodec b' = Inr (additional_signatures s')"
    unfolding extract_additional_signatures_exact h(2) using finish_next_signed_Inr(2)[OF h(1)] assms(5) by simp
  moreover have "signed_block_header.truncate b' = h"
    unfolding h(2) truncate_signed using finish_next_signed_Inr(1)[OF h(1)] by simp
  ultimately show ?thesis
    using signed_block_accepted[OF assms(1,2) h(1)] by (simp add: b'(2) block_state_received_def)
qed

text \<open>A sample: a producer with a key pair that signs with both keys, after the activation of the feature that allows it.\<close>

fun unary_signatures :: "nat \<Rightarrow> bytes \<Rightarrow> nat list option" where
  "unary_signatures n [] = Some []"
| "unary_signatures n (x # xs) =
     (if x = 0 then (case unary_signatures 0 xs of None \<Rightarrow> None | Some ns \<Rightarrow> Some (n # ns)) else unary_signatures (Suc n) xs)"

definition sample_signatures_codec :: "nat signatures_codec" where
  "sample_signatures_codec =
     \<lparr>pack_signatures = (\<lambda>sigs. concat (map (\<lambda>n. replicate n 1 @ [0]) sigs)), unpack_signatures = unary_signatures 0\<rparr>"

lemma unary_signatures_replicate: "unary_signatures n (replicate m 1 @ xs) = unary_signatures (n + m) xs"
  by (induction m arbitrary: n) simp_all

lemma sample_signatures_codec_law:
  "unpack_signatures sample_signatures_codec (pack_signatures sample_signatures_codec sigs) = Some sigs"
  by (induction sigs) (simp_all add: sample_signatures_codec_def unary_signatures_replicate)

definition wtmsig_features :: protocol_feature_set where
  "wtmsig_features =
     \<lparr>recognized = [\<lparr>feature_digest = nth_digest 7, pf_description_digest = 0, dependencies = [],
         pf_restrictions = default_restrictions, builtin_feature = Some Wtmsig_block_signatures\<rparr>],
      recognized_builtin = replicate (codename_index Wtmsig_block_signatures) None @ [Some (nth_digest 7)]\<rparr>"

definition key_pair_producer :: "nat \<Rightarrow> nat producer_authority" where
  "key_pair_producer n =
     \<lparr>producer_name = of_nat n,
      signing_authority = \<lparr>sa_threshold = 2, sa_keys = [\<lparr>kw_key = n, kw_weight = 1\<rparr>, \<lparr>kw_key = n + 10, kw_weight = 1\<rparr>]\<rparr>\<rparr>"

definition key_pair_state :: "(nat, nat) block_header_state" where
  "key_pair_state = sample_state\<lparr>
     active_schedule := \<lparr>version = 1, producers = map key_pair_producer [1, 2, 3, 4]\<rparr>,
     pending_schedule := \<lparr>schedule_lib_num = 0, schedule_hash = zero_digest, schedule = \<lparr>version = 1, producers = []\<rparr>\<rparr>,
     activated_protocol_features := [nth_digest 7]\<rparr>"

definition key_pair_pending :: "nat pending_block_header_state" where
  "key_pair_pending = projr (next_pending sample_crypto 112 0 key_pair_state)"

definition key_pair_block :: "(nat, nat, unit) signed_block" where
  "key_pair_block =
     signed_block_header.extend
       (projr (make_block_header sample_codec wtmsig_features 0 zero_digest zero_digest None None [] key_pair_pending))
       (signed_block.fields Complete_legacy [] [])"

definition key_pair_signer :: "digest \<Rightarrow> nat list" where
  "key_pair_signer d = [unat (next_producer key_pair_pending), unat (next_producer key_pair_pending) + 10]"

definition key_pair_produced :: "(nat, nat, unit, unit) full_block_state" where
  "key_pair_produced =
     projr (block_state_produced sample_crypto sample_codec sample_signatures_codec wtmsig_features accept_all key_pair_block []
       key_pair_signer key_pair_pending)"

theorem produced_block_state_accepted_witness:
  "length (additional_signatures (header_state key_pair_produced)) = 1 \<and>
   block_state_received sample_crypto sample_codec sample_signatures_codec wtmsig_features accept_all (block key_pair_produced) False
     key_pair_state = Inr (key_pair_produced\<lparr>pub_keys_recovered := False, cached_trxs := []\<rparr>)"
proof -
  have "returns (next_pending sample_crypto 112 0 key_pair_state)"
    by code_simp
  then have pending: "next_pending sample_crypto 112 0 key_pair_state = Inr key_pair_pending"
    by (auto simp: returns_iff key_pair_pending_def)
  let ?r = "block_state_produced sample_crypto sample_codec sample_signatures_codec wtmsig_features accept_all key_pair_block ([] :: unit list)
       key_pair_signer key_pair_pending"
  have "returns ?r"
    by code_simp
  then have produced: "?r = Inr key_pair_produced"
    by (auto simp: returns_iff key_pair_produced_def)
  have "timestamp key_pair_pending \<noteq> 0" "length (additional_signatures (header_state key_pair_produced)) = 1"
    by code_simp+
  then show ?thesis
    using produced_block_state_accepted[OF pending _ produced _ sample_signatures_codec_law]
    by (simp add: key_pair_block_def signed_block_header.defs signed_block.defs)
qed

end
