(* ===== verification/Spec2Isabelle.thy ===== *)
theory Spec2Isabelle
  imports Chain_Database Merkle Chain_Name Chain_Asset Authority Native_Code Fork_Properties Dpos_Properties Token_Properties
    Unapplied_Properties Multisig_Properties Db_Key_Properties Kv_Undo_Properties Block_State_Properties
begin

text \<open>
  Verification of the dcd protocol node.
\<close>

text \<open>
  The part of a block state that the fork database reads, taken from the header state of the block. The argument \<open>idn\<close> numbers the
  block ids.
\<close>

definition fork_block :: "(digest \<Rightarrow> nat) \<Rightarrow> ('k, 's, 't, 'm) full_block_state \<Rightarrow> block_state" where
  "fork_block idn bs =
     (let s = header_state bs in
      \<lparr>bid = idn (block_id s), block_state.previous = idn (bh_previous (header s)),
       block_state.block_num = unat (block_header_state_common.block_num s),
       block_state.dpos_irreversible_blocknum = unat (block_header_state_common.dpos_irreversible_blocknum s),
       block_state.timestamp = unat (bh_timestamp (header s)),
       block_state.activated_protocol_features = map idn (block_header_state.activated_protocol_features s),
       block_state.header_exts =
         (case activation_of (block_header_state.header_exts s) of Inl _ \<Rightarrow> None | Inr ds \<Rightarrow> Some (map idn ds)),
       validated = is_valid bs\<rparr>)"

lemma fork_block_simps [simp]:
  "bid (fork_block idn bs) = idn (block_id (header_state bs))"
  "block_state.previous (fork_block idn bs) = idn (bh_previous (header (header_state bs)))"
  "validated (fork_block idn bs) = is_valid bs"
  "(fork_block idn bs)\<lparr>validated := v\<rparr> = fork_block idn (bs\<lparr>is_valid := v\<rparr>)"
  by (simp_all add: fork_block_def Let_def)

lemma next_state_previous:
  assumes "next_state crypt codec pfs validator h sigs skip s = Inr s'"
  shows "bh_previous (header s') = block_id s"
proof -
  obtain p s1 where p: "next_pending crypt (bh_timestamp h) (confirmed h) s = Inr p"
    "finish_next_impl crypt codec pfs validator h p = Inr s1" "s' = s1 \<or> s' = s1\<lparr>additional_signatures := sigs\<rparr>"
    using next_state_Inr[OF assms] .
  obtain t proauth tree where t: "p = build_pending s t (confirmed h) proauth tree"
    using next_pending_Inr[OF p(1)] by metis
  have "pending_block_header_state.previous p = block_id s"
    unfolding t by (simp add: build_pending_def Let_def split: prod.splits)
  moreover have "bh_previous h = pending_block_header_state.previous p"
    using finish_next_impl_Inr(10)[OF p(2)] by (simp add: check_template_def result_simps)
  moreover have "header s' = h"
    using p(3) finish_next_impl_Inr(7)[OF p(2)] by auto
  ultimately show ?thesis
    by simp
qed

lemma next_state_id:
  assumes "next_state crypt codec pfs validator h sigs skip s = Inr s'"
  shows "block_id s' = calculate_id (header_digest crypt) h"
proof -
  obtain p s1 where "finish_next_impl crypt codec pfs validator h p = Inr s1" "s' = s1 \<or> s' = s1\<lparr>additional_signatures := sigs\<rparr>"
    using next_state_Inr[OF assms] by metis
  then show ?thesis
    using finish_next_impl_Inr(9) by fastforce
qed

lemma block_state_received_Inr:
  assumes "block_state_received crypt codec bcodec pfs validator b skip s = Inr bs"
  obtains sigs where "next_state crypt codec pfs validator (signed_block_header.truncate b) sigs skip s = Inr (header_state bs)"
    "\<not> is_valid bs"
  using assms by (auto simp: block_state_received_def bind_res_eq_Inr)

lemma next_state_follows:
  assumes "dpos_ok (header_state p)" "block_header_state_common.block_num (header_state p) \<noteq> - 1"
    "next_state crypt codec pfs validator h sigs skip (header_state p) = Inr (header_state n)"
  shows "follows (fork_block idn p) (fork_block idn n)" "first_preferred (fork_block idn n) (fork_block idn p)"
proof -
  have "unat (block_header_state_common.block_num (header_state n)) = Suc (unat (block_header_state_common.block_num (header_state p)))"
    using next_state_dpos(1)[OF assms] assms(2) by (metis add.commute add.right_inverse unatSuc add_diff_cancel_left' eq_neg_iff_add_eq_0)
  then show "follows (fork_block idn p) (fork_block idn n)" "first_preferred (fork_block idn n) (fork_block idn p)"
    using next_state_dpos(4)[OF assms] next_state_previous[OF assms(3)]
    by (auto simp: follows_def first_preferred_def fork_block_def Let_def word_le_nat_alt less_prod_def)
qed

lemma insert_unvalidated_head:
  assumes "head db = Some h" "\<not> validated n"
  obtains h1 where "head (insert_block n db) = Some h1" "h1 = h \<or> h1 \<in> set (index db) \<and> validated h1"
proof -
  let ?db = "db\<lparr>index := index db @ [n]\<rparr>"
  have "hd (by_lib_block_num ?db) \<in> insert n (set (index db))"
    using candidate_properties(1)[of ?db] by simp
  then show ?thesis
    using assms that by (cases "validated (hd (by_lib_block_num ?db))") (auto simp: insert_block_def Let_def)
qed

lemma preferred_block_becomes_head:
  assumes ok: "fork_ok db" "head db = Some h" and n: "bid n \<notin> bid ` set (index db)" "\<not> validated n" "first_preferred n h"
  shows "\<exists>db'. mark_valid n (insert_block n db) = Inr db' \<and> head db' = Some (n\<lparr>validated := True\<rparr>) \<and>
    index db' = index db @ [n\<lparr>validated := True\<rparr>]"
proof -
  let ?n = "n\<lparr>validated := True\<rparr>"
  have best: "\<not> first_preferred b h" if "b \<in> set (index db)" "validated b" for b
    using fork_okE[OF ok(1)] ok(2) that by (metis best_head_def option.inject)
  obtain h1 where h1: "head (insert_block n db) = Some h1" "h1 = h \<or> h1 \<in> set (index db) \<and> validated h1"
    using insert_unvalidated_head[OF ok(2) n(2)] .
  have n1: "first_preferred ?n b" if "b = h \<or> b \<in> set (index db) \<and> validated b" for b
    using that best[of b] n(3) by (auto simp: first_preferred_def less_prod_def)
  have idx: "set_valid (bid n) (index (insert_block n db)) = index db @ [?n]"
    using n(1) by (auto simp: set_valid_def intro!: map_idI) (metis imageI)
  let ?db = "(insert_block n db)\<lparr>index := index db @ [?n]\<rparr>"
  let ?c = "hd (by_lib_block_num ?db)"
  have "?c \<in> insert ?n (set (index db))" "validated ?c" "\<not> first_preferred ?n ?c"
    using candidate_properties(1)[of ?db] candidate_best[of ?n ?db] by simp_all
  then have "?c = ?n"
    using n1 by blast
  then have "mark_valid n (insert_block n db) = Inr (?db\<lparr>head := Some ?n\<rparr>)"
    using n1[OF h1(2)] n(2) unfolding mark_valid_unfold[OF h1(1)] idx by (simp add: Let_def)
  then show ?thesis
    by simp
qed

lemma head_found:
  assumes "fork_ok db" "head db = Some h" "root db = Some r"
  shows "root_or_block r db (bid h) = Some h"
proof -
  have "fork_shape r (index db)" "h = r \<or> h \<in> set (index db)"
    using fork_okE[OF assms(1)] assms(2,3) by (auto simp: best_head_def)
  then show ?thesis
    using get_block_in[OF fork_shape_distinct] by (auto simp: root_or_block_def fork_shape_def)
qed


definition digest_number :: "digest \<Rightarrow> nat" where
  "digest_number d = unat (hash1 d)"

definition sample_head :: "(nat, nat, unit, unit) full_block_state" where
  "sample_head = \<lparr>header_state = key_pair_state, block = key_pair_block, is_valid = True, pub_keys_recovered = False, cached_trxs = []\<rparr>"

definition sample_received :: "(nat, nat, unit, unit) full_block_state" where
  "sample_received =
     projr (block_state_received sample_crypto sample_codec sample_signatures_codec wtmsig_features accept_all
       (block key_pair_produced) False key_pair_state)"


end
